(* ===== verification/Prelude.thy ===== *)
theory Prelude
  imports Main "HOL-Library.Word" "HOL-Library.Signed_Division" "HOL-Library.Multiset"
begin

text \<open>
  Shared vocabulary of the development: the C integer types as words, the collections of
  simplification rules the component theories add to, and the generic lemmas on lists,
  options and linked structures that more than one component needs.

  The integer conventions: a field whose width is observable (the packed directory words,
  the counters that wrap) is a word of that width; a C \<^verbatim>\<open>int\<close> or \<^verbatim>\<open>ink_off_t\<close>
  whose overflow no component reaches is an \<^typ>\<open>int\<close>, with the truncating division and
  remainder of C written \<open>sdiv\<close> and \<open>smod\<close>.
\<close>

type_synonym u8 = "8 word"
type_synonym u16 = "16 word"
type_synonym u32 = "32 word"
type_synonym u64 = "64 word"

text \<open>The value of an expression of type \<^verbatim>\<open>int\<close> whose exact value may lie outside of 32 bits.\<close>

definition c_int :: "int \<Rightarrow> int" where
  "c_int x = sint (word_of_int x :: u32)"

lemma c_int_id: "- (2 ^ 31) \<le> x \<Longrightarrow> x < 2 ^ 31 \<Longrightarrow> c_int x = x"
  by (simp add: c_int_def signed_of_int signed_take_bit_int_eq_self)

lemma sdiv_nonneg: "0 \<le> a \<Longrightarrow> 0 < b \<Longrightarrow> a sdiv b = a div b" for a b :: int
  by (cases "a = 0") (simp_all add: signed_divide_int_def)

lemma smod_nonneg: "0 \<le> a \<Longrightarrow> 0 < b \<Longrightarrow> a smod b = a mod b" for a b :: int
  by (cases "a = 0") (simp_all add: signed_modulo_int_def)

named_theorems dir_simps \<open>reading a directory after one write to it\<close>
named_theorems link_simps \<open>rewriting of link cells and list descriptors\<close>

lemma int_div_less: "a div b < c" if "0 < b" "a < c * b" for a b c :: int
proof (rule ccontr)
  assume "\<not> a div b < c"
  then have "c * b \<le> (a div b) * b" using that(1) by (simp add: mult_right_mono)
  also have "\<dots> = a - a mod b" by (simp add: minus_mod_eq_div_mult)
  also have "\<dots> \<le> a" using that(1) by simp
  finally show False using that(2) by simp
qed

section \<open>Linked chains of natural-number links\<close>

text \<open>
  \<open>chain nx i xs\<close>: starting from link \<open>i\<close>, where \<open>0\<close> is the null link and
  \<open>nx\<close> gives the link stored in a cell, the cells met are exactly \<open>xs\<close>, in order,
  and the last one holds the null link.
\<close>

primrec chain :: "(nat \<Rightarrow> nat) \<Rightarrow> nat \<Rightarrow> nat list \<Rightarrow> bool" where
  "chain nx i [] \<longleftrightarrow> i = 0"
| "chain nx i (x # xs) \<longleftrightarrow> i = x \<and> x \<noteq> 0 \<and> chain nx (nx x) xs"

text \<open>The same chain, with the cells' back links: \<open>pv x\<close> is the cell before \<open>x\<close>.\<close>

primrec back_links :: "(nat \<Rightarrow> nat) \<Rightarrow> nat \<Rightarrow> nat list \<Rightarrow> bool" where
  "back_links pv p [] \<longleftrightarrow> True"
| "back_links pv p (x # xs) \<longleftrightarrow> pv x = p \<and> back_links pv x xs"

lemma chain_zero [simp]: "chain nx 0 xs \<longleftrightarrow> xs = []"
  by (cases xs) auto

lemma chain_nonzero: "i \<noteq> 0 \<Longrightarrow> chain nx i xs \<longleftrightarrow> (\<exists>ys. xs = i # ys \<and> chain nx (nx i) ys)"
  by (cases xs) auto

lemma chain_cong: "(\<And>x. x \<in> set xs \<Longrightarrow> nx x = nx' x) \<Longrightarrow> chain nx i xs \<longleftrightarrow> chain nx' i xs"
  by (induction xs arbitrary: i) auto

lemma chain_upd [simp]: "a \<notin> set xs \<Longrightarrow> chain (nx(a := v)) i xs \<longleftrightarrow> chain nx i xs"
  by (rule chain_cong) auto

lemma chain_unique: "chain nx i xs \<Longrightarrow> chain nx i ys \<Longrightarrow> xs = ys"
proof (induction xs arbitrary: i ys)
  case Nil
  then show ?case by simp
next
  case (Cons x xs)
  then show ?case by (cases ys) auto
qed

lemma chain_not_zero: "chain nx i xs \<Longrightarrow> 0 \<notin> set xs"
  by (induction xs arbitrary: i) auto

lemma chain_suffix:
  "chain nx i (us @ x # vs) \<Longrightarrow> chain nx (nx x) vs"
  by (induction us arbitrary: i) auto

lemma chain_distinct: "chain nx i xs \<Longrightarrow> distinct xs"
proof (induction xs arbitrary: i)
  case Nil
  then show ?case by simp
next
  case (Cons x xs)
  have "x \<notin> set xs"
  proof
    assume "x \<in> set xs"
    then obtain us vs where xs: "xs = us @ x # vs"
      by (auto simp: in_set_conv_decomp)
    from Cons.prems have "chain nx (nx x) xs" by simp
    moreover from this xs have "chain nx (nx x) vs"
      using chain_suffix by blast
    ultimately have "xs = vs" by (rule chain_unique)
    with xs show False by simp
  qed
  with Cons show ?case by auto
qed

lemma back_links_cong:
  "(\<And>x. x \<in> set xs \<Longrightarrow> pv x = pv' x) \<Longrightarrow> back_links pv p xs \<longleftrightarrow> back_links pv' p xs"
  by (induction xs arbitrary: p) auto

lemma back_links_upd [simp]: "a \<notin> set xs \<Longrightarrow> back_links (pv(a := v)) p xs \<longleftrightarrow> back_links pv p xs"
  by (rule back_links_cong) auto

lemma chain_append:
  "chain nx i (us @ x # vs) \<longleftrightarrow>
     (\<exists>nx'. nx' = nx(x := 0) \<and> chain nx' i (us @ [x]) \<and> chain nx (nx x) vs)"
  if "distinct (us @ [x])"
  using that
proof (induction us arbitrary: i)
  case Nil
  then show ?case by auto
next
  case (Cons u us)
  then show ?case by auto
qed

end
