(* ===== verification/Intrusive_List.thy ===== *)
theory Intrusive_List
  imports Prelude
begin

text \<open>
  The intrusive list templates of \<^verbatim>\<open>libinktomi++/List.h\<close>: the doubly linked list
  \<^verbatim>\<open>DLL\<close> and the \<^verbatim>\<open>Queue\<close> that extends it with a tail pointer. Every other
  component keeps its objects on such lists.

  An object is an address, \<^verbatim>\<open>NULL\<close> is \<open>None\<close>, and the link cells of one link
  offset are two maps from addresses to addresses. The list descriptor is a record;
  \<^verbatim>\<open>Queue\<close> extends the record of \<^verbatim>\<open>DLL\<close> as the class does. The two spellings of
  every method in the source (with an explicit link argument and with a template offset)
  store to the same cells; where their bodies differ both are defined.

  The lemmas show that the descriptors and cells represent a HOL list and that every
  method implements the list operation it stands for.
\<close>

section \<open>Link cells and descriptors\<close>

record 'a links =
  lnext :: "'a \<Rightarrow> 'a option"
  lprev :: "'a \<Rightarrow> 'a option"

record 'a dll =
  head :: "'a option"

record 'a queue = "'a dll" +
  tail :: "'a option"

definition set_next :: "'a \<Rightarrow> 'a option \<Rightarrow> 'a links \<Rightarrow> 'a links" where
  "set_next c x h = h\<lparr>lnext := (lnext h)(c := x)\<rparr>"

definition set_prev :: "'a \<Rightarrow> 'a option \<Rightarrow> 'a links \<Rightarrow> 'a links" where
  "set_prev c x h = h\<lparr>lprev := (lprev h)(c := x)\<rparr>"

text \<open>A store through a pointer that the source tests for \<^verbatim>\<open>NULL\<close> first.\<close>

definition set_next_opt :: "'a option \<Rightarrow> 'a option \<Rightarrow> 'a links \<Rightarrow> 'a links" where
  "set_next_opt c x h = (case c of None \<Rightarrow> h | Some c' \<Rightarrow> set_next c' x h)"

definition set_prev_opt :: "'a option \<Rightarrow> 'a option \<Rightarrow> 'a links \<Rightarrow> 'a links" where
  "set_prev_opt c x h = (case c of None \<Rightarrow> h | Some c' \<Rightarrow> set_prev c' x h)"

section \<open>DLL\<close>

definition dll_push :: "'a \<Rightarrow> 'a links \<times> ('a, 'b) dll_scheme \<Rightarrow> 'a links \<times> ('a, 'b) dll_scheme" where
  "dll_push c = (\<lambda>(h, q).
     let h1 = set_next c (head q) h;
         h2 = set_prev_opt (head q) (Some c) h1
     in (h2, q\<lparr>head := Some c\<rparr>))"

definition dll_remove :: "'a \<Rightarrow> 'a links \<times> ('a, 'b) dll_scheme \<Rightarrow> 'a links \<times> ('a, 'b) dll_scheme" where
  "dll_remove c = (\<lambda>(h, q).
     if head q = None then (h, q)
     else
       let q1 = (if head q = Some c then q\<lparr>head := lnext h c\<rparr> else q);
           h1 = set_next_opt (lprev h c) (lnext h c) h;
           h2 = set_prev_opt (lnext h1 c) (lprev h1 c) h1;
           h3 = set_prev c None h2;
           h4 = set_next c None h3
       in (h4, q1))"

definition dll_pop :: "'a links \<times> ('a, 'b) dll_scheme \<Rightarrow> 'a option \<times> 'a links \<times> ('a, 'b) dll_scheme" where
  "dll_pop = (\<lambda>(h, q).
     case head q of
       None \<Rightarrow> (None, h, q)
     | Some res \<Rightarrow> (Some res, dll_remove res (h, q)))"

text \<open>The offset version of \<^verbatim>\<open>pop\<close> unlinks the head itself instead of calling \<^verbatim>\<open>remove\<close>.\<close>

definition dll_pop_off :: "'a links \<times> ('a, 'b) dll_scheme \<Rightarrow> 'a option \<times> 'a links \<times> ('a, 'b) dll_scheme" where
  "dll_pop_off = (\<lambda>(h, q).
     case head q of
       None \<Rightarrow> (None, h, q)
     | Some ret \<Rightarrow>
         let q1 = q\<lparr>head := lnext h ret\<rparr>;
             h1 = set_prev_opt (head q1) None h;
             h2 = set_next ret None h1
         in (Some ret, h2, q1))"

definition dll_insert ::
  "'a \<Rightarrow> 'a option \<Rightarrow> 'a links \<times> ('a, 'b) dll_scheme \<Rightarrow> 'a links \<times> ('a, 'b) dll_scheme" where
  "dll_insert c aft = (\<lambda>(h, q).
     case aft of
       None \<Rightarrow> dll_push c (h, q)
     | Some a \<Rightarrow>
         let h1 = set_prev c (Some a) h;
             h2 = set_next c (lnext h1 a) h1;
             h3 = set_next a (Some c) h2;
             h4 = set_prev_opt (lnext h3 c) (Some c) h3
         in (h4, q))"

section \<open>Queue\<close>

definition queue_push :: "'a \<Rightarrow> 'a links \<times> 'a queue \<Rightarrow> 'a links \<times> 'a queue" where
  "queue_push c s =
     (let (h, q) = dll_push c s
      in (h, if tail q = None then q\<lparr>tail := head q\<rparr> else q))"

definition queue_pop :: "'a links \<times> 'a queue \<Rightarrow> 'a option \<times> 'a links \<times> 'a queue" where
  "queue_pop s =
     (let (ret, h, q) = dll_pop s
      in (ret, h, if head q = None then q\<lparr>tail := None\<rparr> else q))"

definition queue_pop_off :: "'a links \<times> 'a queue \<Rightarrow> 'a option \<times> 'a links \<times> 'a queue" where
  "queue_pop_off s =
     (let (ret, h, q) = dll_pop_off s
      in (ret, h, if head q = None then q\<lparr>tail := None\<rparr> else q))"

definition queue_insert :: "'a \<Rightarrow> 'a option \<Rightarrow> 'a links \<times> 'a queue \<Rightarrow> 'a links \<times> 'a queue" where
  "queue_insert c aft s =
     (let (h, q) = dll_insert c aft s
      in (h, if tail q = None then q\<lparr>tail := head q\<rparr>
             else if tail q = aft then q\<lparr>tail := Some c\<rparr> else q))"

definition queue_remove :: "'a \<Rightarrow> 'a links \<times> 'a queue \<Rightarrow> 'a links \<times> 'a queue" where
  "queue_remove c = (\<lambda>(h, q).
     dll_remove c (h, if tail q = Some c then q\<lparr>tail := lprev h c\<rparr> else q))"

text \<open>The walk to the last object of the appended \<^verbatim>\<open>DLL\<close>; it does not return on a cycle.\<close>

partial_function (option) last_link :: "'a links \<Rightarrow> 'a \<Rightarrow> 'a option" where
  "last_link h c = (case lnext h c of None \<Rightarrow> Some c | Some n \<Rightarrow> last_link h n)"

definition queue_append_tail ::
  "'a option \<Rightarrow> 'a option \<Rightarrow> 'a links \<times> 'a queue \<Rightarrow> 'a links \<times> 'a queue" where
  "queue_append_tail qhead qtail = (\<lambda>(h, q).
     if head q = None then (h, q\<lparr>head := qhead, tail := qtail\<rparr>)
     else
       (case qhead of
          None \<Rightarrow> (h, q)
        | Some x \<Rightarrow>
            (set_prev x (tail q) (set_next_opt (tail q) (Some x) h), q\<lparr>tail := qtail\<rparr>)))"

definition queue_append_queue :: "'a queue \<Rightarrow> 'a links \<times> 'a queue \<Rightarrow> 'a links \<times> 'a queue" where
  "queue_append_queue r = queue_append_tail (head r) (tail r)"

definition queue_append_dll :: "'a dll \<Rightarrow> 'a links \<times> 'a queue \<Rightarrow> ('a links \<times> 'a queue) option" where
  "queue_append_dll r = (\<lambda>(h, q).
     case head r of
       None \<Rightarrow> Some (queue_append_tail None None (h, q))
     | Some x \<Rightarrow>
         (case last_link h x of
            None \<Rightarrow> None
          | Some t \<Rightarrow> Some (queue_append_tail (Some x) (Some t) (h, q))))"

definition queue_enqueue :: "'a \<Rightarrow> 'a links \<times> 'a queue \<Rightarrow> 'a links \<times> 'a queue" where
  "queue_enqueue c = (\<lambda>(h, q).
     let (h', q') = (case tail q of
         Some t \<Rightarrow> queue_insert c (Some t) (h, q)
       | None \<Rightarrow> dll_push c (h, q))
     in (h', q'\<lparr>tail := Some c\<rparr>))"

definition queue_enqueue_off :: "'a \<Rightarrow> 'a links \<times> 'a queue \<Rightarrow> 'a links \<times> 'a queue" where
  "queue_enqueue_off c = (\<lambda>(h, q).
     case tail q of
       Some t \<Rightarrow> queue_insert c (Some t) (h, q)
     | None \<Rightarrow> queue_push c (h, q))"

definition queue_dequeue :: "'a links \<times> 'a queue \<Rightarrow> 'a option \<times> 'a links \<times> 'a queue" where
  "queue_dequeue = (\<lambda>(h, q).
     case head q of
       None \<Rightarrow> (None, h, q)
     | Some chead \<Rightarrow> (Some chead, queue_remove chead (h, q)))"

definition queue_dequeue_off :: "'a links \<times> 'a queue \<Rightarrow> 'a option \<times> 'a links \<times> 'a queue" where
  "queue_dequeue_off s = queue_pop_off s"

section \<open>The list a descriptor represents\<close>

text \<open>
  \<open>lseg h p x xs e\<close>: the cells reached from \<open>x\<close> are \<open>xs\<close>, the first one points
  back to \<open>p\<close>, each one to its predecessor, and the last one's next pointer is \<open>e\<close>.
\<close>

primrec lseg :: "'a links \<Rightarrow> 'a option \<Rightarrow> 'a option \<Rightarrow> 'a list \<Rightarrow> 'a option \<Rightarrow> bool" where
  "lseg h p x [] e \<longleftrightarrow> x = e"
| "lseg h p x (a # as) e \<longleftrightarrow> x = Some a \<and> lprev h a = p \<and> lseg h (Some a) (lnext h a) as e"

definition dll_rep :: "'a links \<Rightarrow> ('a, 'b) dll_scheme \<Rightarrow> 'a list \<Rightarrow> bool" where
  "dll_rep h q xs \<longleftrightarrow> lseg h None (head q) xs None \<and> distinct xs"

definition last_opt :: "'a list \<Rightarrow> 'a option" where
  "last_opt xs = (if xs = [] then None else Some (last xs))"

definition head_opt :: "'a list \<Rightarrow> 'a option" where
  "head_opt xs = (case xs of [] \<Rightarrow> None | x # _ \<Rightarrow> Some x)"

definition queue_rep :: "'a links \<Rightarrow> 'a queue \<Rightarrow> 'a list \<Rightarrow> bool" where
  "queue_rep h q xs \<longleftrightarrow> dll_rep h q xs \<and> tail q = last_opt xs"

text \<open>An object that is on no list of this link offset: both its links are \<^verbatim>\<open>NULL\<close>.\<close>

definition unlinked :: "'a links \<Rightarrow> 'a \<Rightarrow> bool" where
  "unlinked h c \<longleftrightarrow> lnext h c = None \<and> lprev h c = None"

definition same_outside :: "'a set \<Rightarrow> 'a links \<Rightarrow> 'a links \<Rightarrow> bool" where
  "same_outside A h h' \<longleftrightarrow> (\<forall>x. x \<notin> A \<longrightarrow> lnext h' x = lnext h x \<and> lprev h' x = lprev h x)"

text \<open>The loop \<^verbatim>\<open>while ((e = q.dequeue()))\<close>, run for at most \<open>n\<close> rounds.\<close>

primrec drain :: "('s \<Rightarrow> 'a option \<times> 's) \<Rightarrow> nat \<Rightarrow> 's \<Rightarrow> 'a list \<times> 's" where
  "drain deq 0 s = ([], s)"
| "drain deq (Suc n) s =
     (case deq s of
        (None, s') \<Rightarrow> ([], s')
      | (Some e, s') \<Rightarrow> (let (es, s'') = drain deq n s' in (e # es, s'')))"

text \<open>Three objects on a queue and two on a list, used by the witnesses.\<close>

definition demo_links :: "nat links" where
  "demo_links = \<lparr>lnext = (\<lambda>_. None)(1 := Some 2, 2 := Some 3, 5 := Some 6),
                 lprev = (\<lambda>_. None)(2 := Some 1, 3 := Some 2, 6 := Some 5)\<rparr>"

definition demo_queue :: "nat queue" where
  "demo_queue = \<lparr>head = Some 1, tail = Some 3\<rparr>"

definition demo_dll :: "nat dll" where
  "demo_dll = \<lparr>head = Some 5\<rparr>"

section \<open>Link cells\<close>

lemma set_next_sel [link_simps]:
  "lnext (set_next c x h) = (lnext h)(c := x)" "lprev (set_next c x h) = lprev h"
  by (simp_all add: set_next_def)

lemma set_prev_sel [link_simps]:
  "lprev (set_prev c x h) = (lprev h)(c := x)" "lnext (set_prev c x h) = lnext h"
  by (simp_all add: set_prev_def)

lemma set_opt_simps [link_simps]:
  "set_next_opt None x h = h" "set_next_opt (Some c) x h = set_next c x h"
  "set_prev_opt None x h = h" "set_prev_opt (Some c) x h = set_prev c x h"
  by (simp_all add: set_next_opt_def set_prev_opt_def)

lemma last_opt_simps [link_simps]:
  "last_opt [] = None" "last_opt (xs @ [x]) = Some x" "last_opt (us @ c # vs) = last_opt (c # vs)"
  "last_opt (x # y # ys) = last_opt (y # ys)" "last_opt [x] = Some x"
  by (simp_all add: last_opt_def)

lemma head_opt_simps [link_simps]: "head_opt [] = None" "head_opt (x # xs) = Some x"
  by (simp_all add: head_opt_def)

lemma lseg_cong:
  "(\<And>x. x \<in> set xs \<Longrightarrow> lnext h' x = lnext h x \<and> lprev h' x = lprev h x) \<Longrightarrow>
   lseg h' p x xs e \<longleftrightarrow> lseg h p x xs e"
  by (induction xs arbitrary: p x) auto

lemma lseg_frame:
  assumes "same_outside A h h'" "A \<inter> set xs = {}"
  shows "lseg h' p x xs e \<longleftrightarrow> lseg h p x xs e"
  using assms by (intro lseg_cong) (auto simp: same_outside_def)

lemma lseg_upd [link_simps]:
  "c \<notin> set xs \<Longrightarrow> lseg (set_next c v h) p x xs e \<longleftrightarrow> lseg h p x xs e"
  "c \<notin> set xs \<Longrightarrow> lseg (set_prev c v h) p x xs e \<longleftrightarrow> lseg h p x xs e"
  by (rule lseg_cong; auto simp: set_next_def set_prev_def)+

lemma lseg_append [link_simps]:
  "lseg h p x (us @ vs) e \<longleftrightarrow>
     (\<exists>y. lseg h p x us y \<and> lseg h (if us = [] then p else Some (last us)) y vs e)"
  by (induction us arbitrary: p x) auto

lemma lseg_start: "lseg h p x xs None \<Longrightarrow> x = head_opt xs"
  by (cases xs) (auto simp: link_simps)

lemma lseg_last_link: "lseg h p (Some c) xs None \<Longrightarrow> last_link h c = last_opt xs"
proof (induction xs arbitrary: p c)
  case Nil
  then show ?case by simp
next
  case (Cons a as)
  then show ?case
    by (cases as) (auto simp: last_link.simps [of h a] link_simps)
qed

section \<open>Every method implements the list operation\<close>

lemma dll_push_rep:
  assumes "dll_rep h q xs" "c \<notin> set xs" "unlinked h c" "dll_push c (h, q) = (h', q')"
  shows "dll_rep h' q' (c # xs) \<and> same_outside (insert c (set xs)) h h'"
proof (cases xs)
  case Nil
  with assms show ?thesis
    by (auto simp: dll_rep_def dll_push_def unlinked_def same_outside_def Let_def link_simps)
next
  case (Cons y ys)
  with assms show ?thesis
    by (auto simp: dll_rep_def dll_push_def unlinked_def same_outside_def Let_def link_simps)
qed

lemma lseg_at:
  assumes "lseg h p x (us @ c # vs) None"
  shows "lprev h c = (if us = [] then p else Some (last us))" and "lnext h c = head_opt vs"
    and "lseg h (Some c) (lnext h c) vs None"
    and "lseg h p x us (Some c)"
  using assms by (auto simp: link_simps dest: lseg_start)

lemma lseg_relink:
  assumes "lseg h p x (us @ [u]) e" "distinct (us @ [u])"
  shows "lseg (set_next u e' h) p x (us @ [u]) e'"
  using assms by (auto simp: link_simps)

lemma lseg_reprev:
  assumes "lseg h p x (v # vs) e" "distinct (v # vs)"
  shows "lseg (set_prev v p' h) p' x (v # vs) e"
  using assms by (auto simp: link_simps)

lemma dll_remove_rep:
  assumes "dll_rep h q (us @ c # vs)" "dll_remove c (h, q) = (h', q')"
  shows "dll_rep h' q' (us @ vs) \<and> unlinked h' c \<and> same_outside (set (us @ c # vs)) h h'"
proof -
  have sg: "lseg h None (head q) (us @ c # vs) None" and d: "distinct (us @ c # vs)"
    using assms(1) by (auto simp: dll_rep_def)
  note at = lseg_at [OF sg]
  show ?thesis
  proof (cases us rule: rev_cases)
    case Nil
    with at have "head q = Some c" by simp
    show ?thesis
    proof (cases vs)
      case vs: Nil
      with assms(2) at Nil \<open>head q = Some c\<close> show ?thesis
        by (auto simp: dll_rep_def dll_remove_def unlinked_def same_outside_def Let_def link_simps)
    next
      case (Cons v ws)
      with assms(2) at d Nil \<open>head q = Some c\<close> show ?thesis
        by (auto simp: dll_rep_def dll_remove_def unlinked_def same_outside_def Let_def link_simps)
    qed
  next
    case (snoc ws u)
    with at d have "head q \<noteq> Some c" "head q \<noteq> None"
      by (cases ws; auto)+
    show ?thesis
    proof (cases vs)
      case Nil
      with assms(2) at d snoc \<open>head q \<noteq> Some c\<close> \<open>head q \<noteq> None\<close> show ?thesis
        by (auto simp: dll_rep_def dll_remove_def unlinked_def same_outside_def Let_def link_simps)
    next
      case (Cons v ws')
      with assms(2) at d snoc \<open>head q \<noteq> Some c\<close> \<open>head q \<noteq> None\<close> show ?thesis
        by (auto simp: dll_rep_def dll_remove_def unlinked_def same_outside_def Let_def link_simps)
    qed
  qed
qed

lemma set_prev_triv: "lprev h c = x \<Longrightarrow> set_prev c x h = h"
  by (simp add: set_prev_def fun_upd_idem)

lemma set_prev_next_commute:
  "set_prev c x (set_next d y h) = set_next d y (set_prev c x h)"
  by (simp add: set_prev_def set_next_def)

lemma dll_pop_off_eq:
  assumes "dll_rep h q xs"
  shows "dll_pop_off (h, q) = dll_pop (h, q)"
proof (cases xs)
  case Nil
  with assms show ?thesis by (simp add: dll_pop_off_def dll_pop_def dll_rep_def)
next
  case (Cons c vs)
  with assms have c: "head q = Some c" "lprev h c = None" "lnext h c = head_opt vs" "c \<notin> set vs"
    by (auto simp: dll_rep_def dest: lseg_start)
  have "lprev (set_prev_opt (lnext h c) None h) c = None"
    using c by (cases vs) (auto simp: link_simps)
  with c show ?thesis
    by (simp add: dll_pop_off_def dll_pop_def dll_remove_def Let_def link_simps set_prev_triv)
qed

lemma dll_pop_rep:
  assumes "dll_rep h q xs" "dll_pop (h, q) = (r, h', q')"
  shows "r = head_opt xs \<and> dll_rep h' q' (tl xs) \<and> (\<forall>c. r = Some c \<longrightarrow> unlinked h' c)"
proof (cases xs)
  case Nil
  with assms show ?thesis by (simp add: dll_pop_def dll_rep_def link_simps)
next
  case (Cons c vs)
  with assms(1) have "head q = Some c" by (simp add: dll_rep_def)
  with assms(2) have "r = Some c" "dll_remove c (h, q) = (h', q')" by (auto simp: dll_pop_def)
  with assms(1) Cons dll_remove_rep [of h q "[]" c vs h' q'] show ?thesis
    by (simp add: link_simps)
qed

lemma dll_insert_rep:
  assumes "dll_rep h q (us @ a # vs)" "c \<notin> set (us @ a # vs)"
    and "dll_insert c (Some a) (h, q) = (h', q')"
  shows "dll_rep h' q' (us @ a # c # vs)"
proof -
  have sg: "lseg h None (head q) (us @ a # vs) None" and d: "distinct (us @ a # vs)"
    using assms(1) by (auto simp: dll_rep_def)
  note at = lseg_at [OF sg]
  show ?thesis
  proof (cases vs)
    case Nil
    with assms at d show ?thesis
      by (auto simp: dll_rep_def dll_insert_def Let_def link_simps)
  next
    case (Cons v ws)
    with assms at d show ?thesis
      by (auto simp: dll_rep_def dll_insert_def Let_def link_simps)
  qed
qed

lemma dll_push_head:
  "dll_push c (h, q) = (h', q') \<Longrightarrow> head q' = Some c"
  by (auto simp: dll_push_def Let_def)

lemma dll_keeps_tail:
  fixes q :: "'a queue"
  shows "dll_push c (h, q) = (h', q') \<Longrightarrow> tail q' = tail q"
    and "dll_remove c (h, q) = (h', q') \<Longrightarrow> tail q' = tail q"
    and "dll_insert c aft (h, q) = (h', q') \<Longrightarrow> tail q' = tail q"
  by (auto simp: dll_push_def dll_remove_def dll_insert_def Let_def split: if_splits option.splits)

lemma dll_rep_tail_upd [simp]: "dll_rep h (q\<lparr>tail := t\<rparr>) xs \<longleftrightarrow> dll_rep h q xs"
  for q :: "'a queue"
  by (simp add: dll_rep_def)

lemma queue_push_rep:
  assumes "queue_rep h q xs" "c \<notin> set xs" "unlinked h c" "queue_push c (h, q) = (h', q')"
  shows "queue_rep h' q' (c # xs)"
proof -
  obtain h1 q1 where p: "dll_push c (h, q) = (h1, q1)" by fastforce
  have q: "dll_rep h q xs" "tail q = last_opt xs" using assms(1) by (simp_all add: queue_rep_def)
  have r: "dll_rep h1 q1 (c # xs)" using dll_push_rep [OF q(1) assms(2,3) p] by simp
  have t: "tail q1 = last_opt xs" using dll_keeps_tail(1) [OF p] q(2) by simp
  have hd: "head q1 = Some c" by (rule dll_push_head [OF p])
  have e: "h' = h1" "q' = (if tail q1 = None then q1\<lparr>tail := head q1\<rparr> else q1)"
    using assms(4) p by (auto simp: queue_push_def)
  show ?thesis
  proof (cases xs)
    case Nil
    with e r t hd show ?thesis by (simp add: queue_rep_def link_simps)
  next
    case (Cons y ys)
    with e r t hd show ?thesis by (simp add: queue_rep_def last_opt_def)
  qed
qed

lemma queue_insert_rep:
  assumes "queue_rep h q (us @ a # vs)" "c \<notin> set (us @ a # vs)"
    and "queue_insert c (Some a) (h, q) = (h', q')"
  shows "queue_rep h' q' (us @ a # c # vs)"
proof -
  obtain h1 q1 where p: "dll_insert c (Some a) (h, q) = (h1, q1)" by fastforce
  have q: "dll_rep h q (us @ a # vs)" "tail q = last_opt (a # vs)"
    using assms(1) by (simp_all add: queue_rep_def link_simps)
  have r: "dll_rep h1 q1 (us @ a # c # vs)" by (rule dll_insert_rep [OF q(1) assms(2) p])
  have t: "tail q1 = last_opt (a # vs)" using dll_keeps_tail(3) [OF p] q(2) by simp
  have e: "h' = h1" "q' = (if tail q1 = None then q1\<lparr>tail := head q1\<rparr>
      else if tail q1 = Some a then q1\<lparr>tail := Some c\<rparr> else q1)"
    using assms(3) p by (auto simp: queue_insert_def)
  have a: "a \<notin> set vs" using q(1) by (auto simp: dll_rep_def)
  show ?thesis
  proof (cases vs)
    case Nil
    with e r t show ?thesis by (simp add: queue_rep_def last_opt_def)
  next
    case (Cons y ys)
    then have "last vs \<in> set vs" by simp
    with a have "last vs \<noteq> a" by blast
    with Cons e r t show ?thesis by (simp add: queue_rep_def last_opt_def)
  qed
qed

lemma queue_remove_rep:
  assumes "queue_rep h q (us @ c # vs)" "queue_remove c (h, q) = (h', q')"
  shows "queue_rep h' q' (us @ vs) \<and> unlinked h' c"
proof -
  let ?q = "if tail q = Some c then q\<lparr>tail := lprev h c\<rparr> else q"
  have rep: "dll_rep h ?q (us @ c # vs)" and t: "tail q = last_opt (c # vs)"
    using assms(1) by (auto simp: queue_rep_def link_simps)
  have rm: "dll_remove c (h, ?q) = (h', q')"
    using assms(2) by (simp add: queue_remove_def)
  have lp: "lprev h c = last_opt us"
    using rep lseg_at(1) [of h None "head ?q" us c vs] by (auto simp: dll_rep_def last_opt_def)
  have c: "c \<notin> set vs" using rep by (auto simp: dll_rep_def)
  have "tail ?q = last_opt (us @ vs)"
  proof (cases vs)
    case Nil
    with t lp show ?thesis by (simp add: last_opt_def)
  next
    case (Cons y ys)
    then have "last vs \<in> set vs" by simp
    with c have "last vs \<noteq> c" by blast
    with Cons t show ?thesis by (simp add: last_opt_def)
  qed
  with dll_keeps_tail(2) [OF rm] dll_remove_rep [OF rep rm] show ?thesis
    by (simp add: queue_rep_def)
qed

lemma queue_pop_rep:
  assumes "queue_rep h q xs" "queue_pop (h, q) = (r, h', q')"
  shows "r = head_opt xs \<and> queue_rep h' q' (tl xs) \<and> (\<forall>c. r = Some c \<longrightarrow> unlinked h' c)"
proof -
  obtain h1 q1 where p: "dll_pop (h, q) = (r, h1, q1)"
    and e: "h' = h1" "q' = (if head q1 = None then q1\<lparr>tail := None\<rparr> else q1)"
    using assms(2) by (auto simp: queue_pop_def split: prod.splits)
  have q: "dll_rep h q xs" "tail q = last_opt xs" using assms(1) by (simp_all add: queue_rep_def)
  note d = dll_pop_rep [OF q(1) p]
  have t: "tail q1 = tail q"
  proof (cases "head q")
    case None
    with p show ?thesis by (simp add: dll_pop_def)
  next
    case (Some c)
    with p have "dll_remove c (h, q) = (h1, q1)" by (simp add: dll_pop_def)
    then show ?thesis by (rule dll_keeps_tail(2))
  qed
  have hd: "head q1 = head_opt (tl xs)" using d lseg_start by (auto simp: dll_rep_def)
  show ?thesis
  proof (cases "tl xs")
    case Nil
    with d e hd show ?thesis by (simp add: queue_rep_def link_simps)
  next
    case (Cons y ys)
    then have "last_opt xs = last_opt (tl xs)" by (cases xs) (simp_all add: last_opt_def)
    with Cons d e hd t q(2) show ?thesis by (simp add: queue_rep_def link_simps)
  qed
qed

lemma queue_pop_off_eq: "queue_rep h q xs \<Longrightarrow> queue_pop_off (h, q) = queue_pop (h, q)"
  using dll_pop_off_eq [of h q xs] by (simp add: queue_pop_off_def queue_pop_def queue_rep_def)

lemma queue_append_tail_rep:
  assumes "queue_rep h q xs" "lseg h None (head_opt ys) ys None" "distinct ys"
    and "set xs \<inter> set ys = {}"
    and "queue_append_tail (head_opt ys) (last_opt ys) (h, q) = (h', q')"
  shows "queue_rep h' q' (xs @ ys)"
proof (cases xs rule: rev_cases)
  case Nil
  with assms show ?thesis
    by (auto simp: queue_rep_def dll_rep_def queue_append_tail_def)
next
  case (snoc ws x)
  have q: "lseg h None (head q) (ws @ [x]) None" "distinct (ws @ [x])" "tail q = Some x"
    using assms(1) snoc by (auto simp: queue_rep_def dll_rep_def link_simps)
  then have hd: "head q \<noteq> None" by (cases ws) auto
  show ?thesis
  proof (cases ys)
    case Nil
    with assms hd show ?thesis by (simp add: queue_append_tail_def link_simps)
  next
    case (Cons y ys')
    let ?h = "set_prev y (Some x) (set_next x (Some y) h)"
    have e: "h' = ?h" "q' = q\<lparr>tail := last_opt ys\<rparr>"
      using assms(5) hd q(3) Cons by (auto simp: queue_append_tail_def link_simps)
    have "lseg ?h None (head q) (ws @ [x]) (Some y)"
      using lseg_relink [OF q(1,2), of "Some y"] assms(4) snoc Cons by (subst lseg_upd) auto
    moreover have "lseg ?h (Some x) (Some y) ys None"
    proof -
      have "lseg (set_next x (Some y) h) None (Some y) (y # ys') None"
        using assms(2,4) snoc Cons by (subst lseg_upd) (auto simp: link_simps)
      then show ?thesis unfolding Cons by (rule lseg_reprev) (use assms(3) Cons in simp)
    qed
    ultimately have "lseg h' None (head q') ((ws @ [x]) @ ys) None"
      unfolding e lseg_append by auto
    with assms(3,4) q(2) snoc Cons e show ?thesis
      by (auto simp: queue_rep_def dll_rep_def last_opt_def)
  qed
qed

lemma queue_enqueue_rep:
  assumes "queue_rep h q xs" "c \<notin> set xs" "unlinked h c" "queue_enqueue c (h, q) = (h', q')"
  shows "queue_rep h' q' (xs @ [c])"
proof (cases xs rule: rev_cases)
  case Nil
  have t: "tail q = None" and r: "dll_rep h q []"
    using assms(1) Nil by (auto simp: queue_rep_def link_simps)
  obtain h1 q1 where p: "dll_push c (h, q) = (h1, q1)" by fastforce
  from assms(4) t p have "h' = h1" "q' = q1\<lparr>tail := Some c\<rparr>" by (auto simp: queue_enqueue_def)
  moreover have "dll_rep h1 q1 [c]" using dll_push_rep [OF r _ assms(3) p] by simp
  ultimately show ?thesis using Nil by (simp add: queue_rep_def link_simps)
next
  case (snoc ws t)
  have t: "tail q = Some t" using assms(1) snoc by (auto simp: queue_rep_def link_simps)
  obtain h1 q1 where p: "queue_insert c (Some t) (h, q) = (h1, q1)" by fastforce
  from assms(4) t p have e: "h' = h1" "q' = q1\<lparr>tail := Some c\<rparr>" by (auto simp: queue_enqueue_def)
  have "queue_rep h1 q1 (ws @ t # c # [])"
    by (rule queue_insert_rep [OF _ _ p]) (use assms(1,2) snoc in auto)
  with e snoc show ?thesis by (simp add: queue_rep_def link_simps)
qed

lemma queue_enqueue_off_rep:
  assumes "queue_rep h q xs" "c \<notin> set xs" "unlinked h c" "queue_enqueue_off c (h, q) = (h', q')"
  shows "queue_rep h' q' (xs @ [c])"
proof (cases xs rule: rev_cases)
  case Nil
  then have "tail q = None" using assms(1) by (simp add: queue_rep_def link_simps)
  with assms Nil queue_push_rep [of h q xs c h' q'] show ?thesis by (simp add: queue_enqueue_off_def)
next
  case (snoc ws t)
  then have "tail q = Some t" using assms(1) by (simp add: queue_rep_def link_simps)
  with assms(4) have p: "queue_insert c (Some t) (h, q) = (h', q')"
    by (simp add: queue_enqueue_off_def)
  have "queue_rep h' q' (ws @ t # c # [])"
    by (rule queue_insert_rep [OF _ _ p]) (use assms(1,2) snoc in auto)
  with snoc show ?thesis by simp
qed

lemma queue_dequeue_rep:
  assumes "queue_rep h q xs" "queue_dequeue (h, q) = (r, h', q')"
  shows "r = head_opt xs \<and> queue_rep h' q' (tl xs) \<and> (\<forall>c. r = Some c \<longrightarrow> unlinked h' c)"
proof (cases xs)
  case Nil
  with assms show ?thesis
    by (auto simp: queue_rep_def dll_rep_def queue_dequeue_def link_simps)
next
  case (Cons c vs)
  then have "head q = Some c" using assms(1) by (simp add: queue_rep_def dll_rep_def)
  with assms(2) have "r = Some c" "queue_remove c (h, q) = (h', q')"
    by (auto simp: queue_dequeue_def)
  with queue_remove_rep [of h q "[]" c vs h' q'] assms(1) Cons show ?thesis
    by (simp add: link_simps)
qed

lemma queue_dequeue_off_rep:
  assumes "queue_rep h q xs" "queue_dequeue_off (h, q) = (r, h', q')"
  shows "r = head_opt xs \<and> queue_rep h' q' (tl xs) \<and> (\<forall>c. r = Some c \<longrightarrow> unlinked h' c)"
  using queue_pop_rep [OF assms(1)] queue_pop_off_eq [OF assms(1)] assms(2)
  by (simp add: queue_dequeue_off_def)

section \<open>The queue contract\<close>

text \<open>
  What the components that own a queue rely on: enqueueing appends, dequeueing takes the
  oldest object, and an object taken out may be enqueued again.
\<close>

locale fifo =
  fixes rep :: "'h \<Rightarrow> 'q \<Rightarrow> 'a list \<Rightarrow> bool"
    and fresh :: "'h \<Rightarrow> 'a \<Rightarrow> bool"
    and enq :: "'a \<Rightarrow> 'h \<times> 'q \<Rightarrow> 'h \<times> 'q"
    and deq :: "'h \<times> 'q \<Rightarrow> 'a option \<times> 'h \<times> 'q"
  assumes enq_rep: "rep h q xs \<Longrightarrow> c \<notin> set xs \<Longrightarrow> fresh h c \<Longrightarrow> enq c (h, q) = (h', q') \<Longrightarrow>
      rep h' q' (xs @ [c])"
    and deq_rep: "rep h q xs \<Longrightarrow> deq (h, q) = (r, h', q') \<Longrightarrow>
      r = head_opt xs \<and> rep h' q' (tl xs) \<and> (\<forall>c. r = Some c \<longrightarrow> fresh h' c)"
    and rep_distinct: "rep h q xs \<Longrightarrow> distinct xs"
begin

text \<open>The draining loop sees every object once, in the order they were enqueued.\<close>

lemma drain_all:
  "rep h q xs \<Longrightarrow> length xs \<le> n \<Longrightarrow> drain deq n (h, q) = (es, h', q') \<Longrightarrow>
   es = xs \<and> rep h' q' []"
proof (induction n arbitrary: h q xs es h' q')
  case 0
  then show ?case by auto
next
  case (Suc n)
  obtain r h1 q1 where d: "deq (h, q) = (r, h1, q1)" by (cases "deq (h, q)") auto
  note dr = deq_rep [OF Suc.prems(1) d]
  show ?case
  proof (cases xs)
    case Nil
    with dr Suc.prems(3) d show ?thesis by (auto simp: link_simps)
  next
    case (Cons x ys)
    obtain fs h2 q2 where rec: "drain deq n (h1, q1) = (fs, h2, q2)"
      by (cases "drain deq n (h1, q1)") auto
    have "fs = ys \<and> rep h2 q2 []"
      by (rule Suc.IH [OF _ _ rec]) (use dr Suc.prems(2) Cons in auto)
    with dr Suc.prems(3) d rec Cons show ?thesis by (auto simp: link_simps)
  qed
qed

text \<open>Taking the oldest object and putting it back rotates the queue.\<close>

lemma requeue_rotates:
  assumes "rep h q (x # xs)" "deq (h, q) = (Some c, h1, q1)" "enq c (h1, q1) = (h2, q2)"
  shows "rep h2 q2 (xs @ [x])"
proof -
  have d: "c = x" "rep h1 q1 xs" "fresh h1 c"
    using deq_rep [OF assms(1,2)] by (auto simp: link_simps)
  moreover have "x \<notin> set xs" using rep_distinct [OF assms(1)] by simp
  ultimately show ?thesis using enq_rep [OF d(2) _ d(3) assms(3)] by simp
qed

end

text \<open>A queue whose objects can be unlinked from the middle: a least-recently-used list.\<close>

locale lru_queue = fifo +
  fixes unlnk :: "'c \<Rightarrow> 'a \<times> 'b \<Rightarrow> 'a \<times> 'b"
  assumes unlnk_rep: "rep h q (us @ c # vs) \<Longrightarrow> unlnk c (h, q) = (h', q') \<Longrightarrow>
      rep h' q' (us @ vs) \<and> fresh h' c"
begin

lemma touch_moves_to_back:
  assumes "rep h q (us @ c # vs)" "unlnk c (h, q) = (h1, q1)" "enq c (h1, q1) = (h2, q2)"
  shows "rep h2 q2 (us @ vs @ [c])"
proof -
  have u: "rep h1 q1 (us @ vs)" "fresh h1 c" using unlnk_rep [OF assms(1,2)] by simp_all
  have "c \<notin> set (us @ vs)" using rep_distinct [OF assms(1)] by simp
  with enq_rep [OF u(1) _ u(2) assms(3)] show ?thesis by simp
qed

end

lemma queue_rep_distinct: "queue_rep h q xs \<Longrightarrow> distinct xs"
  by (simp add: queue_rep_def dll_rep_def)

interpretation que: lru_queue queue_rep unlinked queue_enqueue queue_dequeue queue_remove
proof (unfold_locales, goal_cases)
  case 1
  then show ?case by (rule queue_enqueue_rep)
next
  case 2
  then show ?case by (rule queue_dequeue_rep)
next
  case 3
  then show ?case by (rule queue_rep_distinct)
next
  case 4
  then show ?case by (rule queue_remove_rep)
qed

interpretation que_off: lru_queue queue_rep unlinked queue_enqueue_off queue_dequeue_off queue_remove
proof (unfold_locales, goal_cases)
  case 1
  then show ?case by (rule queue_enqueue_off_rep)
next
  case 2
  then show ?case by (rule queue_dequeue_off_rep)
next
  case 3
  then show ?case by (rule queue_rep_distinct)
next
  case 4
  then show ?case by (rule queue_remove_rep)
qed

section \<open>Properties\<close>

text \<open>C29: Appending a \<^verbatim>\<open>DLL\<close> to a \<^verbatim>\<open>Queue\<close> (\<^verbatim>\<open>Queue::append\<close>): the walk to the end
  of the appended list returns, and the queue then represents the concatenation of the two
  lists, with its tail pointer on the last object.\<close>

theorem queue_append_dll_concat:
  assumes "queue_rep h q xs" "dll_rep h r ys" "set xs \<inter> set ys = {}"
  shows "\<exists>h' q'. queue_append_dll r (h, q) = Some (h', q') \<and> queue_rep h' q' (xs @ ys)"
proof -
  have ys: "lseg h None (head_opt ys) ys None" "distinct ys" "head r = head_opt ys"
    using assms(2) lseg_start by (fastforce simp: dll_rep_def)+
  obtain h' q' where a: "queue_append_tail (head_opt ys) (last_opt ys) (h, q) = (h', q')"
    by fastforce
  have "queue_append_dll r (h, q) = Some (h', q')"
  proof (cases ys)
    case Nil
    with a ys(3) show ?thesis by (simp add: queue_append_dll_def link_simps)
  next
    case (Cons y ys')
    then have "last_link h y = last_opt ys" using ys(1) lseg_last_link by (metis head_opt_simps(2))
    moreover have "last_opt ys = Some (last ys)" using Cons by (simp add: last_opt_def)
    ultimately show ?thesis using a ys(3) Cons by (simp add: queue_append_dll_def link_simps)
  qed
  with queue_append_tail_rep [OF assms(1) ys(1,2) assms(3) a] show ?thesis by blast
qed

text \<open>The loop \<^verbatim>\<open>while ((e = q.dequeue()))\<close> over a queue returns every object exactly
  once, oldest first, and leaves the queue empty.\<close>

theorem queue_drain_fifo:
  assumes "queue_rep h q xs" "drain queue_dequeue_off (length xs) (h, q) = (es, h', q')"
  shows "es = xs \<and> queue_rep h' q' []"
  by (rule que_off.drain_all [OF assms(1) order_refl assms(2)])

text \<open>\<^verbatim>\<open>remove\<close> followed by \<^verbatim>\<open>enqueue\<close> of an object anywhere on a queue moves it to the
  back and keeps the order of all the others: the update of a least-recently-used list.\<close>

theorem queue_touch_lru:
  assumes "queue_rep h q (us @ c # vs)"
    and "queue_remove c (h, q) = (h1, q1)" and "queue_enqueue c (h1, q1) = (h2, q2)"
  shows "queue_rep h2 q2 (us @ vs @ [c])"
  by (rule que.touch_moves_to_back [OF assms])

section \<open>Witnesses\<close>

lemma demo_reps: "queue_rep demo_links demo_queue [1, 2, 3]" "dll_rep demo_links demo_dll [5, 6]"
  by (simp_all add: queue_rep_def dll_rep_def demo_links_def demo_queue_def demo_dll_def last_opt_def)

theorem queue_append_dll_concat_witness:
  "\<exists>h' q'. queue_append_dll demo_dll (demo_links, demo_queue) = Some (h', q')
     \<and> queue_rep h' q' ([1, 2, 3] @ [5, 6])"
  by (rule queue_append_dll_concat [OF demo_reps]) simp

theorem queue_drain_fifo_witness:
  "fst (drain queue_dequeue_off (length [1, 2, 3 :: nat]) (demo_links, demo_queue)) = [1, 2, 3]"
  using queue_drain_fifo [OF demo_reps(1)] by (metis prod.collapse)

theorem queue_touch_lru_witness:
  "let s = queue_enqueue 2 (queue_remove 2 (demo_links, demo_queue))
   in queue_rep (fst s) (snd s) ([1] @ [3] @ [2])"
proof -
  obtain h1 q1 where r: "queue_remove 2 (demo_links, demo_queue) = (h1, q1)" by fastforce
  obtain h2 q2 where e: "queue_enqueue 2 (h1, q1) = (h2, q2)" by fastforce
  have "queue_rep demo_links demo_queue ([1] @ 2 # [3])" using demo_reps(1) by simp
  from queue_touch_lru [OF this r e] r e show ?thesis by simp
qed

end
