(* ===== verification/Dir_Entry.thy ===== *)
theory Dir_Entry
  imports Prelude
begin

unbundle bit_operations_syntax

text \<open>
  The packed directory entry of \<^verbatim>\<open>iocore/cache/P_CacheDir.h\<close>: five 16-bit words that hold
  a 40-bit block offset, a size in one of four units, a 12-bit tag, four flags and the link
  to the next entry of the bucket; a free entry keeps its back link in the word of the tag.
  Every accessor macro is a definition on these words, with the shifts and masks of the
  macro.
\<close>

section \<open>Definitions\<close>

record dir =
  dw0 :: u16
  dw1 :: u16
  dw2 :: u16
  dw3 :: u16
  dw4 :: u16

definition DIR_DEPTH :: nat where "DIR_DEPTH = 4"
definition DIR_TAG_WIDTH :: nat where "DIR_TAG_WIDTH = 12"
definition INK_BLOCK_SIZE :: int where "INK_BLOCK_SIZE = 512"

definition DIR_MASK_TAG :: "u32 \<Rightarrow> u32" where
  "DIR_MASK_TAG t = t AND (push_bit DIR_TAG_WIDTH 1 - 1)"

definition DIR_BLOCK_SIZE :: "nat \<Rightarrow> int" where
  "DIR_BLOCK_SIZE i = push_bit (3 * i) INK_BLOCK_SIZE"

definition DIR_SIZE_WITH_BLOCK :: "nat \<Rightarrow> int" where
  "DIR_SIZE_WITH_BLOCK i = push_bit 6 1 * DIR_BLOCK_SIZE i"

definition dir_clear :: dir where
  "dir_clear = \<lparr>dw0 = 0, dw1 = 0, dw2 = 0, dw3 = 0, dw4 = 0\<rparr>"

text \<open>\<^verbatim>\<open>dir_bit(_e, _w, _b)\<close> and \<^verbatim>\<open>dir_set_bit\<close>, on the word they select.\<close>

definition word_bit :: "u16 \<Rightarrow> nat \<Rightarrow> u16" where
  "word_bit w b = drop_bit b w AND 1"

definition word_set_bit :: "u16 \<Rightarrow> nat \<Rightarrow> bool \<Rightarrow> u16" where
  "word_set_bit w b v = (w AND NOT (push_bit b 1)) OR push_bit b (if v then 1 else 0)"

definition dir_offset :: "dir \<Rightarrow> u64" where
  "dir_offset e = ucast (dw0 e) OR push_bit 16 (ucast (dw1 e AND 0xFF)) OR push_bit 24 (ucast (dw4 e))"

definition dir_set_offset :: "u64 \<Rightarrow> dir \<Rightarrow> dir" where
  "dir_set_offset x e = e\<lparr>dw0 := ucast x,
     dw1 := ucast ((drop_bit 16 x AND 0xFF) OR ucast (dw1 e AND 0xFF00)),
     dw4 := ucast (drop_bit 24 x)\<rparr>"

definition dir_big :: "dir \<Rightarrow> u32" where
  "dir_big e = ucast (drop_bit 8 (dw1 e) AND 0x3)"

definition dir_set_big :: "u16 \<Rightarrow> dir \<Rightarrow> dir" where
  "dir_set_big v e = e\<lparr>dw1 := (dw1 e AND 0xFCFF) OR push_bit 8 (v AND 0x3)\<rparr>"

definition dir_size :: "dir \<Rightarrow> u32" where
  "dir_size e = ucast (drop_bit 10 (dw1 e))"

definition dir_set_size :: "u16 \<Rightarrow> dir \<Rightarrow> dir" where
  "dir_set_size v e = e\<lparr>dw1 := (dw1 e AND (push_bit 10 1 - 1)) OR push_bit 10 v\<rparr>"

definition dir_set_approx_size :: "int \<Rightarrow> dir \<Rightarrow> dir" where
  "dir_set_approx_size s e =
     (let set = (\<lambda>b. dir_set_size (word_of_int ((s - 1) sdiv DIR_BLOCK_SIZE b)) (dir_set_big (of_nat b) e))
      in if s \<le> DIR_SIZE_WITH_BLOCK 0 then set 0
         else if s \<le> DIR_SIZE_WITH_BLOCK 1 then set 1
         else if s \<le> DIR_SIZE_WITH_BLOCK 2 then set 2
         else set 3)"

definition dir_approx_size :: "dir \<Rightarrow> int" where
  "dir_approx_size e = (uint (dir_size e) + 1) * DIR_BLOCK_SIZE (unat (dir_big e))"

definition ROUND_TO :: "int \<Rightarrow> int \<Rightarrow> int" where
  "ROUND_TO x y = (x + (y - 1)) AND NOT (y - 1)"

definition round_to_approx_size :: "int \<Rightarrow> int" where
  "round_to_approx_size s =
     (if s \<le> DIR_SIZE_WITH_BLOCK 0 then ROUND_TO s (DIR_BLOCK_SIZE 0)
      else if s \<le> DIR_SIZE_WITH_BLOCK 1 then ROUND_TO s (DIR_BLOCK_SIZE 1)
      else if s \<le> DIR_SIZE_WITH_BLOCK 2 then ROUND_TO s (DIR_BLOCK_SIZE 2)
      else ROUND_TO s (DIR_BLOCK_SIZE 3))"

definition dir_tag :: "dir \<Rightarrow> u32" where
  "dir_tag e = ucast (dw2 e AND (push_bit DIR_TAG_WIDTH 1 - 1))"

definition dir_set_tag :: "u32 \<Rightarrow> dir \<Rightarrow> dir" where
  "dir_set_tag t e = e\<lparr>dw2 := ucast (ucast (dw2 e AND NOT (push_bit DIR_TAG_WIDTH 1 - 1)) OR DIR_MASK_TAG t)\<rparr>"

definition dir_phase :: "dir \<Rightarrow> u16" where "dir_phase e = word_bit (dw2 e) 12"
definition dir_head :: "dir \<Rightarrow> u16" where "dir_head e = word_bit (dw2 e) 13"
definition dir_pinned :: "dir \<Rightarrow> u16" where "dir_pinned e = word_bit (dw2 e) 14"
definition dir_token :: "dir \<Rightarrow> u16" where "dir_token e = word_bit (dw2 e) 15"

definition dir_set_phase :: "bool \<Rightarrow> dir \<Rightarrow> dir" where
  "dir_set_phase v e = e\<lparr>dw2 := word_set_bit (dw2 e) 12 v\<rparr>"
definition dir_set_head :: "bool \<Rightarrow> dir \<Rightarrow> dir" where
  "dir_set_head v e = e\<lparr>dw2 := word_set_bit (dw2 e) 13 v\<rparr>"
definition dir_set_pinned :: "bool \<Rightarrow> dir \<Rightarrow> dir" where
  "dir_set_pinned v e = e\<lparr>dw2 := word_set_bit (dw2 e) 14 v\<rparr>"
definition dir_set_token :: "bool \<Rightarrow> dir \<Rightarrow> dir" where
  "dir_set_token v e = e\<lparr>dw2 := word_set_bit (dw2 e) 15 v\<rparr>"

definition dir_next :: "dir \<Rightarrow> u16" where "dir_next e = dw3 e"
definition dir_set_next :: "nat \<Rightarrow> dir \<Rightarrow> dir" where "dir_set_next i e = e\<lparr>dw3 := word_of_nat i\<rparr>"
definition dir_prev :: "dir \<Rightarrow> u16" where "dir_prev e = dw2 e"
definition dir_set_prev :: "nat \<Rightarrow> dir \<Rightarrow> dir" where "dir_set_prev i e = e\<lparr>dw2 := word_of_nat i\<rparr>"

definition dir_is_empty :: "dir \<Rightarrow> bool" where "dir_is_empty e \<longleftrightarrow> dir_offset e = 0"

text \<open>\<^verbatim>\<open>dir_assign\<close> copies the five words, so it is the value itself; \<^verbatim>\<open>dir_assign_data(_e, _x)\<close>
  copies all of \<open>x\<close> but the link, which stays the one of \<open>e\<close>.\<close>

definition dir_assign_data :: "dir \<Rightarrow> dir \<Rightarrow> dir" where
  "dir_assign_data x e = (let nxt = dir_next e in x\<lparr>dw3 := nxt\<rparr>)"

section \<open>Bits of the five words\<close>

lemma bit_u16_bound: "bit w n \<Longrightarrow> n < 16" for w :: u16
  using bit_imp_le_length by fastforce

text \<open>The masks of the macros, as bit predicates.\<close>

lemma bit_masks [simp]:
  "bit (0xFF :: int) k \<longleftrightarrow> k < 8" "bit (0xFF00 :: int) k \<longleftrightarrow> 8 \<le> k \<and> k < 16"
  "bit (0x3 :: int) k \<longleftrightarrow> k < 2" "bit (0xFCFF :: int) k \<longleftrightarrow> k < 16 \<and> k \<noteq> 8 \<and> k \<noteq> 9"
  "bit (0x3FF :: int) k \<longleftrightarrow> k < 10" "bit (0xFFF :: int) k \<longleftrightarrow> k < 12"
  "bit (0x300 :: int) k \<longleftrightarrow> k = 8 \<or> k = 9"
proof -
  have e: "(0xFF :: int) = mask 8" "(0xFF00 :: int) = push_bit 8 (mask 8)" "(0x3 :: int) = mask 2"
    "(0xFCFF :: int) = mask 16 AND NOT (push_bit 8 (mask 2))" "(0x3FF :: int) = mask 10"
    "(0xFFF :: int) = mask 12" "(0x300 :: int) = push_bit 8 (mask 2)"
    by (simp_all add: mask_eq_exp_minus_1)
  show "bit (0xFF :: int) k \<longleftrightarrow> k < 8" "bit (0x3 :: int) k \<longleftrightarrow> k < 2"
    "bit (0x3FF :: int) k \<longleftrightarrow> k < 10" "bit (0xFFF :: int) k \<longleftrightarrow> k < 12"
    unfolding e by (simp_all add: bit_simps)
  show "bit (0xFF00 :: int) k \<longleftrightarrow> 8 \<le> k \<and> k < 16"
    unfolding e by (auto simp: bit_simps)
  show "bit (0xFCFF :: int) k \<longleftrightarrow> k < 16 \<and> k \<noteq> 8 \<and> k \<noteq> 9"
    unfolding e by (auto simp: bit_simps)
  show "bit (0x300 :: int) k \<longleftrightarrow> k = 8 \<or> k = 9"
    unfolding e by (auto simp: bit_simps)
qed

lemma bit_dir_offset:
  "bit (dir_offset e) n \<longleftrightarrow>
     (if n < 16 then bit (dw0 e) n
      else if n < 24 then bit (dw1 e) (n - 16)
      else n < 40 \<and> bit (dw4 e) (n - 24))"
  by (auto simp: dir_offset_def bit_simps dest: bit_u16_bound)

lemma dir_set_offset_words:
  "bit (dw0 (dir_set_offset x e)) n \<longleftrightarrow> n < 16 \<and> bit x n"
  "bit (dw1 (dir_set_offset x e)) n \<longleftrightarrow> (if n < 8 then bit x (n + 16) else bit (dw1 e) n)"
  "bit (dw4 (dir_set_offset x e)) n \<longleftrightarrow> n < 16 \<and> bit x (n + 24)"
  by (auto simp: dir_set_offset_def bit_simps add.commute dest: bit_u16_bound)

lemma dir_offset_set_offset: "dir_offset (dir_set_offset x e) = take_bit 40 x"
  by (rule bit_word_eqI) (auto simp: bit_dir_offset dir_set_offset_words bit_simps)

lemma bit_dir_tag: "bit (dir_tag e) n \<longleftrightarrow> n < 12 \<and> bit (dw2 e) n"
  by (auto simp: dir_tag_def DIR_TAG_WIDTH_def bit_simps dest: bit_u16_bound)

lemma bit_dir_set_tag:
  "bit (dw2 (dir_set_tag t e)) n \<longleftrightarrow> (if n < 12 then bit t n else bit (dw2 e) n)"
  by (auto simp: dir_set_tag_def DIR_TAG_WIDTH_def DIR_MASK_TAG_def bit_simps dest: bit_u16_bound)

lemma dir_tag_set_tag: "dir_tag (dir_set_tag t e) = DIR_MASK_TAG t"
  by (rule bit_word_eqI)
    (auto simp: bit_dir_tag bit_dir_set_tag DIR_MASK_TAG_def DIR_TAG_WIDTH_def bit_simps)

lemma bit_dir_big: "bit (dir_big e) n \<longleftrightarrow> n < 2 \<and> bit (dw1 e) (n + 8)"
  by (auto simp: dir_big_def bit_simps add.commute)

lemma bit_dir_size: "bit (dir_size e) n \<longleftrightarrow> n < 6 \<and> bit (dw1 e) (n + 10)"
  by (auto simp: dir_size_def bit_simps add.commute dest: bit_u16_bound)

lemma bit_dir_set_big:
  "bit (dw1 (dir_set_big v e)) n \<longleftrightarrow> (if n = 8 \<or> n = 9 then bit v (n - 8) else bit (dw1 e) n)"
  by (auto simp: dir_set_big_def bit_simps dest: bit_u16_bound)

lemma bit_dir_set_size:
  "bit (dw1 (dir_set_size v e)) n \<longleftrightarrow> (if n < 10 then bit (dw1 e) n else n < 16 \<and> bit v (n - 10))"
  by (auto simp: dir_set_size_def bit_simps dest: bit_u16_bound)

lemma dir_big_set: "dir_big (dir_set_size w (dir_set_big v e)) = ucast (take_bit 2 v)"
  by (rule bit_word_eqI) (auto simp: bit_dir_big bit_dir_set_big bit_dir_set_size bit_simps)

lemma dir_size_set: "dir_size (dir_set_size w e) = ucast (take_bit 6 w)"
  by (rule bit_word_eqI) (auto simp: bit_dir_size bit_dir_set_size bit_simps)

lemma word_bit_set_bit:
  "b < 16 \<Longrightarrow> c < 16 \<Longrightarrow> word_bit (word_set_bit w b v) c = (if c = b then (if v then 1 else 0) else word_bit w c)"
  by (rule bit_word_eqI) (auto simp: word_bit_def word_set_bit_def bit_simps)

lemma word_bit_cong: "(bit w b \<longleftrightarrow> bit w' b) \<Longrightarrow> word_bit w b = word_bit w' b"
  by (rule bit_word_eqI) (auto simp: word_bit_def bit_simps)

lemmas dir_flag_defs = dir_phase_def dir_head_def dir_pinned_def dir_token_def

section \<open>Which field a store leaves alone\<close>

lemma dir_set_next_sel [dir_simps]:
  "dir_next (dir_set_next i e) = word_of_nat i" "dir_prev (dir_set_next i e) = dir_prev e"
  "dir_offset (dir_set_next i e) = dir_offset e" "dir_tag (dir_set_next i e) = dir_tag e"
  "dir_phase (dir_set_next i e) = dir_phase e" "dir_head (dir_set_next i e) = dir_head e"
  "dir_pinned (dir_set_next i e) = dir_pinned e" "dir_token (dir_set_next i e) = dir_token e"
  by (simp_all add: dir_set_next_def dir_next_def dir_prev_def dir_offset_def dir_tag_def dir_flag_defs)

lemma dir_set_prev_sel [dir_simps]:
  "dir_prev (dir_set_prev i e) = word_of_nat i" "dir_next (dir_set_prev i e) = dir_next e"
  "dir_offset (dir_set_prev i e) = dir_offset e"
  by (simp_all add: dir_set_prev_def dir_next_def dir_prev_def dir_offset_def)

lemma dir_set_tag_sel [dir_simps]:
  "dir_next (dir_set_tag t e) = dir_next e" "dir_offset (dir_set_tag t e) = dir_offset e"
  "dir_tag (dir_set_tag t e) = DIR_MASK_TAG t"
  "dir_phase (dir_set_tag t e) = dir_phase e" "dir_head (dir_set_tag t e) = dir_head e"
proof -
  show "dir_tag (dir_set_tag t e) = DIR_MASK_TAG t" by (rule dir_tag_set_tag)
  show "dir_next (dir_set_tag t e) = dir_next e" "dir_offset (dir_set_tag t e) = dir_offset e"
    by (simp_all add: dir_set_tag_def dir_next_def dir_offset_def)
  show "dir_phase (dir_set_tag t e) = dir_phase e" "dir_head (dir_set_tag t e) = dir_head e"
    unfolding dir_flag_defs by (rule word_bit_cong; simp add: bit_dir_set_tag)+
qed

lemma dir_set_offset_sel [dir_simps]:
  "dir_next (dir_set_offset x e) = dir_next e" "dir_prev (dir_set_offset x e) = dir_prev e"
  "dir_tag (dir_set_offset x e) = dir_tag e" "dir_phase (dir_set_offset x e) = dir_phase e"
  "dir_head (dir_set_offset x e) = dir_head e" "dir_offset (dir_set_offset 0 e) = 0"
  using dir_offset_set_offset [of 0 e]
  by (simp_all add: dir_set_offset_def dir_next_def dir_prev_def dir_tag_def dir_flag_defs)

lemma dir_clear_sel [dir_simps]:
  "dir_next dir_clear = 0" "dir_prev dir_clear = 0" "dir_offset dir_clear = 0" "dir_head dir_clear = 0"
  by (simp_all add: dir_clear_def dir_next_def dir_prev_def dir_offset_def dir_head_def word_bit_def)

lemma dir_assign_data_sel [dir_simps]:
  "dir_next (dir_assign_data x e) = dir_next e" "dir_offset (dir_assign_data x e) = dir_offset x"
  "dir_tag (dir_assign_data x e) = dir_tag x" "dir_phase (dir_assign_data x e) = dir_phase x"
  "dir_head (dir_assign_data x e) = dir_head x" "dir_prev (dir_assign_data x e) = dir_prev x"
  by (simp_all add: dir_assign_data_def Let_def dir_next_def dir_prev_def dir_offset_def dir_tag_def
      dir_flag_defs)

section \<open>Sizes\<close>

lemma DIR_BLOCK_SIZE_eq: "DIR_BLOCK_SIZE i = 2 ^ (9 + 3 * i)"
  by (simp add: DIR_BLOCK_SIZE_def INK_BLOCK_SIZE_def push_bit_eq_mult power_add)

lemma ROUND_TO_power: "ROUND_TO x (2 ^ k) = (x + 2 ^ k - 1) div 2 ^ k * 2 ^ k"
proof -
  have "y AND NOT (mask k) = push_bit k (drop_bit k y)" for y :: int
    by (rule bit_eqI) (auto simp: bit_simps)
  then have "y AND NOT (mask k) = y div 2 ^ k * 2 ^ k" for y :: int
    by (simp add: push_bit_eq_mult drop_bit_eq_div)
  then show ?thesis by (simp add: ROUND_TO_def mask_eq_exp_minus_1 algebra_simps)
qed

lemma ROUND_TO_block:
  assumes "1 \<le> x"
  shows "ROUND_TO x (2 ^ k) = ((x - 1) div 2 ^ k + 1) * 2 ^ k"
proof -
  have "(x + 2 ^ k - 1) div 2 ^ k = ((x - 1) + 2 ^ k) div 2 ^ k" by (simp add: algebra_simps)
  also have "\<dots> = (x - 1) div 2 ^ k + 1" by (rule div_add_self2) simp
  finally show ?thesis by (simp add: ROUND_TO_power)
qed

text \<open>One unit: the stored count of blocks, less one, is read back as the rounded size.\<close>

lemma approx_size_unit:
  assumes "b < 4" "1 \<le> s" "s \<le> DIR_SIZE_WITH_BLOCK b"
  shows "dir_approx_size (dir_set_size (word_of_int ((s - 1) sdiv DIR_BLOCK_SIZE b)) (dir_set_big (of_nat b) e))
      = ROUND_TO s (DIR_BLOCK_SIZE b)"
proof -
  let ?k = "9 + 3 * b"
  let ?q = "(s - 1) div 2 ^ ?k"
  have "(s - 1) sdiv DIR_BLOCK_SIZE b = ?q"
    using assms(2) by (simp add: DIR_BLOCK_SIZE_eq signed_divide_int_def sgn_if)
  moreover have q: "0 \<le> ?q" "?q < 64"
    using assms(2,3) int_div_less [of "2 ^ ?k" "s - 1" 64]
    by (simp_all add: DIR_SIZE_WITH_BLOCK_def DIR_BLOCK_SIZE_eq pos_imp_zdiv_nonneg_iff)
  moreover have "uint (ucast (take_bit 6 (word_of_int ?q :: u16)) :: u32) = ?q"
    using q by (simp add: unsigned_ucast_eq unsigned_take_bit_eq unsigned_of_int take_bit_int_eq_self)
  moreover have "unat (ucast (take_bit 2 (of_nat b :: u16)) :: u32) = b"
    using assms(1) by (simp add: unsigned_ucast_eq unsigned_take_bit_eq unsigned_of_nat take_bit_nat_eq_self)
  ultimately show ?thesis
    using assms(2) by (simp add: dir_approx_size_def dir_big_set dir_size_set DIR_BLOCK_SIZE_eq ROUND_TO_block)
qed

section \<open>Properties\<close>



text \<open>\<^verbatim>\<open>dir_set_approx_size\<close> stores a size of up to 16 MB in one of four units, and
  \<^verbatim>\<open>dir_approx_size\<close> reads back exactly \<^verbatim>\<open>round_to_approx_size\<close> of it, which is never
  less than the size and more by less than one unit.\<close>

theorem dir_approx_size_roundtrip:
  assumes "1 \<le> s" "s \<le> DIR_SIZE_WITH_BLOCK 3"
  shows "dir_approx_size (dir_set_approx_size s e) = round_to_approx_size s
    \<and> s \<le> round_to_approx_size s \<and> round_to_approx_size s < s + DIR_BLOCK_SIZE 3"
proof -
  have block: "s \<le> ROUND_TO s (DIR_BLOCK_SIZE b) \<and> ROUND_TO s (DIR_BLOCK_SIZE b) < s + DIR_BLOCK_SIZE 3"
    if "b < 4" for b
  proof -
    let ?B = "(2 :: int) ^ (9 + 3 * b)"
    have "ROUND_TO s ?B = (s - 1) - (s - 1) mod ?B + ?B"
      using ROUND_TO_block [OF assms(1), of "9 + 3 * b"]
      by (simp add: algebra_simps minus_mod_eq_mult_div)
    moreover have "0 \<le> (s - 1) mod ?B" "(s - 1) mod ?B < ?B" by simp_all
    moreover have "?B \<le> 2 ^ (9 + 3 * 3)" using that by (intro power_increasing) auto
    ultimately show ?thesis unfolding DIR_BLOCK_SIZE_eq by linarith
  qed
  have u: "s \<le> DIR_SIZE_WITH_BLOCK b \<Longrightarrow>
      dir_approx_size (dir_set_size (word_of_int ((s - 1) sdiv DIR_BLOCK_SIZE b)) (dir_set_big (of_nat b) e))
      = ROUND_TO s (DIR_BLOCK_SIZE b)" if "b < 4" for b
    using approx_size_unit [OF that assms(1)] by blast
  have "dir_approx_size (dir_set_approx_size s e) = round_to_approx_size s"
    unfolding dir_set_approx_size_def round_to_approx_size_def Let_def
    using u [of 0] u [of 1] u [of 2] u [of 3] assms(2) by presburger
  moreover have "s \<le> round_to_approx_size s \<and> round_to_approx_size s < s + DIR_BLOCK_SIZE 3"
    using block [of 0] block [of 1] block [of 2] block [of 3]
    by (simp add: round_to_approx_size_def)
  ultimately show ?thesis by blast
qed

theorem dir_approx_size_roundtrip_witness:
  "dir_approx_size (dir_set_approx_size 40000 dir_clear) = round_to_approx_size 40000"
proof -
  have "(1 :: int) \<le> 40000" "(40000 :: int) \<le> DIR_SIZE_WITH_BLOCK 3"
    by (simp_all add: DIR_SIZE_WITH_BLOCK_def DIR_BLOCK_SIZE_def INK_BLOCK_SIZE_def push_bit_eq_mult)
  from dir_approx_size_roundtrip [OF this] show ?thesis by blast
qed

end
