(* ===== verification/Cache_Key.thy ===== *)
theory Cache_Key
  imports Prelude
begin

text \<open>
  Cache keys. A \<^verbatim>\<open>CacheKey\<close> is the 16-byte \<^verbatim>\<open>INK_MD5\<close> of
  \<^verbatim>\<open>libinktomi++/INK_MD5.h\<close>. The fragments of one document are stored under the keys
  that \<^verbatim>\<open>next_CacheKey\<close> and \<^verbatim>\<open>prev_CacheKey\<close> of
  \<^verbatim>\<open>iocore/cache/P_CacheInternal.h\<close> step through, with the permutation tables of
  \<^verbatim>\<open>iocore/cache/CacheDir.cc\<close>.

  Both functions are called with the same key as source and destination, so they are
  modelled on a byte store with addresses: \<open>m a\<close> is the byte at address \<open>a\<close>, and the
  loops read and write the store in the source's order.
\<close>

type_synonym store = "nat \<Rightarrow> u8"

section \<open>Definitions\<close>

definition CacheKey_next_table :: "u8 list" where
  "CacheKey_next_table =
    [21, 53, 167, 51, 255, 126, 241, 151, 115, 66, 155, 174, 226, 215, 80, 188,
     12, 95, 8, 24, 162, 201, 46, 104, 79, 172, 39, 68, 56, 144, 142, 217,
     101, 62, 14, 108, 120, 90, 61, 47, 132, 199, 110, 166, 83, 125, 57, 65,
     19, 130, 148, 116, 228, 189, 170, 1, 71, 0, 252, 184, 168, 177, 88, 229,
     242, 237, 183, 55, 13, 212, 240, 81, 211, 74, 195, 205, 147, 93, 30, 87,
     86, 63, 135, 102, 233, 106, 118, 163, 107, 10, 243, 136, 160, 119, 43, 161,
     206, 141, 203, 78, 175, 36, 37, 140, 224, 197, 185, 196, 248, 84, 122, 73,
     152, 157, 18, 225, 219, 145, 45, 2, 171, 249, 173, 32, 143, 137, 69, 41,
     35, 89, 33, 98, 179, 214, 114, 231, 251, 123, 180, 194, 29, 3, 178, 31,
     192, 164, 15, 234, 26, 230, 91, 156, 5, 16, 23, 244, 58, 50, 4, 67,
     134, 165, 60, 235, 250, 7, 138, 216, 49, 139, 191, 154, 11, 52, 239, 59,
     111, 245, 9, 64, 25, 129, 247, 232, 190, 246, 109, 22, 112, 210, 221, 181,
     92, 169, 48, 100, 193, 77, 103, 133, 70, 220, 207, 223, 176, 204, 76, 186,
     200, 208, 158, 182, 227, 222, 131, 38, 187, 238, 6, 34, 253, 128, 146, 44,
     94, 127, 105, 153, 113, 20, 27, 124, 159, 17, 72, 218, 96, 149, 213, 42,
     28, 254, 202, 40, 117, 82, 97, 209, 54, 236, 121, 75, 85, 150, 99, 198]"

definition CacheKey_prev_table :: "u8 list" where
  "CacheKey_prev_table =
    [57, 55, 119, 141, 158, 152, 218, 165, 18, 178, 89, 172, 16, 68, 34, 146,
     153, 233, 114, 48, 229, 0, 187, 154, 19, 180, 148, 230, 240, 140, 78, 143,
     123, 130, 219, 128, 101, 102, 215, 26, 243, 127, 239, 94, 223, 118, 22, 39,
     194, 168, 157, 3, 173, 1, 248, 67, 28, 46, 156, 175, 162, 38, 33, 81,
     179, 47, 9, 159, 27, 126, 200, 56, 234, 111, 73, 251, 206, 197, 99, 24,
     14, 71, 245, 44, 109, 252, 80, 79, 62, 129, 37, 150, 192, 77, 224, 17,
     236, 246, 131, 254, 195, 32, 83, 198, 23, 226, 85, 88, 35, 186, 42, 176,
     188, 228, 134, 8, 51, 244, 86, 93, 36, 250, 110, 137, 231, 45, 5, 225,
     221, 181, 49, 214, 40, 199, 160, 82, 91, 125, 166, 169, 103, 97, 30, 124,
     29, 117, 222, 76, 50, 237, 253, 7, 112, 227, 171, 10, 151, 113, 210, 232,
     92, 95, 20, 87, 145, 161, 43, 2, 60, 193, 54, 120, 25, 122, 11, 100,
     204, 61, 142, 132, 138, 191, 211, 66, 59, 106, 207, 216, 15, 53, 184, 170,
     144, 196, 139, 74, 107, 105, 255, 41, 208, 21, 242, 98, 205, 75, 96, 202,
     209, 247, 189, 72, 69, 238, 133, 13, 167, 31, 235, 116, 201, 190, 213, 203,
     104, 115, 12, 212, 52, 63, 149, 135, 183, 84, 147, 163, 249, 65, 217, 174,
     70, 6, 64, 90, 155, 177, 185, 182, 108, 121, 164, 136, 58, 220, 241, 4]"

text \<open>The bytes of the key stored at an address.\<close>

definition read_key :: "store \<Rightarrow> nat \<Rightarrow> u8 list" where
  "read_key m a = map (\<lambda>i. m (a + i)) [0..<16]"

text \<open>\<^verbatim>\<open>INK_MD5::word\<close>: the key read as 32-bit words, least significant byte first.\<close>

definition key_word :: "u8 list \<Rightarrow> nat \<Rightarrow> u32" where
  "key_word k i = (let b = (\<lambda>j. ucast (k ! (4 * i + j)) :: u32)
     in b 0 + push_bit 8 (b 1) + push_bit 16 (b 2) + push_bit 24 (b 3))"

definition next_key_byte :: "nat \<Rightarrow> nat \<Rightarrow> nat \<Rightarrow> store \<Rightarrow> store" where
  "next_key_byte next_key key i m = m(next_key + i :=
     CacheKey_next_table ! ((unat (m (next_key + (i - 1))) + unat (m (key + i))) mod 256))"

definition next_CacheKey :: "nat \<Rightarrow> nat \<Rightarrow> store \<Rightarrow> store" where
  "next_CacheKey next_key key m =
     fold (next_key_byte next_key key) [1..<16]
       (m(next_key := CacheKey_next_table ! unat (m key)))"

definition prev_key_byte :: "nat \<Rightarrow> nat \<Rightarrow> nat \<Rightarrow> store \<Rightarrow> store" where
  "prev_key_byte prev_key key i m = m(prev_key + i :=
     256 + CacheKey_prev_table ! unat (m (key + i)) - m (key + (i - 1)))"

definition prev_CacheKey :: "nat \<Rightarrow> nat \<Rightarrow> store \<Rightarrow> store" where
  "prev_CacheKey prev_key key m =
     (let m' = fold (prev_key_byte prev_key key) (rev [1..<16]) m
      in m'(prev_key := CacheKey_prev_table ! unat (m' key)))"

text \<open>
  The same successor and predecessor as functions of the bytes alone: each byte of the
  next key depends on the byte before it in the next key and the byte in the old one.
\<close>

fun next_bytes :: "u8 \<Rightarrow> u8 list \<Rightarrow> u8 list" where
  "next_bytes p [] = []"
| "next_bytes p (k # ks) = (let b = CacheKey_next_table ! unat (p + k) in b # next_bytes b ks)"

fun prev_bytes :: "u8 \<Rightarrow> u8 list \<Rightarrow> u8 list" where
  "prev_bytes p [] = []"
| "prev_bytes p (k # ks) = (CacheKey_prev_table ! unat k - p) # prev_bytes k ks"

text \<open>Two keys the calls may be given: the same one, or two that do not overlap.\<close>

definition key_args_ok :: "nat \<Rightarrow> nat \<Rightarrow> bool" where
  "key_args_ok a b \<longleftrightarrow> a = b \<or> a + 16 \<le> b \<or> b + 16 \<le> a"

section \<open>The tables are inverse permutations\<close>

lemma tables_inverse:
  "map (\<lambda>x. CacheKey_prev_table ! unat x) CacheKey_next_table = map of_nat [0..<256]"
  by (simp add: CacheKey_next_table_def CacheKey_prev_table_def upt_rec [of _ 256])

lemma prev_next_table: "CacheKey_prev_table ! unat (CacheKey_next_table ! unat x) = x"
proof -
  have "length CacheKey_next_table = 256" by (simp add: CacheKey_next_table_def)
  moreover have b: "unat x < 256" using unsigned_less [of x] by simp
  ultimately have "CacheKey_prev_table ! unat (CacheKey_next_table ! unat x)
      = map (\<lambda>x. CacheKey_prev_table ! unat x) CacheKey_next_table ! unat x"
    by simp
  also have "\<dots> = of_nat (unat x)" using b by (simp add: tables_inverse)
  finally show ?thesis by simp
qed

lemma prev_next_bytes: "prev_bytes p (next_bytes p ks) = ks"
  by (induction p ks rule: next_bytes.induct) (simp_all add: Let_def prev_next_table)

lemma length_bytes [simp]:
  "length (next_bytes p ks) = length ks" "length (prev_bytes q ks) = length ks"
  by (induction ks arbitrary: p q) (simp_all add: Let_def)

section \<open>The loops compute the byte functions\<close>

lemma next_bytes_nth:
  "i < length ks \<Longrightarrow> next_bytes p ks ! i =
     CacheKey_next_table ! unat ((if i = 0 then p else next_bytes p ks ! (i - 1)) + ks ! i)"
proof (induction ks arbitrary: p i)
  case Nil
  then show ?case by simp
next
  case (Cons k ks)
  then show ?case by (cases i; cases "i - 1") (auto simp: Let_def)
qed

lemma prev_bytes_nth:
  "i < length ks \<Longrightarrow> prev_bytes p ks ! i =
     CacheKey_prev_table ! unat (ks ! i) - (if i = 0 then p else ks ! (i - 1))"
proof (induction ks arbitrary: p i)
  case Nil
  then show ?case by simp
next
  case (Cons k ks)
  then show ?case by (cases i; cases "i - 1") auto
qed

lemma read_key_nth [simp]: "i < 16 \<Longrightarrow> read_key m a ! i = m (a + i)" "length (read_key m a) = 16"
  by (simp_all add: read_key_def)

lemma unat_add_u8: "unat (a + b) = (unat a + unat b) mod 256" for a b :: u8
  by (simp add: unat_word_ariths)

lemma next_loop:
  fixes m :: store
  assumes "key_args_ok d s" "1 \<le> n" "n \<le> 16"
  defines "nb \<equiv> next_bytes 0 (read_key m s)"
  defines "m0 \<equiv> m(d := CacheKey_next_table ! unat (m s))"
  shows "(\<forall>j<n. fold (next_key_byte d s) [1..<n] m0 (d + j) = nb ! j) \<and>
    (\<forall>j. n \<le> j \<and> j < 16 \<longrightarrow> fold (next_key_byte d s) [1..<n] m0 (s + j) = m (s + j))"
  using assms(2,3)
proof (induction n rule: dec_induct)
  case base
  have "nb ! 0 = CacheKey_next_table ! unat (m s)"
    using next_bytes_nth [of 0 "read_key m s" 0] by (simp add: nb_def)
  with assms(1) show ?case by (auto simp: key_args_ok_def m0_def)
next
  case (step n)
  let ?m = "fold (next_key_byte d s) [1..<n] m0"
  have IH: "\<forall>j<n. ?m (d + j) = nb ! j" "\<forall>j. n \<le> j \<and> j < 16 \<longrightarrow> ?m (s + j) = m (s + j)"
    using step by auto
  have "nb ! n = CacheKey_next_table ! unat (nb ! (n - 1) + m (s + n))"
    using next_bytes_nth [of n "read_key m s" 0] step by (simp add: nb_def)
  also have "\<dots> = CacheKey_next_table ! ((unat (?m (d + (n - 1))) + unat (?m (s + n))) mod 256)"
  proof -
    have "?m (d + (n - 1)) = nb ! (n - 1)" using step(1) by (intro IH(1) [rule_format]) simp
    moreover have "?m (s + n) = m (s + n)" using IH(2) step by simp
    ultimately
    show ?thesis by (simp only: unat_add_u8)
  qed
  finally have n: "nb ! n = \<dots>" .
  have d: "j < 16 \<Longrightarrow> Suc n \<le> j \<Longrightarrow> s + j \<noteq> d + n" for j
    using assms(1) step by (auto simp: key_args_ok_def)
  have f: "fold (next_key_byte d s) [1..<Suc n] m0 = next_key_byte d s n ?m"
    using step(1) by simp
  show ?case
    unfolding f using IH n d by (auto simp: next_key_byte_def less_Suc_eq)
qed

lemma next_CacheKey_bytes:
  assumes "key_args_ok d s"
  shows "read_key (next_CacheKey d s m) d = next_bytes 0 (read_key m s)"
proof (rule nth_equalityI)
  show "length (read_key (next_CacheKey d s m) d) = length (next_bytes 0 (read_key m s))" by simp
next
  fix i assume "i < length (read_key (next_CacheKey d s m) d)"
  then show "read_key (next_CacheKey d s m) d ! i = next_bytes 0 (read_key m s) ! i"
    using next_loop [OF assms, of 16 m] by (simp add: next_CacheKey_def)
qed

text \<open>The predecessor runs from the last byte down; bytes below \<open>n\<close> are still to be written.\<close>

lemma prev_loop:
  fixes m :: store
  assumes "key_args_ok d s" "1 \<le> n" "n \<le> 16"
  defines "pb \<equiv> prev_bytes 0 (read_key m s)"
  shows "(\<forall>j. n \<le> j \<and> j < 16 \<longrightarrow> fold (prev_key_byte d s) (rev [n..<16]) m (d + j) = pb ! j) \<and>
    (\<forall>j<n. fold (prev_key_byte d s) (rev [n..<16]) m (s + j) = m (s + j))"
  using assms(3,2)
proof (induction n rule: inc_induct)
  case base
  then show ?case by auto
next
  case (step n)
  let ?m = "fold (prev_key_byte d s) (rev [Suc n..<16]) m"
  have IH: "\<forall>j. Suc n \<le> j \<and> j < 16 \<longrightarrow> ?m (d + j) = pb ! j" "\<forall>j<Suc n. ?m (s + j) = m (s + j)"
    using step by auto
  have "pb ! n = CacheKey_prev_table ! unat (m (s + n)) - m (s + (n - 1))"
    using prev_bytes_nth [of n "read_key m s" 0] step by (simp add: pb_def)
  also have "\<dots> = 256 + CacheKey_prev_table ! unat (?m (s + n)) - ?m (s + (n - 1))"
    using IH by simp
  finally have n: "pb ! n = \<dots>" .
  have d: "j < n \<Longrightarrow> s + j \<noteq> d + n" for j
    using assms(1) step(2) by (auto simp: key_args_ok_def)
  have f: "fold (prev_key_byte d s) (rev [n..<16]) m = prev_key_byte d s n ?m"
    using step(2) by (simp add: upt_conv_Cons)
  show ?case
    unfolding f using IH n d
    by (auto simp: prev_key_byte_def Suc_le_eq dest: le_neq_implies_less)
qed

lemma prev_CacheKey_bytes:
  assumes "key_args_ok d s"
  shows "read_key (prev_CacheKey d s m) d = prev_bytes 0 (read_key m s)"
proof (rule nth_equalityI)
  show "length (read_key (prev_CacheKey d s m) d) = length (prev_bytes 0 (read_key m s))" by simp
next
  fix i assume i: "i < length (read_key (prev_CacheKey d s m) d)"
  have "prev_bytes 0 (read_key m s) ! 0 = CacheKey_prev_table ! unat (m s)"
    using prev_bytes_nth [of 0 "read_key m s" 0] by simp
  then show "read_key (prev_CacheKey d s m) d ! i = prev_bytes 0 (read_key m s) ! i"
    using i prev_loop [OF assms, of 1 m] by (cases "i = 0") (auto simp: prev_CacheKey_def Let_def)
qed

section \<open>Properties\<close>

text \<open>C33: Stepping a key forward with \<^verbatim>\<open>next_CacheKey\<close> and back with \<^verbatim>\<open>prev_CacheKey\<close>
  gives the key itself, for every key and whether the calls write in place or to another key:
  the fragment chain of a document can be walked in both directions.\<close>

theorem prev_next_CacheKey:
  assumes "key_args_ok b a" "key_args_ok c b"
  shows "read_key (prev_CacheKey c b (next_CacheKey b a m)) c = read_key m a"
  using assms by (simp add: prev_CacheKey_bytes next_CacheKey_bytes prev_next_bytes)

theorem prev_next_CacheKey_witness:
  "read_key (prev_CacheKey 8 8 (next_CacheKey 8 8 (\<lambda>a. of_nat a))) 8 = read_key (\<lambda>a. of_nat a) 8"
  by (rule prev_next_CacheKey) (simp_all add: key_args_ok_def)

end
