(* ===== verification/Cache_Dir.thy ===== *)
theory Cache_Dir
  imports Dir_Entry Cache_Key "HOL-Library.Monad_Syntax"
begin

text \<open>
  The cache directory of \<^verbatim>\<open>iocore/cache/CacheDir.cc\<close>. A partition (\<^verbatim>\<open>Part\<close>) holds an
  array of directory entries, divided into segments of \<^verbatim>\<open>buckets\<close> buckets of
  \<^verbatim>\<open>DIR_DEPTH\<close> rows. Row 0 of a bucket is its head; the other rows of a segment are either
  linked into the chain of some bucket or on the doubly linked free list of the segment.

  The array is one flat list, as in the source; a \<^verbatim>\<open>Dir*\<close> into segment \<open>s\<close> is the
  index of the entry inside the segment (what \<^verbatim>\<open>dir_to_offset\<close> computes), \<^verbatim>\<open>NULL\<close> is
  \<open>None\<close>. Loops that walk a chain do not return when the chain is cyclic, so they are
  partial functions into \<open>option\<close>; the invariant of theory \<open>Cache_Dir_Inv\<close> shows
  that they return. The two statistics the code maintains under its mutex are fields of the
  partition.
\<close>

section \<open>The partition\<close>

record part =
  dirs :: "dir list"
  segments :: nat
  buckets :: nat
  freelist :: "u16 list"
  phase :: u32
  dirty :: bool
  write_pos :: int
  agg_pos :: int
  agg_buf_pos :: int
  skip :: int
  start :: int
  plen :: int
  direntries_used :: int
  dir_collisions :: int

definition AGG_SIZE :: int where "AGG_SIZE = 4 * 1024 * 1024"

definition part_direntries :: "part \<Rightarrow> nat" where
  "part_direntries d = buckets d * DIR_DEPTH * segments d"

definition part_dir_segment :: "part \<Rightarrow> nat \<Rightarrow> nat" where
  "part_dir_segment d s = (s * buckets d) * DIR_DEPTH"

definition dir_in_seg :: "nat \<Rightarrow> nat \<Rightarrow> nat" where
  "dir_in_seg seg i = seg + i"

text \<open>Reading and writing the entry a \<^verbatim>\<open>Dir*\<close> of segment \<open>s\<close> points to.\<close>

definition dir_at :: "part \<Rightarrow> nat \<Rightarrow> nat \<Rightarrow> dir" where
  "dir_at d s i = dirs d ! dir_in_seg (part_dir_segment d s) i"

definition dir_put :: "nat \<Rightarrow> nat \<Rightarrow> dir \<Rightarrow> part \<Rightarrow> part" where
  "dir_put s i e d = d\<lparr>dirs := (dirs d)[dir_in_seg (part_dir_segment d s) i := e]\<rparr>"

definition set_freelist :: "nat \<Rightarrow> u16 \<Rightarrow> part \<Rightarrow> part" where
  "set_freelist s x d = d\<lparr>freelist := (freelist d)[s := x]\<rparr>"

definition dir_from_offset :: "nat \<Rightarrow> nat option" where
  "dir_from_offset i = (if i = 0 then None else Some i)"

definition next_dir :: "part \<Rightarrow> nat \<Rightarrow> nat \<Rightarrow> nat option" where
  "next_dir d s e = dir_from_offset (unat (dir_next (dir_at d s e)))"

definition dir_bucket :: "nat \<Rightarrow> nat" where
  "dir_bucket b = b * DIR_DEPTH"

definition dir_bucket_row :: "nat \<Rightarrow> nat \<Rightarrow> nat" where
  "dir_bucket_row b i = b + i"

definition put_next :: "nat \<Rightarrow> nat \<Rightarrow> nat \<Rightarrow> part \<Rightarrow> part" where
  "put_next s e i d = dir_put s e (dir_set_next i (dir_at d s e)) d"

definition put_prev :: "nat \<Rightarrow> nat \<Rightarrow> nat \<Rightarrow> part \<Rightarrow> part" where
  "put_prev s e i d = dir_put s e (dir_set_prev i (dir_at d s e)) d"

definition put_prev_opt :: "nat \<Rightarrow> nat option \<Rightarrow> nat \<Rightarrow> part \<Rightarrow> part" where
  "put_prev_opt s e i d = (case e of None \<Rightarrow> d | Some e' \<Rightarrow> put_prev s e' i d)"

definition inc_used :: "int \<Rightarrow> part \<Rightarrow> part" where
  "inc_used n d = d\<lparr>direntries_used := direntries_used d + n\<rparr>"

definition inc_collisions :: "part \<Rightarrow> part" where
  "inc_collisions d = d\<lparr>dir_collisions := dir_collisions d + 1\<rparr>"

section \<open>Which entries are valid\<close>

definition offset_of :: "dir \<Rightarrow> int" where
  "offset_of e = sint (dir_offset e)"

definition part_out_of_phase_valid :: "part \<Rightarrow> dir \<Rightarrow> bool" where
  "part_out_of_phase_valid d e \<longleftrightarrow> offset_of e - 1 \<ge> (agg_pos d - start d) sdiv INK_BLOCK_SIZE"

definition part_out_of_phase_agg_valid :: "part \<Rightarrow> dir \<Rightarrow> bool" where
  "part_out_of_phase_agg_valid d e \<longleftrightarrow>
     offset_of e - 1 \<ge> (agg_pos d - start d + AGG_SIZE) sdiv INK_BLOCK_SIZE"

definition part_out_of_phase_write_valid :: "part \<Rightarrow> dir \<Rightarrow> bool" where
  "part_out_of_phase_write_valid d e \<longleftrightarrow> offset_of e - 1 \<ge> (write_pos d - start d) sdiv INK_BLOCK_SIZE"

definition part_in_phase_valid :: "part \<Rightarrow> dir \<Rightarrow> bool" where
  "part_in_phase_valid d e \<longleftrightarrow>
     offset_of e - 1 < (write_pos d + agg_buf_pos d - start d) sdiv INK_BLOCK_SIZE"

definition part_offset :: "part \<Rightarrow> dir \<Rightarrow> int" where
  "part_offset d e = start d + offset_of e * INK_BLOCK_SIZE - INK_BLOCK_SIZE"

definition part_in_phase_agg_buf_valid :: "part \<Rightarrow> dir \<Rightarrow> bool" where
  "part_in_phase_agg_buf_valid d e \<longleftrightarrow>
     part_offset d e \<ge> write_pos d \<and> part_offset d e < write_pos d + agg_buf_pos d"

definition dir_valid :: "part \<Rightarrow> dir \<Rightarrow> bool" where
  "dir_valid d e = (if phase d = ucast (dir_phase e) then part_in_phase_valid d e
                    else part_out_of_phase_valid d e)"

definition dir_agg_valid :: "part \<Rightarrow> dir \<Rightarrow> bool" where
  "dir_agg_valid d e = (if phase d = ucast (dir_phase e) then part_in_phase_valid d e
                        else part_out_of_phase_agg_valid d e)"

definition dir_write_valid :: "part \<Rightarrow> dir \<Rightarrow> bool" where
  "dir_write_valid d e = (if phase d = ucast (dir_phase e) then part_in_phase_valid d e
                          else part_out_of_phase_write_valid d e)"

definition dir_agg_buf_valid :: "part \<Rightarrow> dir \<Rightarrow> bool" where
  "dir_agg_buf_valid d e \<longleftrightarrow> phase d = ucast (dir_phase e) \<and> part_in_phase_agg_buf_valid d e"

section \<open>Loops, free lists, lengths\<close>

definition next_opt :: "part \<Rightarrow> nat \<Rightarrow> nat option \<Rightarrow> nat option" where
  "next_opt d s p = (case p of None \<Rightarrow> None | Some e \<Rightarrow> next_dir d s e)"

text \<open>\<^verbatim>\<open>p1\<close> moves by one entry per iteration, \<^verbatim>\<open>p2\<close> by two; \<open>False\<close> is the return value 0.\<close>

partial_function (option) loop_check_loop ::
  "part \<Rightarrow> nat \<Rightarrow> nat option \<Rightarrow> nat option \<Rightarrow> bool option" where
  "loop_check_loop d s p1 p2 =
     (if p2 = None then Some True
      else
        let p1' = next_opt d s p1; p2' = next_opt d s p2
        in if p2' = None then Some True
           else
             let p2'' = next_opt d s p2'
             in if p2'' = p1' then Some False else loop_check_loop d s p1' p2'')"

definition dir_bucket_loop_check :: "nat option \<Rightarrow> nat \<Rightarrow> part \<Rightarrow> bool option" where
  "dir_bucket_loop_check start_dir s d =
     (if start_dir = None then Some True else loop_check_loop d s start_dir start_dir)"

definition dir_free_entry :: "nat \<Rightarrow> nat \<Rightarrow> part \<Rightarrow> part" where
  "dir_free_entry e s d =
     (let fo = unat (freelist d ! s);
          d1 = put_next s e fo d;
          d2 = put_prev_opt s (dir_from_offset fo) e d1
      in set_freelist s (word_of_nat e) d2)"

definition clear_segment :: "nat \<Rightarrow> part \<Rightarrow> part" where
  "clear_segment s d = fold (\<lambda>i. dir_put s i dir_clear) [0..<DIR_DEPTH * buckets d] d"

definition dir_init_segment :: "nat \<Rightarrow> part \<Rightarrow> part" where
  "dir_init_segment s d =
     fold (\<lambda>l. fold (\<lambda>b. dir_free_entry (dir_bucket_row (dir_bucket b) l) s) [0..<buckets d])
       [1..<DIR_DEPTH]
       (clear_segment s (set_freelist s 0 d))"

definition dir_bucket_loop_fix :: "nat option \<Rightarrow> nat \<Rightarrow> part \<Rightarrow> (bool \<times> part) option" where
  "dir_bucket_loop_fix start_dir s d = do {
     ok \<leftarrow> dir_bucket_loop_check start_dir s d;
     if \<not> ok then Some (True, dir_init_segment s d) else Some (False, d)
   }"

text \<open>The loop \<^verbatim>\<open>while (e) { ...; e = next_dir(e, seg); }\<close> with an accumulator.\<close>

partial_function (option) walk :: "(dir \<Rightarrow> 'a \<Rightarrow> 'a) \<Rightarrow> part \<Rightarrow> nat \<Rightarrow> nat option \<Rightarrow> 'a \<Rightarrow> 'a option" where
  "walk f d s e acc =
     (case e of None \<Rightarrow> Some acc | Some x \<Rightarrow> walk f d s (next_dir d s x) (f (dir_at d s x) acc))"

definition dir_freelist_length :: "part \<Rightarrow> nat \<Rightarrow> (int \<times> part) option" where
  "dir_freelist_length d s =
     (let e = dir_from_offset (unat (freelist d ! s))
      in do {
        (fixed, d1) \<leftarrow> dir_bucket_loop_fix e s d;
        if fixed then Some ((int DIR_DEPTH - 1) * int (buckets d1), d1)
        else do { n \<leftarrow> walk (\<lambda>_ n. n + 1) d1 s e 0; Some (n, d1) }
      })"

function bucket_length_loop :: "part \<Rightarrow> nat \<Rightarrow> nat option \<Rightarrow> nat \<Rightarrow> int" where
  "bucket_length_loop d s None i = int i"
| "bucket_length_loop d s (Some e) i =
     (if i + 1 > 100 then -1 else bucket_length_loop d s (next_dir d s e) (i + 1))"
  by pat_completeness auto
termination by (relation "measure (\<lambda>(d, s, e, i). 100 - i)") auto

definition dir_bucket_length :: "nat \<Rightarrow> nat \<Rightarrow> part \<Rightarrow> int" where
  "dir_bucket_length b s d = bucket_length_loop d s (Some b) 0"

definition check_bucket :: "part \<Rightarrow> nat \<Rightarrow> nat \<Rightarrow> bool option" where
  "check_bucket d s i =
     (let b = dir_bucket i; e = dir_at d s b
      in if \<not> dir_bucket_length b s d \<ge> 0 then Some False
         else if \<not> (dir_next e = 0 \<or> dir_offset e \<noteq> 0) then Some False
         else dir_bucket_loop_check (Some b) s d)"

fun check_all :: "part \<Rightarrow> (nat \<times> nat) list \<Rightarrow> bool option" where
  "check_all d [] = Some True"
| "check_all d ((s, i) # xs) = do {
     ok \<leftarrow> check_bucket d s i;
     if \<not> ok then Some False else check_all d xs
   }"

definition check_dir :: "part \<Rightarrow> bool option" where
  "check_dir d = check_all d (List.product [0..<segments d] [0..<buckets d])"

definition unlink_from_freelist :: "nat \<Rightarrow> nat \<Rightarrow> part \<Rightarrow> part" where
  "unlink_from_freelist e s d =
     (let pr = unat (dir_prev (dir_at d s e)); nx = unat (dir_next (dir_at d s e));
          d1 = (case dir_from_offset pr of
                  Some p \<Rightarrow> put_next s p nx d
                | None \<Rightarrow> set_freelist s (word_of_nat nx) d)
      in put_prev_opt s (next_dir d1 s e) (unat (dir_prev (dir_at d1 s e))) d1)"

section \<open>Deleting and cleaning\<close>

text \<open>With a predecessor the entry is cleared, unlinked and pushed on the free list; a bucket
  head takes over its successor's entry and frees that one. The result is the entry to look
  at next.\<close>

function dir_delete_entry :: "nat \<Rightarrow> nat option \<Rightarrow> nat \<Rightarrow> part \<Rightarrow> nat option \<times> part" where
  "dir_delete_entry e (Some p) s d =
     (let no = unat (dir_next (dir_at d s e));
          d0 = d\<lparr>dirty := True\<rparr>;
          fo = unat (freelist d0 ! s);
          d1 = dir_put s e dir_clear d0;
          d2 = put_next s p no d1;
          d3 = put_next s e fo d2;
          d4 = put_prev_opt s (dir_from_offset fo) e d3;
          d5 = set_freelist s (word_of_nat e) d4
      in (dir_from_offset no, d5))"
| "dir_delete_entry e None s d =
     (let d0 = d\<lparr>dirty := True\<rparr>
      in case next_dir d0 s e of
           Some n \<Rightarrow>
             let d1 = dir_put s e (dir_at d0 s n) d0;
                 (_, d2) = dir_delete_entry n (Some e) s d1
             in (Some e, d2)
         | None \<Rightarrow> (None, dir_put s e dir_clear d0))"
  by pat_completeness auto
termination by (relation "measure (\<lambda>(e, p, s, d). case p of None \<Rightarrow> 1 | Some _ \<Rightarrow> 0)") auto

definition stale :: "part \<Rightarrow> dir \<Rightarrow> bool" where
  "stale d e \<longleftrightarrow> \<not> dir_valid d e \<or> dir_offset e = 0"

text \<open>The \<^verbatim>\<open>do ... while (e)\<close> of \<^verbatim>\<open>dir_clean_bucket\<close>; the body runs with \<open>e\<close> not \<^verbatim>\<open>NULL\<close>.\<close>

partial_function (option) clean_loop :: "nat \<Rightarrow> nat option \<Rightarrow> nat option \<Rightarrow> part \<Rightarrow> part option" where
  "clean_loop s e p d =
     (case e of
        None \<Rightarrow> Some d
      | Some x \<Rightarrow>
          if stale d (dir_at d s x) then
            let d1 = (if dir_offset (dir_at d s x) \<noteq> 0 then inc_used (-1) d else d);
                (e', d2) = dir_delete_entry x p s d1
            in clean_loop s e' p d2
          else clean_loop s (next_dir d s x) (Some x) d)"

definition dir_clean_bucket :: "nat \<Rightarrow> nat \<Rightarrow> part \<Rightarrow> part option" where
  "dir_clean_bucket b s d = clean_loop s (Some b) None d"

text \<open>A \<^verbatim>\<open>for\<close> loop whose body may not return.\<close>

primrec for_each :: "('i \<Rightarrow> 's \<Rightarrow> 's option) \<Rightarrow> 'i list \<Rightarrow> 's \<Rightarrow> 's option" where
  "for_each f [] d = Some d"
| "for_each f (i # is) d = do { d' \<leftarrow> f i d; for_each f is d' }"

definition dir_clean_segment :: "nat \<Rightarrow> part \<Rightarrow> part option" where
  "dir_clean_segment s d = for_each (\<lambda>i. dir_clean_bucket (dir_bucket i) s) [0..<buckets d] d"

definition dir_clean_part :: "part \<Rightarrow> part option" where
  "dir_clean_part d = for_each dir_clean_segment [0..<segments d] d"

text \<open>The comparison of \<^verbatim>\<open>dir_clear_range\<close> casts the 40-bit offset to a 32-bit \<^verbatim>\<open>int\<close>.\<close>

definition offset_as_int :: "dir \<Rightarrow> int" where
  "offset_as_int e = sint (ucast (dir_offset e) :: u32)"

definition clear_range_step :: "int \<Rightarrow> int \<Rightarrow> nat \<Rightarrow> part \<Rightarrow> part" where
  "clear_range_step st en i d =
     (let e = dirs d ! i
      in if dir_token e = 0 \<and> offset_as_int e \<ge> st \<and> offset_as_int e < en
         then (inc_used (-1) d)\<lparr>dirs := (dirs d)[i := dir_set_offset 0 e]\<rparr>
         else d)"

definition dir_clear_range :: "int \<Rightarrow> int \<Rightarrow> part \<Rightarrow> part option" where
  "dir_clear_range st en d =
     dir_clean_part (fold (clear_range_step st en) [0..<buckets d * DIR_DEPTH * segments d] d)"

text \<open>The purge of \<^verbatim>\<open>freelist_clean\<close>: every tenth document head of the segment is deleted.
  The counter \<open>n\<close> advances only past entries whose head bit is set.\<close>

definition purge_step :: "nat \<Rightarrow> nat \<Rightarrow> nat \<times> part \<Rightarrow> nat \<times> part" where
  "purge_step s i = (\<lambda>(n, d).
     if dir_head (dir_at d s i) = 0 then (n, d)
     else if n mod 10 \<noteq> 0 then (n + 1, d)
     else (n + 1, dir_put s i (dir_set_offset 0 (dir_at d s i)) (inc_used (-1) d)))"

definition purge_rows :: "nat \<Rightarrow> nat list" where
  "purge_rows nb = concat (map (\<lambda>bi. map (dir_bucket_row (dir_bucket bi)) [0..<DIR_DEPTH]) [0..<nb])"

definition freelist_clean :: "nat \<Rightarrow> part \<Rightarrow> part option" where
  "freelist_clean s d = do {
     d1 \<leftarrow> dir_clean_segment s d;
     if freelist d1 ! s \<noteq> 0 then Some d1
     else
       let (n, d2) = fold (purge_step s) (purge_rows (buckets d1)) (0, d1)
       in dir_clean_segment s d2
   }"

definition freelist_pop :: "nat \<Rightarrow> part \<Rightarrow> (nat option \<times> part) option" where
  "freelist_pop s d =
     (case dir_from_offset (unat (freelist d ! s)) of
        None \<Rightarrow> do { d1 \<leftarrow> freelist_clean s d; Some (None, d1) }
      | Some e \<Rightarrow>
          let d1 = set_freelist s (dir_next (dir_at d s e)) d
          in if dir_offset (dir_at d1 s e) \<noteq> 0 then Some (None, dir_init_segment s d1)
             else Some (Some e, put_prev_opt s (dir_from_offset (unat (freelist d1 ! s))) 0 d1))"

section \<open>Probe, insert, overwrite, delete\<close>

definition dir_compare_tag :: "dir \<Rightarrow> u8 list \<Rightarrow> bool" where
  "dir_compare_tag e key \<longleftrightarrow> dir_tag e = DIR_MASK_TAG (key_word key 2)"

definition key_segment :: "u8 list \<Rightarrow> part \<Rightarrow> nat" where
  "key_segment key d = unat (key_word key 0) mod segments d"

definition key_bucket :: "u8 list \<Rightarrow> part \<Rightarrow> nat" where
  "key_bucket key d = unat (key_word key 1) mod buckets d"

text \<open>One pass of \<^verbatim>\<open>dir_probe\<close> over the chain: the entry found, or the collision marker and
  the value of \<^verbatim>\<open>p\<close> that are left when the chain ends.\<close>

partial_function (option) probe_loop ::
  "u8 list \<Rightarrow> nat \<Rightarrow> nat option \<Rightarrow> nat option \<Rightarrow> nat option \<Rightarrow> part \<Rightarrow>
   (nat option \<times> nat option \<times> nat option \<times> part) option" where
  "probe_loop key s e p collision d =
     (case e of
        None \<Rightarrow> Some (None, collision, p, d)
      | Some x \<Rightarrow>
          if dir_compare_tag (dir_at d s x) key then
            if collision \<noteq> None then
              if collision = Some x
              then probe_loop key s (next_dir d s x) (Some x) None (inc_collisions d)
              else probe_loop key s (next_dir d s x) (Some x) collision d
            else if dir_valid d (dir_at d s x) then Some (Some x, None, p, d)
            else
              let (e', d') = dir_delete_entry x p s (inc_used (-1) d)
              in probe_loop key s e' p None d'
          else probe_loop key s (next_dir d s x) (Some x) collision d)"

text \<open>The body between \<^verbatim>\<open>Lagain\<close> and the end of the pass: an empty bucket head skips the loop.
  \<^verbatim>\<open>p\<close> is set to \<^verbatim>\<open>NULL\<close> before \<^verbatim>\<open>Lagain\<close> only, so the second pass starts with the
  value the first one left.\<close>

definition probe_pass ::
  "u8 list \<Rightarrow> nat \<Rightarrow> nat \<Rightarrow> nat option \<Rightarrow> nat option \<Rightarrow> part \<Rightarrow>
   (nat option \<times> nat option \<times> nat option \<times> part) option" where
  "probe_pass key s b p collision d =
     (if dir_offset (dir_at d s b) \<noteq> 0 then probe_loop key s (Some b) p collision d
      else Some (None, collision, p, d))"

text \<open>\<^verbatim>\<open>dir_probe\<close> returns the entry found, as a pointer (the new \<^verbatim>\<open>*last_collision\<close>) and by
  value (\<^verbatim>\<open>*result\<close>).\<close>

definition dir_probe ::
  "u8 list \<Rightarrow> nat option \<Rightarrow> part \<Rightarrow> ((nat \<times> dir) option \<times> part) option" where
  "dir_probe key last_collision d =
     (let s = key_segment key d; b = dir_bucket (key_bucket key d)
      in do {
        (r, collision, p, d1) \<leftarrow> probe_pass key s b None last_collision d;
        case r of
          Some e \<Rightarrow> Some (Some (e, dir_at d1 s e), d1)
        | None \<Rightarrow>
            if collision \<noteq> None then do {
              (r', c', p', d2) \<leftarrow> probe_pass key s b p None (inc_collisions d1);
              case r' of
                Some e \<Rightarrow> Some (Some (e, dir_at d2 s e), d2)
              | None \<Rightarrow> Some (None, d2)
            }
            else Some (None, d1)
      })"

text \<open>\<^verbatim>\<open>Llink\<close>: the entry taken from the row or the free list goes second in the chain.\<close>

definition dir_link :: "nat \<Rightarrow> nat \<Rightarrow> nat \<Rightarrow> part \<Rightarrow> part" where
  "dir_link e b s d =
     (let d1 = put_next s e (unat (dir_next (dir_at d s b))) d in put_next s b e d1)"

definition empty_row :: "part \<Rightarrow> nat \<Rightarrow> nat \<Rightarrow> nat option" where
  "empty_row d s b = find (\<lambda>e. dir_is_empty (dir_at d s e)) (map (dir_bucket_row b) [1..<DIR_DEPTH])"

partial_function (option) insert_slot :: "nat \<Rightarrow> nat \<Rightarrow> part \<Rightarrow> (nat \<times> part) option" where
  "insert_slot s b d =
     (if dir_is_empty (dir_at d s b) then Some (b, d)
      else case empty_row d s b of
        Some e \<Rightarrow> Some (e, dir_link e b s (unlink_from_freelist e s d))
      | None \<Rightarrow> do {
          (r, d1) \<leftarrow> freelist_pop s d;
          case r of
            None \<Rightarrow> insert_slot s b d1
          | Some e \<Rightarrow> Some (e, dir_link e b s d1)
        })"

definition dir_fill :: "nat \<Rightarrow> nat \<Rightarrow> dir \<Rightarrow> u32 \<Rightarrow> part \<Rightarrow> part" where
  "dir_fill s e x t d = dir_put s e (dir_set_tag t (dir_assign_data x (dir_at d s e))) d"

definition dir_insert :: "u8 list \<Rightarrow> dir \<Rightarrow> part \<Rightarrow> part option" where
  "dir_insert key to_part d =
     (let s = key_segment key d; b = dir_bucket (key_bucket key d)
      in do {
        (e, d1) \<leftarrow> insert_slot s b d;
        let d2 = (dir_fill s e to_part (key_word key 2) d1)\<lparr>dirty := True\<rparr>;
        Some (inc_used 1 d2)
      })"

partial_function (option) find_loop ::
  "(dir \<Rightarrow> bool) \<Rightarrow> part \<Rightarrow> nat \<Rightarrow> nat option \<Rightarrow> nat option \<Rightarrow> (nat \<times> nat option) option option" where
  "find_loop P d s e p =
     (case e of
        None \<Rightarrow> Some None
      | Some x \<Rightarrow> if P (dir_at d s x) then Some (Some (x, p)) else find_loop P d s (next_dir d s x) (Some x))"

text \<open>The search \<^verbatim>\<open>if (dir_offset(e)) do ... while (e)\<close> for an entry, with its predecessor.\<close>

definition find_entry :: "(dir \<Rightarrow> bool) \<Rightarrow> part \<Rightarrow> nat \<Rightarrow> nat \<Rightarrow> (nat \<times> nat option) option option" where
  "find_entry P d s b =
     (if dir_offset (dir_at d s b) \<noteq> 0 then find_loop P d s (Some b) None else Some None)"

text \<open>\<open>res\<close> is the variable of that name: 1 until the search has failed once.\<close>

partial_function (option) overwrite_slot ::
  "u32 \<Rightarrow> dir \<Rightarrow> bool \<Rightarrow> nat \<Rightarrow> nat \<Rightarrow> bool \<Rightarrow> part \<Rightarrow> ((nat \<times> bool) option \<times> part) option" where
  "overwrite_slot t overwrite must_overwrite s b res d = do {
     f \<leftarrow> find_entry (\<lambda>e. dir_tag e = t \<and> dir_offset e = dir_offset overwrite) d s b;
     case f of
       Some (e, _) \<Rightarrow> Some (Some (e, res), d)
     | None \<Rightarrow>
         if must_overwrite then Some (None, d)
         else if dir_is_empty (dir_at d s b) then Some (Some (b, False), inc_used 1 d)
         else case empty_row d s b of
           Some e \<Rightarrow> Some (Some (e, False), dir_link e b s (inc_used 1 (unlink_from_freelist e s d)))
         | None \<Rightarrow> do {
             (r, d1) \<leftarrow> freelist_pop s d;
             case r of
               None \<Rightarrow> overwrite_slot t overwrite must_overwrite s b False d1
             | Some e \<Rightarrow> Some (Some (e, False), dir_link e b s (inc_used 1 d1))
           }
   }"

text \<open>The result of \<^verbatim>\<open>dir_overwrite\<close> is true when an entry was overwritten in place.\<close>

definition dir_overwrite :: "u8 list \<Rightarrow> dir \<Rightarrow> dir \<Rightarrow> bool \<Rightarrow> part \<Rightarrow> (bool \<times> part) option" where
  "dir_overwrite key x overwrite must_overwrite d =
     (let s = key_segment key d; b = dir_bucket (key_bucket key d);
          t = DIR_MASK_TAG (key_word key 2)
      in do {
        (r, d1) \<leftarrow> overwrite_slot t overwrite must_overwrite s b True d;
        case r of
          None \<Rightarrow> Some (False, d1)
        | Some (e, res) \<Rightarrow> Some (res, (dir_fill s e x t d1)\<lparr>dirty := True\<rparr>)
      })"

definition dir_delete :: "u8 list \<Rightarrow> dir \<Rightarrow> part \<Rightarrow> (bool \<times> part) option" where
  "dir_delete key del d =
     (let s = key_segment key d; b = dir_bucket (key_bucket key d)
      in do {
        f \<leftarrow> find_entry (\<lambda>e. dir_compare_tag e key \<and> dir_offset e = dir_offset del) d s b;
        case f of
          None \<Rightarrow> Some (False, d)
        | Some (e, p) \<Rightarrow> Some (True, snd (dir_delete_entry e p s (inc_used (-1) d)))
      })"

section \<open>Accounting\<close>

record account =
  acc_used :: int
  acc_empty :: int
  acc_valid :: int
  acc_agg_valid :: int
  acc_size :: int

definition account_entry :: "part \<Rightarrow> dir \<Rightarrow> account \<Rightarrow> account" where
  "account_entry d e a =
     (if dir_offset e = 0 then a\<lparr>acc_empty := acc_empty a + 1\<rparr>
      else a\<lparr>acc_used := acc_used a + 1,
             acc_valid := acc_valid a + (if dir_valid d e then 1 else 0),
             acc_agg_valid := acc_agg_valid a + (if dir_agg_valid d e then 1 else 0),
             acc_size := acc_size a + dir_approx_size e\<rparr>)"

text \<open>\<^verbatim>\<open>dir_segment_accounted\<close>: the free count, the tallies over all buckets, and whether every
  entry of the segment but \<open>offby\<close> is accounted for.\<close>

definition dir_segment_accounted :: "nat \<Rightarrow> part \<Rightarrow> int \<Rightarrow> (bool \<times> int \<times> account \<times> int \<times> part) option" where
  "dir_segment_accounted s d offby = do {
     (free, d1) \<leftarrow> dir_freelist_length d s;
     a \<leftarrow> for_each (\<lambda>bi. walk (account_entry d1) d1 s (Some (dir_bucket bi))) [0..<buckets d1]
            \<lparr>acc_used = 0, acc_empty = 0, acc_valid = 0, acc_agg_valid = 0, acc_size = 0\<rparr>;
     let avg = (if acc_used a \<noteq> 0 then acc_size a sdiv acc_used a else 0);
     Some (int (buckets d1) * int DIR_DEPTH - (free + acc_used a + acc_empty a) \<le> offby, free, a, avg, d1)
   }"

definition count_used :: "dir \<Rightarrow> nat \<Rightarrow> nat" where
  "count_used e n = (if dir_offset e \<noteq> 0 then n + 1 else n)"

text \<open>The inner loops of \<^verbatim>\<open>dir_entries_used\<close> for one segment: a cyclic bucket resets the
  segment and ends its count at 0.\<close>

fun segment_used :: "nat \<Rightarrow> nat list \<Rightarrow> nat \<Rightarrow> part \<Rightarrow> (nat \<times> part) option" where
  "segment_used s [] sfull d = Some (sfull, d)"
| "segment_used s (b # bs) sfull d = do {
     (fixed, d1) \<leftarrow> dir_bucket_loop_fix (Some (dir_bucket b)) s d;
     if fixed then Some (0, d1)
     else do {
       sfull' \<leftarrow> walk count_used d1 s (Some (dir_bucket b)) sfull;
       segment_used s bs sfull' d1
     }
   }"

definition dir_entries_used :: "part \<Rightarrow> (nat \<times> part) option" where
  "dir_entries_used d =
     for_each (\<lambda>s (full, d). do { (sfull, d') \<leftarrow> segment_used s [0..<buckets d] 0 d; Some (full + sfull, d') })
       [0..<segments d] (0, d)"

end
