(* ===== verification/Cache_Dir_Inv.thy ===== *)
theory Cache_Dir_Inv
  imports Cache_Dir
begin

text \<open>
  The well-formedness invariant of a directory segment. A segment is seen through three
  functions of the row number: the next link, the previous link and whether the row is empty.
  \<open>links_ok\<close> says that the free list and the bucket chains are null terminated and
  partition the rows that are not bucket heads, up to a set \<open>R\<close> of rows that an operation
  has detached; \<open>filled_ok\<close> says that the free rows are empty and the chained ones are not, except
  for the cleared head of an empty bucket. The lemmas show
  how unlinking, freeing, popping and linking one row change the partition, independently of
  the packed representation.
\<close>

section \<open>Reading a segment\<close>

definition nxt :: "part \<Rightarrow> nat \<Rightarrow> nat \<Rightarrow> nat" where
  "nxt d s i = unat (dir_next (dir_at d s i))"

definition prv :: "part \<Rightarrow> nat \<Rightarrow> nat \<Rightarrow> nat" where
  "prv d s i = unat (dir_prev (dir_at d s i))"

definition emp :: "part \<Rightarrow> nat \<Rightarrow> nat \<Rightarrow> bool" where
  "emp d s i \<longleftrightarrow> dir_offset (dir_at d s i) = 0"

definition flh :: "part \<Rightarrow> nat \<Rightarrow> nat" where
  "flh d s = unat (freelist d ! s)"

text \<open>The geometry that \<^verbatim>\<open>part_init_data_internal\<close> sets up.\<close>

definition geom :: "part \<Rightarrow> bool" where
  "geom d \<longleftrightarrow> length (dirs d) = segments d * buckets d * 4 \<and> length (freelist d) = segments d \<and>
     0 < buckets d \<and> buckets d * 4 \<le> 2 ^ 16"

section \<open>The invariant\<close>

definition rows :: "nat \<Rightarrow> nat set" where
  "rows B = {i. i < B * 4 \<and> i mod 4 \<noteq> 0}"

definition links_ok ::
  "(nat \<Rightarrow> nat) \<Rightarrow> (nat \<Rightarrow> nat) \<Rightarrow> nat \<Rightarrow> nat \<Rightarrow> nat list \<Rightarrow> (nat \<Rightarrow> nat list) \<Rightarrow> nat set \<Rightarrow> bool" where
  "links_ok nx pv f B fl cs R \<longleftrightarrow>
     chain nx f fl \<and> back_links pv 0 fl \<and> (\<forall>b<B. chain nx (nx (b * 4)) (cs b)) \<and>
     (\<forall>b<B. \<forall>c<B. b \<noteq> c \<longrightarrow> set (cs b) \<inter> set (cs c) = {}) \<and>
     (\<forall>b<B. set fl \<inter> set (cs b) = {} \<and> R \<inter> set (cs b) = {}) \<and> R \<inter> set fl = {} \<and>
     set fl \<union> R \<union> (\<Union>b<B. set (cs b)) = rows B"

definition filled_ok ::
  "(nat \<Rightarrow> bool) \<Rightarrow> (nat \<Rightarrow> bool) \<Rightarrow> nat \<Rightarrow> nat list \<Rightarrow> (nat \<Rightarrow> nat list) \<Rightarrow> bool" where
  "filled_ok em cl B fl cs \<longleftrightarrow> (\<forall>i\<in>set fl. em i) \<and>
     (\<forall>b<B. (\<forall>i\<in>set (b * 4 # cs b). \<not> em i) \<or> cs b = [] \<and> cl (b * 4))"

definition seg_links :: "part \<Rightarrow> nat \<Rightarrow> nat list \<Rightarrow> (nat \<Rightarrow> nat list) \<Rightarrow> nat set \<Rightarrow> bool" where
  "seg_links d s fl cs R \<longleftrightarrow>
     geom d \<and> s < segments d \<and> links_ok (nxt d s) (prv d s) (flh d s) (buckets d) fl cs R"

definition seg_rep :: "part \<Rightarrow> nat \<Rightarrow> nat list \<Rightarrow> (nat \<Rightarrow> nat list) \<Rightarrow> bool" where
  "seg_rep d s fl cs \<longleftrightarrow> seg_links d s fl cs {} \<and> filled_ok (emp d s) (\<lambda>i. dir_at d s i = dir_clear) (buckets d) fl cs"

section \<open>The lists computed from the segment\<close>

primrec follow :: "nat \<Rightarrow> (nat \<Rightarrow> nat) \<Rightarrow> nat \<Rightarrow> nat list" where
  "follow 0 nx i = []"
| "follow (Suc n) nx i = (if i = 0 then [] else i # follow n nx (nx i))"

definition seg_free :: "part \<Rightarrow> nat \<Rightarrow> nat list" where
  "seg_free d s = follow (buckets d * 4) (nxt d s) (flh d s)"

definition seg_chain :: "part \<Rightarrow> nat \<Rightarrow> nat \<Rightarrow> nat list" where
  "seg_chain d s b = follow (buckets d * 4) (nxt d s) (nxt d s (b * 4))"

definition seg_inv :: "part \<Rightarrow> nat \<Rightarrow> bool" where
  "seg_inv d s \<longleftrightarrow> seg_rep d s (seg_free d s) (seg_chain d s)"

text \<open>What a bucket holds, in chain order: the entries without their chain links.\<close>

definition payload :: "dir \<Rightarrow> dir" where
  "payload e = e\<lparr>dw3 := 0\<rparr>"

definition contents :: "part \<Rightarrow> nat \<Rightarrow> nat \<Rightarrow> nat list \<Rightarrow> dir list" where
  "contents d s b xs = filter (\<lambda>e. dir_offset e \<noteq> 0) (map (\<lambda>i. payload (dir_at d s i)) (b * 4 # xs))"

definition bucket_entries :: "part \<Rightarrow> nat \<Rightarrow> nat \<Rightarrow> dir list" where
  "bucket_entries d s b = contents d s b (seg_chain d s b)"

section \<open>Frame lemmas of the accessors\<close>

lemma geom_index: "geom d \<Longrightarrow> s < segments d \<Longrightarrow> i < buckets d * 4 \<Longrightarrow> s * buckets d * 4 + i < length (dirs d)"
proof -
  assume "geom d" "s < segments d" "i < buckets d * 4"
  then have "(s + 1) * (buckets d * 4) \<le> segments d * (buckets d * 4)" by (intro mult_le_mono1) simp
  with \<open>geom d\<close> \<open>i < buckets d * 4\<close> show ?thesis by (simp add: geom_def algebra_simps)
qed

lemma geom_flat_inj:
  "s * B * 4 + i = s' * B * 4 + i' \<Longrightarrow> i < B * 4 \<Longrightarrow> i' < B * 4 \<Longrightarrow> s = s' \<and> i = i'" for s B i :: nat
proof -
  assume a: "s * B * 4 + i = s' * B * 4 + i'" and i: "i < B * 4" "i' < B * 4"
  from i have "(s * (B * 4) + i) div (B * 4) = s" "(s' * (B * 4) + i') div (B * 4) = s'" by auto
  with a have "s = s'" by (simp add: algebra_simps)
  with a show ?thesis by simp
qed

lemma dir_put_sel [simp]:
  "segments (dir_put s i e d) = segments d" "buckets (dir_put s i e d) = buckets d"
  "freelist (dir_put s i e d) = freelist d" "phase (dir_put s i e d) = phase d"
  "write_pos (dir_put s i e d) = write_pos d" "agg_pos (dir_put s i e d) = agg_pos d"
  "agg_buf_pos (dir_put s i e d) = agg_buf_pos d" "start (dir_put s i e d) = start d"
  "length (dirs (dir_put s i e d)) = length (dirs d)"
  "direntries_used (dir_put s i e d) = direntries_used d"
  by (simp_all add: dir_put_def)

lemma set_freelist_sel [simp]:
  "segments (set_freelist s x d) = segments d" "buckets (set_freelist s x d) = buckets d"
  "dirs (set_freelist s x d) = dirs d" "phase (set_freelist s x d) = phase d"
  "write_pos (set_freelist s x d) = write_pos d" "agg_pos (set_freelist s x d) = agg_pos d"
  "agg_buf_pos (set_freelist s x d) = agg_buf_pos d" "start (set_freelist s x d) = start d"
  "length (freelist (set_freelist s x d)) = length (freelist d)"
  "direntries_used (set_freelist s x d) = direntries_used d"
  "dir_at (set_freelist s x d) = dir_at d"
  by (simp_all add: set_freelist_def dir_at_def part_dir_segment_def fun_eq_iff)

lemma geom_stable [simp]:
  "geom (dir_put s i e d) = geom d" "geom (set_freelist s x d) = geom d"
  by (simp_all add: geom_def)

lemma dir_at_put:
  assumes "geom d" "s < segments d" "i < buckets d * 4" "j < buckets d * 4"
  shows "dir_at (dir_put s i e d) s' j = (if s' = s \<and> j = i then e else dir_at d s' j)"
proof (cases "s' = s \<and> j = i")
  case True
  then show ?thesis using geom_index[OF assms(1-3)]
    by (simp add: dir_at_def dir_put_def dir_in_seg_def part_dir_segment_def DIR_DEPTH_def)
next
  case False
  then have "s * buckets d * 4 + i \<noteq> s' * buckets d * 4 + j"
    using geom_flat_inj[of s' "buckets d" j s i] assms(3,4) by auto
  with False show ?thesis
    by (auto simp: dir_at_def dir_put_def dir_in_seg_def part_dir_segment_def DIR_DEPTH_def)
qed

lemma flh_put [simp]: "flh (dir_put s i e d) = flh d"
  by (simp add: flh_def fun_eq_iff)

lemma flh_set_freelist:
  "geom d \<Longrightarrow> s < segments d \<Longrightarrow> flh (set_freelist s x d) s' = (if s' = s then unat x else flh d s')"
  by (auto simp: flh_def set_freelist_def geom_def)

section \<open>Moving one row between the lists\<close>

lemma links_okD:
  assumes "links_ok nx pv f B fl cs R"
  shows "chain nx f fl" "back_links pv 0 fl" "b < B \<Longrightarrow> chain nx (nx (b * 4)) (cs b)"
    "b < B \<Longrightarrow> c < B \<Longrightarrow> b \<noteq> c \<Longrightarrow> set (cs b) \<inter> set (cs c) = {}"
    "b < B \<Longrightarrow> set fl \<inter> set (cs b) = {}" "b < B \<Longrightarrow> R \<inter> set (cs b) = {}" "R \<inter> set fl = {}"
    "set fl \<union> R \<union> (\<Union>b<B. set (cs b)) = rows B"
    "set fl \<subseteq> rows B" "R \<subseteq> rows B" "b < B \<Longrightarrow> set (cs b) \<subseteq> rows B"
proof -
  show "set fl \<union> R \<union> (\<Union>b<B. set (cs b)) = rows B" using assms by (simp add: links_ok_def)
  then show "set fl \<subseteq> rows B" "R \<subseteq> rows B" "b < B \<Longrightarrow> set (cs b) \<subseteq> rows B" by blast+
qed (use assms in \<open>simp_all add: links_ok_def\<close>)

lemma rows_iff: "i \<in> rows B \<longleftrightarrow> i < B * 4 \<and> i mod 4 \<noteq> 0"
  by (simp add: rows_def)

lemma head_not_row [simp]: "b * 4 \<notin> rows B"
  by (simp add: rows_def)

lemma row_nonzero: "i \<in> rows B \<Longrightarrow> 0 < i"
  by (auto simp: rows_def)

lemma links_ok_cong:
  assumes "\<And>i. i < B * 4 \<Longrightarrow> nx i = nx' i" "\<And>i. i \<in> set fl \<Longrightarrow> pv i = pv' i"
  shows "links_ok nx pv f B fl cs R \<longleftrightarrow> links_ok nx' pv' f B fl cs R"
proof -
  have *: "links_ok nx' pv' f B fl cs R"
    if eq: "\<And>i. i < B * 4 \<Longrightarrow> nx i = nx' i" "\<And>i. i \<in> set fl \<Longrightarrow> pv i = pv' i"
      and l: "links_ok nx pv f B fl cs R" for nx pv nx' pv'
  proof -
    note D = links_okD[OF l]
    have fl: "\<And>i. i \<in> set fl \<Longrightarrow> i < B * 4" using D(9) by (auto simp: rows_def)
    have cs: "\<And>b i. b < B \<Longrightarrow> i \<in> set (cs b) \<Longrightarrow> i < B * 4" using D(11) by (auto simp: rows_def)
    have 1: "chain nx' f fl" using D(1) chain_cong[of fl nx nx' f] eq(1) fl by blast
    have 2: "back_links pv' 0 fl" using D(2) back_links_cong[of fl pv pv' 0] eq(2) fl by blast
    have 3: "chain nx' (nx' (b * 4)) (cs b)" if "b < B" for b
      using D(3)[OF that] chain_cong[of "cs b" nx nx'] eq(1) cs[OF that] that by simp
    show ?thesis using l 1 2 3 by (simp add: links_ok_def)
  qed
  show ?thesis by (rule iffI; erule *[rotated 2]) (simp_all add: assms)
qed

lemma links_free:
  assumes l: "links_ok nx pv f B fl cs R" and e: "e \<in> R" and z: "pv e = 0"
  shows "links_ok (nx(e := f)) (if f = 0 then pv else pv(f := e)) e B (e # fl) cs (R - {e})"
proof -
  note D = links_okD[OF l]
  have e1: "e \<notin> set fl" "\<And>b. b < B \<Longrightarrow> e \<notin> set (cs b)" "e \<in> rows B" using D(6,7,10) e by auto
  have e0: "e \<noteq> 0" "\<And>b. b * 4 \<noteq> e" using e1(3) head_not_row row_nonzero by auto
  have b: "back_links (if f = 0 then pv else pv(f := e)) 0 (e # fl)"
  proof (cases fl)
    case Nil then show ?thesis using D(1) z by auto
  next
    case (Cons x xs)
    then show ?thesis using D(1,2) z e1(1) chain_distinct[OF D(1)] by auto
  qed
  have "chain (nx(e := f)) e (e # fl)" using D(1) e1(1) e0 by simp
  moreover have "chain (nx(e := f)) ((nx(e := f)) (b * 4)) (cs b)" if "b < B" for b
    using D(3)[OF that] e1(2)[OF that] e0(2) by simp
  moreover have "set (e # fl) \<inter> set (cs b) = {} \<and> (R - {e}) \<inter> set (cs b) = {}" if "b < B" for b
    using D(5)[OF that] D(6)[OF that] e1(2)[OF that] by auto
  moreover have "(R - {e}) \<inter> set (e # fl) = {}" using D(7) by auto
  moreover have "set (e # fl) \<union> (R - {e}) \<union> (\<Union>b<B. set (cs b)) = rows B" using D(8) e by auto
  ultimately show ?thesis using b D(4) by (simp add: links_ok_def)
qed

lemma chain_cut: "chain nx i (us @ p # e # vs) \<Longrightarrow> chain (nx(p := nx e)) i (us @ p # vs)"
proof (induction us arbitrary: i)
  case Nil
  then have "chain nx (nx e) vs" "p \<notin> set vs" "i = p" "p \<noteq> 0" using chain_distinct[OF Nil] by auto
  then show ?case unfolding append_Nil chain.simps fun_upd_same by (simp only: chain_upd simp_thms)
next
  case (Cons u us)
  then have "u \<noteq> p" using chain_distinct[OF Cons.prems] by auto
  with Cons show ?case by auto
qed

lemma links_cut:
  assumes l: "links_ok nx pv f B fl cs R" and b: "b < B" and d: "b * 4 # cs b = us @ p # e # vs"
  shows "links_ok (nx(p := nx e)) pv f B fl (cs(b := tl (us @ p # vs))) (insert e R)"
proof -
  note D = links_okD[OF l]
  have in_b: "set (cs b) \<subseteq> rows B" by (rule D(11)[OF b])
  have dist: "distinct (b * 4 # cs b)" using chain_distinct[OF D(3)[OF b]] in_b head_not_row by auto
  have e: "e \<in> set (cs b)" using d by (cases us) auto
  have cs': "set (tl (us @ p # vs)) = set (cs b) - {e}" using d dist by (cases us) auto
  have p: "p = b * 4 \<or> p \<in> set (cs b)" using d by (cases us) auto
  have pfl: "p \<notin> set fl" using p D(5)[OF b] D(9) head_not_row by blast
  have pc: "p \<notin> set (cs c)" "p \<noteq> c * 4" if "c < B" "c \<noteq> b" for c
    using p D(4)[OF b that(1)] that D(11)[OF that(1)] in_b head_not_row by auto
  have 3: "chain (nx(p := nx e)) ((nx(p := nx e)) (b * 4)) (tl (us @ p # vs))"
  proof (cases us)
    case Nil
    then show ?thesis using d D(3)[OF b] dist by auto
  next
    case (Cons u us')
    then have "cs b = us' @ p # e # vs" "p \<noteq> b * 4" using d dist by auto
    then show ?thesis using chain_cut[of nx "nx (b * 4)" us' p e vs] D(3)[OF b] Cons by simp
  qed
  have 4: "chain (nx(p := nx e)) ((nx(p := nx e)) (c * 4)) (cs c)" if "c < B" "c \<noteq> b" for c
    using D(3)[OF that(1)] pc[OF that] by (auto)
  show ?thesis unfolding links_ok_def
  proof (intro conjI)
    show "\<forall>c<B. \<forall>c'<B. c \<noteq> c' \<longrightarrow> set ((cs(b := tl (us @ p # vs))) c) \<inter> set ((cs(b := tl (us @ p # vs))) c') = {}"
      using D(4) b cs' by auto
    show "\<forall>c<B. set fl \<inter> set ((cs(b := tl (us @ p # vs))) c) = {} \<and> insert e R \<inter> set ((cs(b := tl (us @ p # vs))) c) = {}"
    proof (intro allI impI)
      fix c assume c: "c < B"
      show "set fl \<inter> set ((cs(b := tl (us @ p # vs))) c) = {} \<and> insert e R \<inter> set ((cs(b := tl (us @ p # vs))) c) = {}"
        using D(5)[OF c] D(6)[OF c] D(4)[OF b c] e cs' by (cases "c = b") auto
    qed
    show "insert e R \<inter> set fl = {}" using D(7) D(5)[OF b] e by auto
    have "(\<Union>c<B. set ((cs(b := tl (us @ p # vs))) c)) \<union> {e} = (\<Union>c<B. set (cs c))"
      using cs' b e by (auto split: if_splits)
    then show "set fl \<union> insert e R \<union> (\<Union>c<B. set ((cs(b := tl (us @ p # vs))) c)) = rows B"
      using D(8) by auto
    show "chain (nx(p := nx e)) f fl" "back_links pv 0 fl" using D(1,2) pfl by simp_all
    show "\<forall>c<B. chain (nx(p := nx e)) ((nx(p := nx e)) (c * 4)) ((cs(b := tl (us @ p # vs))) c)"
    proof (intro allI impI)
      fix c assume "c < B"
      then show "chain (nx(p := nx e)) ((nx(p := nx e)) (c * 4)) ((cs(b := tl (us @ p # vs))) c)"
        using 3 4[of c] by (cases "c = b") (simp_all del: chain_upd fun_upd_apply add: fun_upd_same fun_upd_other)
    qed
  qed
qed

lemma links_pop:
  assumes l: "links_ok nx pv f B (e # fl) cs R"
  shows "links_ok nx (if nx e = 0 then pv else pv(nx e := 0)) (nx e) B fl cs (insert e R)"
proof -
  note D = links_okD[OF l]
  have e: "e \<notin> set fl" "\<And>b. b < B \<Longrightarrow> e \<notin> set (cs b)" using chain_distinct[OF D(1)] D(5) by auto
  have b: "back_links (if nx e = 0 then pv else pv(nx e := 0)) 0 fl"
  proof (cases fl)
    case (Cons x xs)
    then have "nx e = x" "x \<noteq> 0" "x \<notin> set xs" using D(1) chain_distinct[OF D(1)] by auto
    then show ?thesis using Cons D(2) by simp
  qed simp
  have "chain nx (nx e) fl" using D(1) by simp
  moreover have "set fl \<inter> set (cs b) = {} \<and> insert e R \<inter> set (cs b) = {}" if "b < B" for b
    using D(5)[OF that] D(6)[OF that] e(2)[OF that] by auto
  moreover have "insert e R \<inter> set fl = {}" using D(7) e(1) by auto
  moreover have "set fl \<union> insert e R \<union> (\<Union>b<B. set (cs b)) = rows B" using D(8) by auto
  ultimately show ?thesis using b D(3,4) by (simp add: links_ok_def)
qed

lemma back_links_split:
  "back_links pv q (us @ x # vs) \<longleftrightarrow> back_links pv q us \<and> pv x = last (q # us) \<and> back_links pv x vs"
  by (induction us arbitrary: q) auto

lemma back_links_cut:
  assumes "back_links pv q (us @ e # vs)" "distinct (us @ e # vs)"
  shows "back_links (if vs = [] then pv else pv(hd vs := pv e)) q (us @ vs)"
  using assms by (cases vs) (auto simp: back_links_split)

lemma links_unlink:
  assumes l: "links_ok nx pv f B (us @ p # e # vs) cs R"
  shows "links_ok (nx(p := nx e)) (if nx e = 0 then pv else pv(nx e := pv e)) f B (us @ p # vs) cs (insert e R)"
    and "pv e = p" "pv e \<noteq> 0"
proof -
  note D = links_okD[OF l]
  have dist: "distinct (us @ p # e # vs)" by (rule chain_distinct[OF D(1)])
  have p: "p \<in> rows B" "\<And>b. b < B \<Longrightarrow> p \<notin> set (cs b)" using D(9) D(5) by auto
  have e: "\<And>b. b < B \<Longrightarrow> e \<notin> set (cs b)" using D(5) by auto
  show pv: "pv e = p" using D(2) by (simp add: back_links_split)
  then show "pv e \<noteq> 0" using p(1) row_nonzero by auto
  have "chain nx (nx e) vs" using D(1) chain_suffix[of nx f "us @ [p]" e vs] by simp
  then have hd: "(nx e = 0) = (vs = [])" "vs \<noteq> [] \<Longrightarrow> hd vs = nx e" by (cases vs; simp)+
  have "back_links (if nx e = 0 then pv else pv(nx e := pv e)) 0 (us @ p # vs)"
    using back_links_cut[of pv 0 "us @ [p]" e vs] D(2) dist hd by (auto split: if_splits)
  moreover have "chain (nx(p := nx e)) f (us @ p # vs)" by (rule chain_cut[OF D(1)])
  moreover have "chain (nx(p := nx e)) ((nx(p := nx e)) (b * 4)) (cs b)" if "b < B" for b
    using D(3)[OF that] p(2)[OF that] p(1) head_not_row[of b B] by (auto simp del: head_not_row)
  moreover have "set (us @ p # vs) \<inter> set (cs b) = {} \<and> insert e R \<inter> set (cs b) = {}" if "b < B" for b
    using D(5)[OF that] D(6)[OF that] by auto
  moreover have "insert e R \<inter> set (us @ p # vs) = {}" using D(7) dist by auto
  moreover have "set (us @ p # vs) \<union> insert e R \<union> (\<Union>b<B. set (cs b)) = rows B" using D(8) by auto
  ultimately show "links_ok (nx(p := nx e)) (if nx e = 0 then pv else pv(nx e := pv e)) f B (us @ p # vs) cs (insert e R)"
    using D(4) unfolding links_ok_def by simp
qed

lemma links_link:
  assumes l: "links_ok nx pv f B fl cs R" and e: "e \<in> R" and b: "b < B"
  shows "links_ok (nx(e := nx (b * 4), b * 4 := e)) pv f B fl (cs(b := e # cs b)) (R - {e})"
proof -
  note D = links_okD[OF l]
  let ?n = "nx(e := nx (b * 4), b * 4 := e)"
  have e1: "e \<notin> set fl" "\<And>c. c < B \<Longrightarrow> e \<notin> set (cs c)" "e \<in> rows B" using D(6,7,10) e by auto
  have e0: "e \<noteq> 0" "\<And>c. c * 4 \<noteq> e" using e1(3) head_not_row row_nonzero by auto
  have h: "b * 4 \<notin> set fl" "\<And>c. c < B \<Longrightarrow> b * 4 \<notin> set (cs c)" using D(9,11) head_not_row by blast+
  have "chain ?n f fl" using D(1) e1(1) h(1) by simp
  moreover have "chain ?n (?n (c * 4)) ((cs(b := e # cs b)) c)" if "c < B" for c
    using D(3)[OF that] e1(2)[OF that] h(2)[OF that] e0 by (auto simp: e0(2)[symmetric])
  moreover have "set ((cs(b := e # cs b)) c) \<inter> set ((cs(b := e # cs b)) c') = {}"
    if "c < B" "c' < B" "c \<noteq> c'" for c c'
    using D(4)[OF that] e1(2)[OF that(1)] e1(2)[OF that(2)] that(3) by auto
  moreover have "set fl \<inter> set ((cs(b := e # cs b)) c) = {} \<and> (R - {e}) \<inter> set ((cs(b := e # cs b)) c) = {}"
    if "c < B" for c using D(5)[OF that] D(6)[OF that] e1(1) by auto
  moreover have "(R - {e}) \<inter> set fl = {}" using D(7) by auto
  moreover have "set fl \<union> (R - {e}) \<union> (\<Union>c<B. set ((cs(b := e # cs b)) c)) = rows B"
  proof -
    have "(\<Union>c<B. set ((cs(b := e # cs b)) c)) = insert e (\<Union>c<B. set (cs c))"
      using b by (auto split: if_splits)
    then show ?thesis using D(8) e by auto
  qed
  ultimately show ?thesis using D(2) unfolding links_ok_def by blast
qed

section \<open>The lists are determined by the segment\<close>

lemma follow_chain: "chain nx i xs \<Longrightarrow> length xs \<le> n \<Longrightarrow> follow n nx i = xs"
proof (induction xs arbitrary: n i)
  case Nil
  then show ?case by (cases n) auto
next
  case (Cons x xs)
  then show ?case by (cases n) auto
qed

lemma rows_length:
  assumes "distinct xs" "set xs \<subseteq> rows B"
  shows "length xs \<le> B * 4"
proof -
  have "set xs \<subseteq> {..<B * 4}" using assms(2) by (auto simp: rows_def)
  then have "card (set xs) \<le> card {..<B * 4}" by (intro card_mono) auto
  then show ?thesis using distinct_card[OF assms(1)] by simp
qed

lemma seg_links_free: "seg_links d s fl cs R \<Longrightarrow> seg_free d s = fl"
  unfolding seg_links_def seg_free_def
  using follow_chain rows_length chain_distinct links_okD(1,9) by metis

lemma seg_links_chain: "seg_links d s fl cs R \<Longrightarrow> b < buckets d \<Longrightarrow> seg_chain d s b = cs b"
  unfolding seg_links_def seg_chain_def
  using follow_chain rows_length chain_distinct links_okD(3,11) by metis

lemma links_ok_chains: "(\<And>b. b < B \<Longrightarrow> cs b = cs' b) \<Longrightarrow> links_ok nx pv f B fl cs R = links_ok nx pv f B fl cs' R"
  by (simp add: links_ok_def)

lemma seg_rep_inv: "seg_rep d s fl cs \<Longrightarrow> seg_inv d s"
proof -
  assume r: "seg_rep d s fl cs"
  then have l: "seg_links d s fl cs {}" by (simp add: seg_rep_def)
  have c: "\<And>b. b < buckets d \<Longrightarrow> seg_chain d s b = cs b" using seg_links_chain[OF l] .
  show ?thesis using r links_ok_chains[of "buckets d" "seg_chain d s" cs, OF c]
    by (simp add: seg_inv_def seg_rep_def seg_links_def seg_links_free[OF l] filled_ok_def c)
qed

lemma bucket_entries_rep: "seg_links d s fl cs R \<Longrightarrow> b < buckets d \<Longrightarrow> bucket_entries d s b = contents d s b (cs b)"
  by (simp add: bucket_entries_def seg_links_chain)

end
