(* ===== verification/Cache_Dir_Ops.thy ===== *)
theory Cache_Dir_Ops
  imports Cache_Dir_Inv
begin

text \<open>
  The operations of \<^verbatim>\<open>CacheDir.cc\<close> that move entries: what each does to the free list and the
  bucket chains of a segment (through the lemmas on links of \<open>Cache_Dir_Inv\<close>) and to the
  list of entries a bucket holds. \<open>frame s d d'\<close> says that an operation on segment
  \<open>s\<close> changes nothing outside of it.
\<close>

section \<open>Frames\<close>

definition params :: "part \<Rightarrow> nat \<times> nat \<times> u32 \<times> int \<times> int \<times> int \<times> int" where
  "params d = (segments d, buckets d, phase d, write_pos d, agg_pos d, agg_buf_pos d, start d)"

definition frame :: "nat \<Rightarrow> part \<Rightarrow> part \<Rightarrow> bool" where
  "frame s d d' \<longleftrightarrow> params d' = params d \<and> geom d' = geom d \<and>
     (\<forall>s' < segments d. s' \<noteq> s \<longrightarrow> flh d' s' = flh d s' \<and> (\<forall>j<buckets d * 4. dir_at d' s' j = dir_at d s' j))"

lemma frame_refl [simp]: "frame s d d"
  by (simp add: frame_def)

lemma frame_trans [trans]: "frame s d1 d2 \<Longrightarrow> frame s d2 d3 \<Longrightarrow> frame s d1 d3"
  by (auto simp: frame_def params_def)

lemma frame_params: "frame s d d' \<Longrightarrow> segments d' = segments d \<and> buckets d' = buckets d"
  by (simp add: frame_def params_def)

lemma frame_valid: "frame s d d' \<Longrightarrow> dir_valid d' e = dir_valid d e"
  by (simp add: frame_def params_def dir_valid_def part_in_phase_valid_def part_out_of_phase_valid_def)

lemma payload_sel [simp]:
  "dir_offset (payload e) = dir_offset e" "dir_tag (payload e) = dir_tag e"
  "dir_phase (payload e) = dir_phase e" "dir_head (payload e) = dir_head e"
  "payload (payload e) = payload e" "payload (dir_set_next i e) = payload e"
  by (simp_all add: payload_def dir_offset_def dir_tag_def dir_phase_def dir_head_def dir_set_next_def)

lemma payload_valid [simp]: "dir_valid d (payload e) = dir_valid d e" "stale d (payload e) = stale d e"
  by (simp_all add: dir_valid_def part_in_phase_valid_def part_out_of_phase_valid_def offset_of_def stale_def)

section \<open>One write\<close>

text \<open>A segment whose indices are in range.\<close>

definition seg_in :: "part \<Rightarrow> nat \<Rightarrow> nat \<Rightarrow> bool" where
  "seg_in d s i \<longleftrightarrow> geom d \<and> s < segments d \<and> i < buckets d * 4"

lemma seg_in_put [simp]:
  "seg_in (dir_put s i e d) s' j = seg_in d s' j" "seg_in (set_freelist s x d) s' j = seg_in d s' j"
  "seg_in (put_next s i k d) s' j = seg_in d s' j" "seg_in (put_prev s i k d) s' j = seg_in d s' j"
  "seg_in (put_prev_opt s p k d) s' j = seg_in d s' j"
  by (simp_all add: seg_in_def put_next_def put_prev_def put_prev_opt_def split: option.split)

lemma seg_in_less: "seg_in d s i \<Longrightarrow> i < 2 ^ 16"
  by (auto simp: seg_in_def geom_def)

lemma at_put: "seg_in d s i \<Longrightarrow> seg_in d s j \<Longrightarrow> dir_at (dir_put s i e d) s j = (if j = i then e else dir_at d s j)"
  by (simp add: seg_in_def dir_at_put)

lemma at_put_next: "seg_in d s i \<Longrightarrow> seg_in d s j \<Longrightarrow>
    dir_at (put_next s i k d) s j = (if j = i then dir_set_next k (dir_at d s i) else dir_at d s j)"
  by (simp add: put_next_def at_put)

lemma at_put_prev: "seg_in d s i \<Longrightarrow> seg_in d s j \<Longrightarrow>
    dir_at (put_prev s i k d) s j = (if j = i then dir_set_prev k (dir_at d s i) else dir_at d s j)"
  by (simp add: put_prev_def at_put)

lemma at_put_prev_opt: "(i \<noteq> 0 \<Longrightarrow> seg_in d s i) \<Longrightarrow> seg_in d s j \<Longrightarrow>
    dir_at (put_prev_opt s (dir_from_offset i) k d) s j =
      (if i \<noteq> 0 \<and> j = i then dir_set_prev k (dir_at d s i) else dir_at d s j)"
  by (auto simp: put_prev_opt_def dir_from_offset_def at_put_prev)

lemma flh_ops [simp]:
  "flh (put_next s i k d) = flh d" "flh (put_prev s i k d) = flh d" "flh (put_prev_opt s p k d) = flh d"
  by (simp_all add: put_next_def put_prev_def put_prev_opt_def split: option.split)

lemma flh_set: "seg_in d s i \<Longrightarrow> seg_in d s k \<Longrightarrow> flh (set_freelist s (word_of_nat k) d) s = k"
  using seg_in_less[of d s k] by (simp add: seg_in_def flh_set_freelist unat_of_nat take_bit_nat_eq_self)

lemma unat_link: "k < 2 ^ 16 \<Longrightarrow> unat (word_of_nat k :: u16) = k"
  by (simp add: unat_of_nat take_bit_nat_eq_self)

lemma frame_put: "seg_in d s i \<Longrightarrow> frame s d (dir_put s i e d)"
  by (simp add: frame_def params_def dir_at_put seg_in_def)

lemma frame_ops [simp]:
  "seg_in d s i \<Longrightarrow> frame s d (put_next s i k d)" "seg_in d s i \<Longrightarrow> frame s d (put_prev s i k d)"
  "(i \<noteq> 0 \<Longrightarrow> seg_in d s i) \<Longrightarrow> frame s d (put_prev_opt s (dir_from_offset i) k d)"
  by (simp_all add: put_next_def put_prev_def put_prev_opt_def frame_put dir_from_offset_def)

lemma frame_set_freelist: "seg_in d s i \<Longrightarrow> frame s d (set_freelist s x d)"
  by (simp add: frame_def params_def seg_in_def flh_set_freelist)

lemma upd_stat [simp]:
  "dir_at (d\<lparr>dirty := b\<rparr>) = dir_at d" "flh (d\<lparr>dirty := b\<rparr>) = flh d"
  "dir_at (inc_used n d) = dir_at d" "flh (inc_used n d) = flh d" "freelist (inc_used n d) = freelist d"
  "geom (d\<lparr>dirty := b\<rparr>) = geom d" "geom (inc_used n d) = geom d"
  "segments (inc_used n d) = segments d" "buckets (inc_used n d) = buckets d"
  "dir_valid (inc_used n d) = dir_valid d" "dir_valid (d\<lparr>dirty := b\<rparr>) = dir_valid d"
  by (auto simp: fun_eq_iff dir_at_def flh_def inc_used_def part_dir_segment_def geom_def dir_valid_def
      part_in_phase_valid_def part_out_of_phase_valid_def)

lemma seg_in_stat [simp]:
  "seg_in (d\<lparr>dirty := b\<rparr>) s i = seg_in d s i" "seg_in (inc_used n d) s i = seg_in d s i"
  by (simp_all add: seg_in_def)

lemma frame_stat [simp]: "frame s d (d\<lparr>dirty := b\<rparr>)" "frame s d (inc_used n d)"
  by (simp_all add: frame_def params_def) (simp_all add: inc_used_def)

section \<open>Deleting an entry\<close>

lemma used_stable [simp]:
  "direntries_used (put_next s i k d) = direntries_used d"
  "direntries_used (put_prev_opt s p k d) = direntries_used d"
  by (simp_all add: put_next_def put_prev_def put_prev_opt_def split: option.split)

lemma delete_Some_effect:
  assumes "seg_in d s e" "seg_in d s p" "e \<noteq> p" "flh d s \<noteq> 0 \<Longrightarrow> seg_in d s (flh d s)"
    "flh d s \<noteq> e" "flh d s \<noteq> p \<or> flh d s = 0" "dir_delete_entry e (Some p) s d = (r, d')"
  shows "r = dir_from_offset (nxt d s e)" "flh d' s = e" "frame s d d'" "direntries_used d' = direntries_used d"
    "seg_in d s j \<Longrightarrow> dir_at d' s j =
      (if j = e then dir_set_next (flh d s) dir_clear
       else if j = p then dir_set_next (nxt d s e) (dir_at d s p)
       else if flh d s \<noteq> 0 \<and> j = flh d s then dir_set_prev e (dir_at d s j) else dir_at d s j)"
proof -
  let ?d1 = "dir_put s e dir_clear (d\<lparr>dirty := True\<rparr>)"
  let ?d2 = "put_next s p (nxt d s e) ?d1"
  let ?d3 = "put_next s e (flh d s) ?d2"
  let ?d4 = "put_prev_opt s (dir_from_offset (flh d s)) e ?d3"
  have f: "unat (freelist (d\<lparr>dirty := True\<rparr>) ! s) = flh d s" by (simp add: flh_def)
  have r: "r = dir_from_offset (nxt d s e)" and d': "d' = set_freelist s (word_of_nat e) ?d4"
    using assms(7) unfolding dir_delete_entry.simps Let_def f nxt_def by auto
  show "r = dir_from_offset (nxt d s e)" by (rule r)
  show "flh d' s = e" unfolding d' using assms(1) by (simp add: flh_set)
  show "direntries_used d' = direntries_used d" by (simp add: d')
  have "frame s d ?d1" using frame_put[of "d\<lparr>dirty := True\<rparr>" s e] assms(1) frame_trans frame_stat(1)
    by (metis seg_in_stat(1))
  also have "frame s ?d1 ?d2" using assms(2) by simp
  also have "frame s ?d2 ?d3" using assms(1) by simp
  also have "frame s ?d3 ?d4" using assms(4) by simp
  also have "frame s ?d4 d'" unfolding d' using assms(1) by (intro frame_set_freelist[of _ s e]) simp
  finally show "frame s d d'" .
  show "dir_at d' s j = (if j = e then dir_set_next (flh d s) dir_clear
       else if j = p then dir_set_next (nxt d s e) (dir_at d s p)
       else if flh d s \<noteq> 0 \<and> j = flh d s then dir_set_prev e (dir_at d s j) else dir_at d s j)"
    if j: "seg_in d s j"
    unfolding d' using assms(1-6) j by (cases "flh d s = 0") (simp_all add: at_put_prev_opt at_put_next at_put)
qed

lemma seg_linksI:
  assumes "links_ok nx pv f (buckets d) fl cs R" "frame s d d'" "seg_links d s fl0 cs0 R0" "flh d' s = f"
    "\<And>i. i < buckets d * 4 \<Longrightarrow> nx i = nxt d' s i" "\<And>i. i \<in> set fl \<Longrightarrow> pv i = prv d' s i"
  shows "seg_links d' s fl cs R"
  using assms(1-4) links_ok_cong[of "buckets d" nx "nxt d' s" fl pv "prv d' s" f cs R, OF assms(5,6)]
  by (simp add: seg_links_def frame_def params_def)

lemma seg_links_row: "seg_links d s fl cs R \<Longrightarrow> i \<in> rows (buckets d) \<Longrightarrow> seg_in d s i"
  by (simp add: seg_links_def seg_in_def rows_def)

lemma seg_links_head: "seg_links d s fl cs R \<Longrightarrow> b < buckets d \<Longrightarrow> seg_in d s (b * 4)"
  by (simp add: seg_links_def seg_in_def)

lemma seg_links_flh:
  assumes "seg_links d s fl cs R"
  shows "flh d s \<noteq> 0 \<Longrightarrow> flh d s \<in> set fl" "set fl \<subseteq> rows (buckets d)" "flh d s = 0 \<longleftrightarrow> fl = []"
proof -
  have l: "links_ok (nxt d s) (prv d s) (flh d s) (buckets d) fl cs R" using assms by (simp add: seg_links_def)
  show "flh d s \<noteq> 0 \<Longrightarrow> flh d s \<in> set fl" "flh d s = 0 \<longleftrightarrow> fl = []" using links_okD(1)[OF l] by (cases fl; simp)+
  show "set fl \<subseteq> rows (buckets d)" by (rule links_okD(9)[OF l])
qed

text \<open>Membership of the rows of the chain of bucket \<open>b\<close>, head included.\<close>

lemma seg_links_in_chain:
  assumes l: "seg_links d s fl cs R" and b: "b < buckets d" and i: "i \<in> set (b * 4 # cs b)"
  shows "seg_in d s i" "i \<notin> set fl" "i \<notin> R"
    "c < buckets d \<Longrightarrow> c \<noteq> b \<Longrightarrow> i \<notin> set (c * 4 # cs c)" "flh d s \<noteq> i \<or> flh d s = 0"
proof -
  have k: "links_ok (nxt d s) (prv d s) (flh d s) (buckets d) fl cs R" using l by (simp add: seg_links_def)
  note D = links_okD[OF k]
  show "seg_in d s i" using i seg_links_row[OF l] seg_links_head[OF l b] D(11)[OF b] by auto
  show fl: "i \<notin> set fl" using i D(5)[OF b] D(9) head_not_row by auto
  show "i \<notin> R" using i D(6)[OF b] D(10) head_not_row by auto
  show "i \<notin> set (c * 4 # cs c)" if "c < buckets d" "c \<noteq> b"
    using i D(4)[OF b that(1)] D(11)[OF b] D(11)[OF that(1)] that head_not_row by auto
  show "flh d s \<noteq> i \<or> flh d s = 0" using seg_links_flh(1)[OF l] fl by auto
qed

lemma seg_links_distinct:
  assumes l: "seg_links d s fl cs R" and b: "b < buckets d"
  shows "distinct (b * 4 # cs b)" "chain (nxt d s) (nxt d s (b * 4)) (cs b)" "0 \<notin> set (cs b)"
proof -
  have k: "links_ok (nxt d s) (prv d s) (flh d s) (buckets d) fl cs R" using l by (simp add: seg_links_def)
  note D = links_okD[OF k]
  show c: "chain (nxt d s) (nxt d s (b * 4)) (cs b)" by (rule D(3)[OF b])
  show "0 \<notin> set (cs b)" by (rule chain_not_zero[OF c])
  show "distinct (b * 4 # cs b)" using chain_distinct[OF c] D(11)[OF b] head_not_row by auto
qed

lemma chain_next:
  "chain nx i (us @ x # vs) \<Longrightarrow> nx x = (case vs of [] \<Rightarrow> 0 | v # _ \<Rightarrow> v)"
  by (drule chain_suffix) (cases vs; simp)

lemma seg_links_next:
  assumes l: "seg_links d s fl cs R" and b: "b < buckets d" and d: "b * 4 # cs b = us @ x # vs"
  shows "nxt d s x = (case vs of [] \<Rightarrow> 0 | v # _ \<Rightarrow> v)"
    "next_dir d s x = (case vs of [] \<Rightarrow> None | v # _ \<Rightarrow> Some v)"
proof -
  note D = seg_links_distinct[OF l b]
  show n: "nxt d s x = (case vs of [] \<Rightarrow> 0 | v # _ \<Rightarrow> v)"
  proof (cases us)
    case Nil
    then show ?thesis using D(2) d by (cases vs) auto
  next
    case (Cons u us')
    then show ?thesis using chain_next[of "nxt d s" "nxt d s (b * 4)" us' x vs] D(2) d by simp
  qed
  have "0 \<notin> set vs" using D(3) d by (cases us) auto
  then show "next_dir d s x = (case vs of [] \<Rightarrow> None | v # _ \<Rightarrow> Some v)"
    using n by (auto simp: next_dir_def nxt_def dir_from_offset_def split: list.splits)
qed

lemma seg_links_move:
  assumes l: "seg_links d s fl cs R" and b: "b < buckets d" and d: "b * 4 # cs b = us @ p # e # vs"
    and fr: "frame s d d'" and f: "flh d' s = e"
    and nx: "\<And>i. seg_in d s i \<Longrightarrow> nxt d' s i = (if i = e then flh d s else if i = p then nxt d s e else nxt d s i)"
    and pv: "\<And>i. i \<in> set fl \<Longrightarrow> prv d' s i = (if i = flh d s then e else prv d s i)" "prv d' s e = 0"
  shows "seg_links d' s (e # fl) (cs(b := tl (us @ p # vs))) R"
proof -
  have k: "links_ok (nxt d s) (prv d s) (flh d s) (buckets d) fl cs R" using l by (simp add: seg_links_def)
  have in_ch: "p \<in> set (b * 4 # cs b)" "e \<in> set (b * 4 # cs b)" unfolding d by simp_all
  note E = seg_links_in_chain[OF l b in_ch(2)]
  let ?pv = "let pv = (prv d s)(e := 0) in if flh d s = 0 then pv else pv(flh d s := e)"
  have 1: "links_ok ((nxt d s)(p := nxt d s e)) ((prv d s)(e := 0)) (flh d s) (buckets d) fl (cs(b := tl (us @ p # vs))) (insert e R)"
    using links_cut[OF k b d] E(2) by (simp add: links_ok_def)
  have 2: "links_ok ((nxt d s)(p := nxt d s e, e := flh d s)) ?pv e (buckets d) (e # fl) (cs(b := tl (us @ p # vs))) R"
    using links_free[OF 1, of e] E(3) by (simp add: Let_def)
  have inr: "seg_in d s i" if "i < buckets d * 4" for i using l that by (simp add: seg_links_def seg_in_def)
  have nx': "((nxt d s)(p := nxt d s e, e := flh d s)) i = nxt d' s i" if "i < buckets d * 4" for i
    using nx[OF inr[OF that]] by simp
  have "e \<in> set (cs b)" using d seg_links_distinct(1)[OF l b] by (cases us) auto
  then have e0: "e \<noteq> 0" using seg_links_distinct(3)[OF l b] by metis
  have pv': "?pv i = prv d' s i" if "i \<in> set (e # fl)" for i
    using that pv E(2,5) e0 seg_links_flh(3)[OF l] by (auto simp: Let_def)
  show ?thesis by (rule seg_linksI[OF 2 fr l f nx' pv'])
qed

lemma delete_Some:
  assumes l: "seg_links d s fl cs R" and b: "b < buckets d" and d: "b * 4 # cs b = us @ p # e # vs"
    and del: "dir_delete_entry e (Some p) s d = (r, d')"
  shows "seg_links d' s (e # fl) (cs(b := tl (us @ p # vs))) R"
    "r = (case vs of [] \<Rightarrow> None | v # _ \<Rightarrow> Some v)" "frame s d d'" "direntries_used d' = direntries_used d"
    "seg_in d s j \<Longrightarrow> emp d' s j \<longleftrightarrow> j = e \<or> emp d s j"
    "seg_in d s j \<Longrightarrow> j \<notin> set fl \<Longrightarrow> j \<noteq> e \<Longrightarrow> payload (dir_at d' s j) = payload (dir_at d s j)"
proof -
  have k: "links_ok (nxt d s) (prv d s) (flh d s) (buckets d) fl cs R" using l by (simp add: seg_links_def)
  note D = links_okD[OF k]
  have dist: "distinct (b * 4 # cs b)" by (rule seg_links_distinct(1)[OF l b])
  have in_ch: "p \<in> set (b * 4 # cs b)" "e \<in> set (b * 4 # cs b)" unfolding d by simp_all
  note P = seg_links_in_chain[OF l b in_ch(1)] and E = seg_links_in_chain[OF l b in_ch(2)]
  have ne: "e \<noteq> p" and e: "e \<in> set (cs b)" using d dist by (cases us; auto)+
  have e0: "e \<noteq> 0" "\<And>c. e \<noteq> c * 4" using e D(11)[OF b] head_not_row row_nonzero by auto
  have f: "flh d s \<noteq> 0 \<Longrightarrow> seg_in d s (flh d s)"
    using seg_links_flh(1,2)[OF l] seg_links_row[OF l] by blast
  note eff = delete_Some_effect[OF E(1) P(1) ne f _ P(5) del, simplified]
  have fe: "flh d s \<noteq> e" using E(5) e0 by auto
  note eff = eff[OF fe]
  show r: "r = (case vs of [] \<Rightarrow> None | v # _ \<Rightarrow> Some v)"
    using eff(1) seg_links_next(2)[OF l b, of "us @ [p]" e vs] d by (simp add: next_dir_def nxt_def)
  show fr: "frame s d d'" and "direntries_used d' = direntries_used d" by (rule eff(3,4))+
  show "seg_in d s j \<Longrightarrow> emp d' s j \<longleftrightarrow> j = e \<or> emp d s j"
    using eff(5)[of j] by (auto simp: emp_def dir_simps)
  show "payload (dir_at d' s j) = payload (dir_at d s j)" if j: "seg_in d s j" "j \<notin> set fl" "j \<noteq> e"
    using eff(5)[OF j(1)] j seg_links_flh(1)[OF l] by auto
  have small: "flh d s < 2 ^ 16" "nxt d s e < 2 ^ 16"
    using unsigned_less[of "freelist d ! s"] unsigned_less[of "dir_next (dir_at d s e)"] by (simp_all add: flh_def nxt_def)
  show "seg_links d' s (e # fl) (cs(b := tl (us @ p # vs))) R"
  proof (rule seg_links_move[OF l b d fr eff(2)])
    show "nxt d' s i = (if i = e then flh d s else if i = p then nxt d s e else nxt d s i)" if "seg_in d s i" for i
      using eff(5)[OF that] ne small by (auto simp: nxt_def dir_simps unat_link)
    show "prv d' s i = (if i = flh d s then e else prv d s i)" if "i \<in> set fl" for i
      using eff(5)[of i] that ne E(2) P(2) seg_links_flh(2)[OF l] row_nonzero[of i] seg_links_row[OF l, of i] seg_in_less[OF E(1)]
      by (auto simp: prv_def dir_simps unat_link)
    show "prv d' s e = 0" using eff(5)[OF E(1)] by (simp add: prv_def dir_simps)
  qed
qed

lemma delete_None_last:
  assumes l: "seg_links d s fl cs R" and b: "b < buckets d" and c: "cs b = []"
    and del: "dir_delete_entry (b * 4) None s d = (r, d')"
  shows "seg_links d' s fl cs R" "r = None" "frame s d d'" "direntries_used d' = direntries_used d"
    "seg_in d s j \<Longrightarrow> dir_at d' s j = (if j = b * 4 then dir_clear else dir_at d s j)"
proof -
  have h: "seg_in d s (b * 4)" by (rule seg_links_head[OF l b])
  have n: "next_dir d s (b * 4) = None" "nxt d s (b * 4) = 0"
    using seg_links_next[OF l b, of "[]" "b * 4" "[]"] c by simp_all
  have d': "d' = dir_put s (b * 4) dir_clear (d\<lparr>dirty := True\<rparr>)" and r: "r = None"
    using del n by (auto simp: next_dir_def Let_def)
  show "r = None" by (rule r)
  show at: "dir_at d' s j = (if j = b * 4 then dir_clear else dir_at d s j)" if "seg_in d s j" for j
    unfolding d' using h that by (simp add: at_put)
  show fr: "frame s d d'" unfolding d' using h frame_trans[OF frame_stat(1) frame_put] by simp
  show "direntries_used d' = direntries_used d" by (simp add: d')
  have k: "links_ok (nxt d s) (prv d s) (flh d s) (buckets d) fl cs R" using l by (simp add: seg_links_def)
  have inr: "seg_in d s i" if "i < buckets d * 4" for i using l that by (simp add: seg_links_def seg_in_def)
  show "seg_links d' s fl cs R"
  proof (rule seg_linksI[OF k fr l])
    show "flh d' s = flh d s" by (simp add: d')
    show "nxt d s i = nxt d' s i" if "i < buckets d * 4" for i
      using at[OF inr[OF that]] n by (auto simp: nxt_def dir_simps)
    show "prv d s i = prv d' s i" if "i \<in> set fl" for i
      using at[of i] that seg_links_row[OF l, of i] seg_links_flh(2)[OF l] seg_links_in_chain(2)[OF l b, of "b * 4"]
      by (auto simp: prv_def)
  qed
qed

lemma delete_None_next:
  assumes l: "seg_links d s fl cs R" and b: "b < buckets d" and c: "cs b = n # vs"
    and del: "dir_delete_entry (b * 4) None s d = (r, d')"
  shows "seg_links d' s (n # fl) (cs(b := vs)) R" "r = Some (b * 4)" "frame s d d'"
    "direntries_used d' = direntries_used d"
    "seg_in d s j \<Longrightarrow> j \<notin> set fl \<Longrightarrow> j \<noteq> n \<Longrightarrow>
       payload (dir_at d' s j) = payload (dir_at d s (if j = b * 4 then n else j))"
    "seg_in d s j \<Longrightarrow> emp d' s j \<longleftrightarrow> j = n \<or> emp d s (if j = b * 4 then n else j)"
proof -
  let ?d1 = "dir_put s (b * 4) (dir_at d s n) (d\<lparr>dirty := True\<rparr>)"
  have h: "seg_in d s (b * 4)" by (rule seg_links_head[OF l b])
  have nx: "next_dir d s (b * 4) = Some n" using seg_links_next(2)[OF l b, of "[]" "b * 4" "n # vs"] c by simp
  obtain r' where del': "dir_delete_entry n (Some (b * 4)) s ?d1 = (r', d')" and r: "r = Some (b * 4)"
    using del nx by (auto simp: next_dir_def Let_def split: prod.splits)
  show "r = Some (b * 4)" by (rule r)
  have N: "seg_in d s n" "n \<notin> set fl" "flh d s \<noteq> n" "n \<noteq> b * 4"
    using seg_links_in_chain[OF l b, of n] seg_links_distinct[OF l b] c by auto
  have H: "flh d s \<noteq> b * 4 \<or> flh d s = 0" "b * 4 \<notin> set fl" using seg_links_in_chain(2,5)[OF l b, of "b * 4"] by simp_all
  have f: "flh d s \<noteq> 0 \<Longrightarrow> seg_in d s (flh d s)"
    using seg_links_flh(1,2)[OF l] seg_links_row[OF l] by blast
  have f1: "flh ?d1 s = flh d s" "seg_in ?d1 s j = seg_in d s j" for j by simp_all
  note eff = delete_Some_effect[where d = ?d1 and s = s and e = n and p = "b * 4", unfolded f1,
      OF N(1) h N(4) f N(3) H(1) del', simplified]
  show fr: "frame s d d'" using frame_trans[OF frame_trans[OF frame_stat(1) frame_put] eff(3)] h by simp
  show "direntries_used d' = direntries_used d" using eff(4) by simp
  have nn: "nxt ?d1 s n = nxt d s n" using N h by (simp add: nxt_def at_put)
  have at: "dir_at d' s j =
      (if j = n then dir_set_next (flh d s) dir_clear
       else if j = b * 4 then dir_set_next (nxt d s n) (dir_at d s n)
       else if flh d s \<noteq> 0 \<and> j = flh d s then dir_set_prev n (dir_at d s j) else dir_at d s j)" if "seg_in d s j" for j
  proof -
    have "dir_at ?d1 s j = (if j = b * 4 then dir_at d s n else dir_at d s j)" "dir_at ?d1 s (b * 4) = dir_at d s n"
      using that h by (simp_all add: at_put)
    then show ?thesis unfolding eff(5)[OF that] nn by presburger
  qed
  show "payload (dir_at d' s j) = payload (dir_at d s (if j = b * 4 then n else j))"
    if "seg_in d s j" "j \<notin> set fl" "j \<noteq> n"
    using at[OF that(1)] that seg_links_flh(1)[OF l] by auto
  show "emp d' s j \<longleftrightarrow> j = n \<or> emp d s (if j = b * 4 then n else j)" if "seg_in d s j"
    using at[OF that] H(2) seg_links_flh(1)[OF l] by (auto simp: emp_def dir_simps)
  have small: "flh d s < 2 ^ 16" "nxt d s n < 2 ^ 16"
    using unsigned_less[of "freelist d ! s"] unsigned_less[of "dir_next (dir_at d s n)"] by (simp_all add: flh_def nxt_def)
  have "seg_links d' s (n # fl) (cs(b := tl ([] @ b * 4 # vs))) R"
  proof (rule seg_links_move[OF l b _ fr eff(2)])
    show "nxt d' s i = (if i = n then flh d s else if i = b * 4 then nxt d s n else nxt d s i)" if "seg_in d s i" for i
      using at[OF that] small by (auto simp: nxt_def dir_simps unat_link)
    show "prv d' s i = (if i = flh d s then n else prv d s i)" if "i \<in> set fl" for i
    proof -
      have i: "i \<in> rows (buckets d)" using seg_links_flh(2)[OF l] that by auto
      have "i \<noteq> n" "i \<noteq> b * 4" using that N(2) H(2) by auto
      then show ?thesis using at[OF seg_links_row[OF l i]] row_nonzero[OF i] seg_in_less[OF N(1)]
        by (auto simp: prv_def dir_simps unat_link)
    qed
    show "prv d' s n = 0" using at[OF N(1)] by (simp add: prv_def dir_simps)
  qed (simp add: c)
  then show "seg_links d' s (n # fl) (cs(b := vs)) R" by simp
qed

section \<open>Steps on one bucket\<close>

definition pays :: "part \<Rightarrow> nat \<Rightarrow> nat list \<Rightarrow> dir list" where
  "pays d s xs = map (\<lambda>i. payload (dir_at d s i)) xs"

text \<open>A step from \<open>d\<close> to \<open>d'\<close> that changes the chain of bucket \<open>b\<close> to \<open>ch'\<close> and
  the free list to \<open>fl'\<close>, and leaves what the other buckets hold.\<close>

definition bucket_step ::
  "nat \<Rightarrow> nat \<Rightarrow> (nat \<Rightarrow> nat list) \<Rightarrow> nat list \<Rightarrow> part \<Rightarrow> part \<Rightarrow> nat list \<Rightarrow> nat list \<Rightarrow> bool" where
  "bucket_step s b cs fl d d' fl' ch' \<longleftrightarrow> seg_links d' s fl' (cs(b := ch')) {} \<and> frame s d d' \<and>
     ((\<forall>i\<in>set fl. emp d s i) \<longrightarrow> (\<forall>i\<in>set fl'. emp d' s i)) \<and>
     (\<forall>c<buckets d. c \<noteq> b \<longrightarrow> pays d' s (c * 4 # cs c) = pays d s (c * 4 # cs c))"

lemma bucket_step_refl: "seg_links d s fl cs {} \<Longrightarrow> bucket_step s b cs fl d d fl (cs b)"
  by (simp add: bucket_step_def)

lemma bucket_step_trans:
  assumes "bucket_step s b cs fl d d1 fl1 ch1" "bucket_step s b (cs(b := ch1)) fl1 d1 d2 fl2 ch2"
  shows "bucket_step s b cs fl d d2 fl2 ch2"
  using assms frame_trans[of s d d1 d2] frame_params[of s d d1] by (auto simp: bucket_step_def)

lemma bucket_step_links: "bucket_step s b cs fl d d' fl' ch' \<Longrightarrow> seg_links d' s fl' (cs(b := ch')) {}"
  and bucket_step_frame: "bucket_step s b cs fl d d' fl' ch' \<Longrightarrow> frame s d d'"
  by (simp_all add: bucket_step_def)

definition hd_opt :: "'a list \<Rightarrow> 'a option" where
  "hd_opt xs = (case xs of [] \<Rightarrow> None | x # _ \<Rightarrow> Some x)"

lemma hd_opt_simps [simp]: "hd_opt [] = None" "hd_opt (x # xs) = Some x"
  by (simp_all add: hd_opt_def)

definition last_opt :: "'a list \<Rightarrow> 'a option" where
  "last_opt xs = (if xs = [] then None else Some (last xs))"

lemma last_row_simps [simp]: "last_opt [] = None" "last_opt (xs @ [x]) = Some x"
  by (simp_all add: last_opt_def)

text \<open>Freeing row \<open>n\<close> of bucket \<open>b\<close>: the other buckets do not notice.\<close>

lemma bucket_stepI:
  assumes l: "seg_links d s fl cs {}" and b: "b < buckets d" and n: "n \<in> set (cs b)"
    and "seg_links d' s (n # fl) (cs(b := ch')) {}" "frame s d d'"
    and pay: "\<And>j. seg_in d s j \<Longrightarrow> j \<notin> set fl \<Longrightarrow> j \<noteq> n \<Longrightarrow> j \<noteq> b * 4 \<Longrightarrow> payload (dir_at d' s j) = payload (dir_at d s j)"
    and em: "\<And>j. seg_in d s j \<Longrightarrow> j \<in> rows (buckets d) \<Longrightarrow> emp d' s j \<longleftrightarrow> j = n \<or> emp d s j"
  shows "bucket_step s b cs fl d d' (n # fl) ch'"
proof -
  have "pays d' s (c * 4 # cs c) = pays d s (c * 4 # cs c)" if c: "c < buckets d" "c \<noteq> b" for c
    unfolding pays_def
  proof (rule map_cong[OF refl])
    fix j assume j: "j \<in> set (c * 4 # cs c)"
    note J = seg_links_in_chain[OF l c(1) j]
    have "j \<notin> set (b * 4 # cs b)" using J(4)[OF b] c by simp
    then show "payload (dir_at d' s j) = payload (dir_at d s j)" using pay[OF J(1,2)] n by auto
  qed
  moreover have "emp d' s i" if "\<forall>i\<in>set fl. emp d s i" "i \<in> set (n # fl)" for i
  proof -
    have k: "links_ok (nxt d s) (prv d s) (flh d s) (buckets d) fl cs {}" using l by (simp add: seg_links_def)
    have "i \<in> rows (buckets d)" using that(2) n links_okD(9)[OF k] links_okD(11)[OF k b] by auto
    then show ?thesis using em[of i] seg_links_row[OF l, of i] that by auto
  qed
  ultimately show ?thesis using assms(4,5) by (simp add: bucket_step_def)
qed

lemma delete_entry_step:
  assumes l: "seg_links d s fl cs {}" and b: "b < buckets d" and d: "b * 4 # cs b = us @ x # vs"
    and del: "dir_delete_entry x (last_opt us) s d = (r, d')"
  obtains fl' ch' where "bucket_step s b cs fl d d' fl' ch'" "direntries_used d' = direntries_used d"
    "us \<noteq> [] \<longrightarrow> b * 4 # ch' = us @ vs \<and> r = hd_opt vs \<and> pays d' s (us @ vs) = pays d s (us @ vs)"
    "us = [] \<and> vs = [] \<longrightarrow> ch' = [] \<and> r = None \<and> dir_at d' s (b * 4) = dir_clear"
    "us = [] \<and> vs \<noteq> [] \<longrightarrow> ch' = tl vs \<and> r = Some (b * 4) \<and> pays d' s (b * 4 # tl vs) = pays d s vs"
proof (cases "us = []")
  case False
  then obtain us' p where us: "us = us' @ [p]" by (metis append_butlast_last_id)
  have x: "x \<in> set (cs b)" using d False by (cases us) auto
  have dist: "distinct (us @ x # vs)" using seg_links_distinct(1)[OF l b] d by simp
  from d us have d2: "b * 4 # cs b = us' @ p # x # vs" by simp
  from del us have del2: "dir_delete_entry x (Some p) s d = (r, d')" by simp
  note S = delete_Some[OF l b d2 del2]
  have t: "b * 4 # tl (us' @ p # vs) = us @ vs" using d2 us by (cases us') auto
  show ?thesis
  proof (rule that[of "x # fl" "tl (us' @ p # vs)"])
    show "bucket_step s b cs fl d d' (x # fl) (tl (us' @ p # vs))"
      by (rule bucket_stepI[OF l b x S(1,3)]) (use S(5,6) in auto)
    have "pays d' s (us @ vs) = pays d s (us @ vs)" unfolding pays_def
    proof (rule map_cong[OF refl])
      fix j assume j: "j \<in> set (us @ vs)"
      have j': "j \<in> set (b * 4 # cs b)" "j \<noteq> x" using j dist unfolding d by auto
      show "payload (dir_at d' s j) = payload (dir_at d s j)" by (rule S(6)[OF seg_links_in_chain(1,2)[OF l b j'(1)] j'(2)])
    qed
    then show "us \<noteq> [] \<longrightarrow> b * 4 # tl (us' @ p # vs) = us @ vs \<and> r = hd_opt vs \<and> pays d' s (us @ vs) = pays d s (us @ vs)"
      using t S(2) by (simp add: hd_opt_def)
    show "direntries_used d' = direntries_used d" by (rule S(4))
    show "us = [] \<and> vs = [] \<longrightarrow> tl (us' @ p # vs) = [] \<and> r = None \<and> dir_at d' s (b * 4) = dir_clear"
      "us = [] \<and> vs \<noteq> [] \<longrightarrow> tl (us' @ p # vs) = tl vs \<and> r = Some (b * 4) \<and> pays d' s (b * 4 # tl vs) = pays d s vs"
      using False by simp_all
  qed
next
  case us: True
  then have x: "x = b * 4" "cs b = vs" and del2: "dir_delete_entry (b * 4) None s d = (r, d')" using d del by auto
  show ?thesis
  proof (cases vs)
    case Nil
    then have c: "cs b = []" using x by simp
    note S = delete_None_last[OF l b c del2]
    have "bucket_step s b cs fl d d' fl []"
    proof -
      have "dir_at d' s j = dir_at d s j" if "c < buckets d" "c \<noteq> b" "j \<in> set (c * 4 # cs c)" for c j
        using S(5)[OF seg_links_in_chain(1)[OF l that(1,3)]] seg_links_in_chain(4)[OF l that(1,3) b] that(2) by auto
      moreover have "emp d' s i" if "i \<in> set fl" "emp d s i" for i
        using S(5)[of i] seg_links_row[OF l, of i] seg_links_flh(2)[OF l] that by (auto simp: emp_def dir_simps)
      moreover have "cs(b := []) = cs" using c by (metis fun_upd_triv)
      ultimately show ?thesis using S(1,3) by (simp add: bucket_step_def pays_def)
    qed
    then show ?thesis by (rule that) (use us Nil S(2,4) S(5)[OF seg_links_head[OF l b]] in simp_all)
  next
    case (Cons n vs')
    then have c: "cs b = n # vs'" using x by simp
    note S = delete_None_next[OF l b c del2]
    have dist: "distinct (b * 4 # n # vs')" using seg_links_distinct(1)[OF l b] c by simp
    have bs: "bucket_step s b cs fl d d' (n # fl) vs'"
      by (rule bucket_stepI[OF l b _ S(1,3)]) (use S(5,6) c in \<open>auto simp: rows_def\<close>)
    have "payload (dir_at d' s j) = payload (dir_at d s (if j = b * 4 then n else j))" if "j \<in> set (b * 4 # vs')" for j
    proof -
      have j: "j \<noteq> n" "j \<in> set (b * 4 # cs b)" using that dist c by auto
      show ?thesis by (rule S(5)[OF seg_links_in_chain(1,2)[OF l b j(2)] j(1)])
    qed
    then have "pays d' s (b * 4 # vs') = pays d s (n # vs')" using dist by (auto simp: pays_def)
    then show ?thesis by (intro that[OF bs S(4)]) (use us Cons S(2) in simp_all)
  qed
qed

section \<open>Cleaning\<close>

lemma contents_pays: "contents d s b xs = filter (\<lambda>e. dir_offset e \<noteq> 0) (pays d s (b * 4 # xs))"
  by (simp add: contents_def pays_def)

lemma pays_append [simp]: "pays d s (xs @ ys) = pays d s xs @ pays d s ys"
  by (simp add: pays_def)

lemma pays_Cons [simp]: "pays d s (x # xs) = payload (dir_at d s x) # pays d s xs"
  by (simp add: pays_def)

lemma pays_Nil [simp]: "pays d s [] = []"
  by (simp add: pays_def)

text \<open>The live entries of a list, and the number of entries that are counted as used.\<close>

definition live :: "part \<Rightarrow> dir list \<Rightarrow> dir list" where
  "live d es = filter (\<lambda>e. \<not> stale d e) es"

definition used_in :: "dir list \<Rightarrow> int" where
  "used_in es = int (length (filter (\<lambda>e. dir_offset e \<noteq> 0) es))"

lemma live_simps [simp]:
  "live d [] = []" "live d (xs @ ys) = live d xs @ live d ys"
  "live d (e # es) = (if stale d e then live d es else e # live d es)"
  by (simp_all add: live_def)

lemma used_in_simps [simp]:
  "used_in [] = 0" "used_in (xs @ ys) = used_in xs + used_in ys"
  "used_in (e # es) = (if dir_offset e = 0 then used_in es else 1 + used_in es)"
  by (simp_all add: used_in_def)

lemma frame_stale: "frame s d d' \<Longrightarrow> stale d' = stale d"
  by (simp add: stale_def fun_eq_iff frame_valid)

lemma frame_live: "frame s d d' \<Longrightarrow> live d' es = live d es"
  by (simp add: live_def frame_stale)

definition bpays :: "part \<Rightarrow> nat \<Rightarrow> nat \<Rightarrow> nat list \<Rightarrow> dir list" where
  "bpays d s b ch = pays d s (b * 4 # ch)"

lemma bpays_nonempty [simp]: "bpays d s b ch \<noteq> []"
  by (simp add: bpays_def)

definition clean_post :: "nat \<Rightarrow> nat \<Rightarrow> (nat \<Rightarrow> nat list) \<Rightarrow> nat list \<Rightarrow> part \<Rightarrow> part \<Rightarrow> nat list \<Rightarrow> nat list \<Rightarrow> bool" where
  "clean_post s b cs fl d d' fl' ch' \<longleftrightarrow> bucket_step s b cs fl d d' fl' ch' \<and>
     (if live d (bpays d s b (cs b)) = [] then ch' = [] \<and> dir_at d' s (b * 4) = dir_clear
      else bpays d' s b ch' = live d (bpays d s b (cs b))) \<and>
     direntries_used d' - used_in (bpays d' s b ch') = direntries_used d - used_in (bpays d s b (cs b))"

lemma inc_used_sel [simp]: "direntries_used (inc_used n d) = direntries_used d + n"
  by (simp add: inc_used_def)

lemma pays_inc_used [simp]: "pays (inc_used n d) = pays d"
  by (simp add: pays_def fun_eq_iff)

lemma seg_links_inc_used [simp]: "seg_links (inc_used n d) s fl cs R = seg_links d s fl cs R"
proof -
  have "nxt (inc_used n d) s = nxt d s" "prv (inc_used n d) s = prv d s"
    by (simp_all add: nxt_def prv_def fun_eq_iff)
  then show ?thesis by (simp add: seg_links_def)
qed

lemma bucket_step_inc_used: "bucket_step s b cs fl (inc_used n d) d' fl' ch' \<longleftrightarrow> bucket_step s b cs fl d d' fl' ch'"
proof -
  have "frame s (inc_used n d) d' \<longleftrightarrow> frame s d d'" "emp (inc_used n d) s = emp d s"
    by (auto simp: frame_def params_def inc_used_def geom_def emp_def dir_at_def part_dir_segment_def flh_def)
  then show ?thesis by (simp add: bucket_step_def)
qed

lemma clean_post_trans:
  assumes "bucket_step s b cs fl d d1 fl1 ch1" "clean_post s b (cs(b := ch1)) fl1 d1 d' fl' ch'"
    "live d (bpays d s b (cs b)) = live d (bpays d1 s b ch1)"
    "direntries_used d1 - used_in (bpays d1 s b ch1) = direntries_used d - used_in (bpays d s b (cs b))"
  shows "clean_post s b cs fl d d' fl' ch'"
proof -
  have "bucket_step s b cs fl d d' fl' ch'"
    using assms(2) by (intro bucket_step_trans[OF assms(1)]) (simp add: clean_post_def)
  then show ?thesis using assms(2-4) frame_live[OF bucket_step_frame[OF assms(1)]] by (simp add: clean_post_def)
qed

lemma clean_loop_ok:
  assumes "seg_links d s fl cs {}" "b < buckets d" "b * 4 # cs b = us @ x # vs"
    "\<And>e. e \<in> set (pays d s us) \<Longrightarrow> \<not> stale d e"
  shows "\<exists>d' fl' ch'. clean_loop s (Some x) (last_opt us) d = Some d' \<and> clean_post s b cs fl d d' fl' ch'"
  using assms
proof (induction "length vs" arbitrary: d fl cs us x vs rule: less_induct)
  case less
  note l = less.prems(1) and b = less.prems(2) and dec = less.prems(3) and us_live = less.prems(4)
  note NX = seg_links_next(2)[OF l b dec, folded hd_opt_def]
  have us_id: "live d (pays d s us) = pays d s us" using us_live by (simp add: live_def filter_id_conv)
  show ?case
  proof (cases "stale d (dir_at d s x)")
    case False
    have step: "clean_loop s (Some x) (last_opt us) d = clean_loop s (hd_opt vs) (last_opt (us @ [x])) d"
      by (subst clean_loop.simps) (simp add: False NX)
    have live': "\<not> stale d e" if "e \<in> set (pays d s (us @ [x]))" for e
      using that us_live False by auto
    show ?thesis
    proof (cases vs)
      case Nil
      have "live d (bpays d s b (cs b)) = bpays d s b (cs b)" unfolding bpays_def dec Nil using us_id False by simp
      then have "clean_post s b cs fl d d fl (cs b)"
        using bucket_step_refl[OF l] by (auto simp: clean_post_def)
      then show ?thesis unfolding step Nil by (subst clean_loop.simps) auto
    next
      case (Cons v vs')
      show ?thesis unfolding step using less.hyps[OF _ l b, of vs' "us @ [x]" v] Cons dec live' by simp
    qed
  next
    case True
    define d1 where "d1 = (if dir_offset (dir_at d s x) \<noteq> 0 then inc_used (-1) d else d)"
    obtain r d2 where del: "dir_delete_entry x (last_opt us) s d1 = (r, d2)" by (cases "dir_delete_entry x (last_opt us) s d1")
    have step: "clean_loop s (Some x) (last_opt us) d = clean_loop s r (last_opt us) d2"
      using True del by (subst clean_loop.simps) (simp add: d1_def Let_def)
    have l1: "seg_links d1 s fl cs {}" and b1: "b < buckets d1" using l b by (simp_all add: d1_def)
    obtain fl2 ch2 where S0: "bucket_step s b cs fl d1 d2 fl2 ch2" and u2: "direntries_used d2 = direntries_used d1"
      and c1: "us \<noteq> [] \<longrightarrow> b * 4 # ch2 = us @ vs \<and> r = hd_opt vs \<and> pays d2 s (us @ vs) = pays d1 s (us @ vs)"
      and c2: "us = [] \<and> vs = [] \<longrightarrow> ch2 = [] \<and> r = None \<and> dir_at d2 s (b * 4) = dir_clear"
      and c3: "us = [] \<and> vs \<noteq> [] \<longrightarrow> ch2 = tl vs \<and> r = Some (b * 4) \<and> pays d2 s (b * 4 # tl vs) = pays d1 s vs"
      by (rule delete_entry_step[OF l1 b1 dec del])
    have S: "bucket_step s b cs fl d d2 fl2 ch2" using S0 by (simp add: d1_def bucket_step_inc_used split: if_splits)
    have p1: "pays d1 = pays d" by (simp add: d1_def)
    have u: "direntries_used d2 = direntries_used d - (if dir_offset (dir_at d s x) = 0 then 0 else 1)"
      using u2 by (simp add: d1_def)
    note fr = bucket_step_frame[OF S] and l2 = bucket_step_links[OF S]
    have b2: "b < buckets d2" using frame_params[OF fr] b by simp
    have pre: "bpays d s b (cs b) = pays d s us @ payload (dir_at d s x) # pays d s vs"
      unfolding bpays_def dec by simp
    show ?thesis
    proof (cases "us = [] \<and> vs = []")
      case nil: True
      then have "clean_post s b cs fl d d2 fl2 ch2"
        using S c2 u True unfolding clean_post_def pre by (simp add: bpays_def emp_def dir_simps)
      moreover have "clean_loop s r (last_opt us) d2 = Some d2" using c2 nil by (subst clean_loop.simps) simp
      ultimately show ?thesis unfolding step by blast
    next
      case nonempty: False
      then have p2: "bpays d2 s b ch2 = pays d s us @ pays d s vs" unfolding bpays_def using c1 c3 p1 by (cases "us = []") (auto simp del: pays_Cons)
      have live2: "live d (bpays d s b (cs b)) = live d (bpays d2 s b ch2)"
        unfolding pre p2 using True by simp
      have used2: "direntries_used d2 - used_in (bpays d2 s b ch2) = direntries_used d - used_in (bpays d s b (cs b))"
        unfolding pre p2 u by simp
      show ?thesis
      proof (cases "vs = []")
        case vs: True
        then have "clean_post s b cs fl d d2 fl2 ch2"
          using S used2 us_id nonempty unfolding clean_post_def live2 p2 by (auto simp: pays_def)
        moreover have "clean_loop s r (last_opt us) d2 = Some d2" using c1 nonempty vs by (subst clean_loop.simps) simp
        ultimately show ?thesis unfolding step by blast
      next
        case vs: False
        define us2 x2 vs2 where "us2 = us" and "x2 = (if us = [] then b * 4 else hd vs)" and "vs2 = tl vs"
        have r: "r = Some x2" and dec2: "b * 4 # (cs(b := ch2)) b = us2 @ x2 # vs2"
          using c1 c3 vs by (auto simp: us2_def x2_def vs2_def hd_opt_def split: list.splits)
        have less2: "length vs2 < length vs" using vs by (cases vs) (auto simp: vs2_def)
        have "pays d2 s us2 = pays d s us" using c1 p1 by (cases "us = []") (auto simp: us2_def pays_def)
        then have live3: "\<not> stale d2 e" if "e \<in> set (pays d2 s us2)" for e using that us_live frame_stale[OF fr] by simp
        obtain d' fl' ch' where "clean_loop s (Some x2) (last_opt us2) d2 = Some d'"
          and "clean_post s b (cs(b := ch2)) fl2 d2 d' fl' ch'"
          using less.hyps[OF less2 l2 b2 dec2 live3] by blast
        then show ?thesis unfolding step r using clean_post_trans[OF S _ live2 used2] us2_def by blast
      qed
    qed
  qed
qed

text \<open>\<open>ok_pays\<close>: the entries of a bucket are all in use, or the bucket is its cleared head.\<close>

definition ok_pays :: "dir list \<Rightarrow> bool" where
  "ok_pays es \<longleftrightarrow> (\<forall>e\<in>set es. dir_offset e \<noteq> 0) \<or> es = [dir_clear]"

lemma payload_clear [simp]: "payload dir_clear = dir_clear"
  by (simp add: payload_def dir_clear_def)

lemma cleared_iff: "dir_at d s i = dir_clear \<longleftrightarrow> payload (dir_at d s i) = dir_clear \<and> nxt d s i = 0"
  by (cases "dir_at d s i") (auto simp: payload_def dir_clear_def nxt_def dir_next_def unsigned_eq_0_iff)

lemma seg_rep_pays:
  "seg_rep d s fl cs \<longleftrightarrow> seg_links d s fl cs {} \<and> (\<forall>i\<in>set fl. emp d s i) \<and>
     (\<forall>b<buckets d. ok_pays (bpays d s b (cs b)))"
proof (cases "seg_links d s fl cs {}")
  case True
  have "dir_at d s (b * 4) = dir_clear \<longleftrightarrow> payload (dir_at d s (b * 4)) = dir_clear" if "b < buckets d" "cs b = []" for b
    using seg_links_next(1)[OF True that(1), of "[]" "b * 4" "[]"] that(2) cleared_iff by simp
  then show ?thesis using True
    by (auto simp: seg_rep_def filled_ok_def ok_pays_def bpays_def pays_def emp_def)
qed (simp add: seg_rep_def)

lemma contents_bpays: "contents d s b ch = filter (\<lambda>e. dir_offset e \<noteq> 0) (bpays d s b ch)"
  by (simp add: contents_def bpays_def pays_def)

lemma live_contents: "live d (contents d s b ch) = live d (bpays d s b ch)"
  unfolding contents_bpays live_def by (auto simp: stale_def intro: filter_cong)

lemma live_nonempty: "e \<in> set (live d es) \<Longrightarrow> dir_offset e \<noteq> 0"
  by (auto simp: live_def stale_def)

lemma used_in_contents: "used_in (bpays d s b ch) = int (length (contents d s b ch))"
  by (simp add: used_in_def contents_bpays)

lemma clean_post_contents:
  assumes "clean_post s b cs fl d d' fl' ch'"
  shows "ok_pays (bpays d' s b ch')" "contents d' s b ch' = live d (contents d s b (cs b))"
proof -
  have "ok_pays (bpays d' s b ch') \<and> contents d' s b ch' = live d (bpays d s b (cs b))"
  proof (cases "live d (bpays d s b (cs b)) = []")
    case True
    then show ?thesis using assms by (auto simp: clean_post_def ok_pays_def bpays_def contents_bpays dir_simps)
  next
    case False
    then have e: "bpays d' s b ch' = live d (bpays d s b (cs b))" using assms by (simp add: clean_post_def)
    have ne: "\<And>e. e \<in> set (bpays d' s b ch') \<Longrightarrow> dir_offset e \<noteq> 0" using live_nonempty unfolding e by blast
    then have "ok_pays (bpays d' s b ch')" unfolding ok_pays_def by blast
    moreover have "contents d' s b ch' = bpays d' s b ch'" using ne by (simp add: contents_bpays filter_id_conv)
    ultimately show ?thesis using e by simp
  qed
  then show "ok_pays (bpays d' s b ch')" "contents d' s b ch' = live d (contents d s b (cs b))"
    by (simp_all add: live_contents)
qed

lemma dir_clean_bucket_ok:
  assumes "seg_links d s fl cs {}" "b < buckets d"
  shows "\<exists>d' fl' ch'. dir_clean_bucket (dir_bucket b) s d = Some d' \<and> clean_post s b cs fl d d' fl' ch'"
  using clean_loop_ok[OF assms, of "[]" "b * 4" "cs b"] by (simp add: dir_clean_bucket_def dir_bucket_def DIR_DEPTH_def)

text \<open>What cleaning the buckets \<open>bs\<close> of a segment achieves.\<close>

definition cleaned :: "nat \<Rightarrow> nat list \<Rightarrow> (nat \<Rightarrow> nat list) \<Rightarrow> part \<Rightarrow> part \<Rightarrow> nat list \<Rightarrow> (nat \<Rightarrow> nat list) \<Rightarrow> bool" where
  "cleaned s bs cs d d' fl' cs' \<longleftrightarrow> seg_links d' s fl' cs' {} \<and> (\<forall>i\<in>set fl'. emp d' s i) \<and> frame s d d' \<and>
     (\<forall>b\<in>set bs. ok_pays (bpays d' s b (cs' b)) \<and> contents d' s b (cs' b) = live d (contents d s b (cs b))) \<and>
     (\<forall>b<buckets d. b \<notin> set bs \<longrightarrow> cs' b = cs b \<and> bpays d' s b (cs b) = bpays d s b (cs b)) \<and>
     direntries_used d' - (\<Sum>b\<leftarrow>bs. used_in (bpays d' s b (cs' b))) = direntries_used d - (\<Sum>b\<leftarrow>bs. used_in (bpays d s b (cs b)))"

lemma clean_buckets_ok:
  assumes "seg_links d s fl cs {}" "\<forall>i\<in>set fl. emp d s i" "distinct bs" "set bs \<subseteq> {..<buckets d}"
  shows "\<exists>d' fl' cs'. for_each (\<lambda>i. dir_clean_bucket (dir_bucket i) s) bs d = Some d' \<and> cleaned s bs cs d d' fl' cs'"
  using assms
proof (induction bs arbitrary: d fl cs)
  case Nil
  then show ?case by (auto simp: cleaned_def)
next
  case (Cons b bs)
  have b: "b < buckets d" and nb: "b \<notin> set bs" using Cons.prems(3,4) by auto
  obtain d1 fl1 ch1 where c1: "dir_clean_bucket (dir_bucket b) s d = Some d1" and P: "clean_post s b cs fl d d1 fl1 ch1"
    using dir_clean_bucket_ok[OF Cons.prems(1) b] by blast
  have S: "bucket_step s b cs fl d d1 fl1 ch1" using P by (simp add: clean_post_def)
  note fr = bucket_step_frame[OF S] and C = clean_post_contents[OF P]
  have B: "buckets d1 = buckets d" using frame_params[OF fr] by simp
  have e1: "\<forall>i\<in>set fl1. emp d1 s i" and oth: "\<And>c. c < buckets d \<Longrightarrow> c \<noteq> b \<Longrightarrow> bpays d1 s c (cs c) = bpays d s c (cs c)"
    using S Cons.prems(2) by (simp_all add: bucket_step_def bpays_def)
  have bs: "distinct bs" "set bs \<subseteq> {..<buckets d1}" using Cons.prems(3,4) B by simp_all
  obtain d' fl' cs' where c2: "for_each (\<lambda>i. dir_clean_bucket (dir_bucket i) s) bs d1 = Some d'"
    and Q: "cleaned s bs (cs(b := ch1)) d1 d' fl' cs'"
    using Cons.IH[OF bucket_step_links[OF S] e1 bs] by blast
  have fr': "frame s d1 d'" using Q by (simp add: cleaned_def)
  have bb: "cs' b = ch1" "bpays d' s b ch1 = bpays d1 s b ch1" using Q nb b B by (auto simp: cleaned_def)
  have pre: "bpays d1 s c (cs c) = bpays d s c (cs c)" "c \<noteq> b" if "c \<in> set bs" for c
    using oth[of c] that nb Cons.prems(4) by auto
  have "cleaned s (b # bs) cs d d' fl' cs'"
    unfolding cleaned_def
  proof (intro conjI)
    show "seg_links d' s fl' cs' {}" "\<forall>i\<in>set fl'. emp d' s i" using Q by (simp_all add: cleaned_def)
    show "frame s d d'" by (rule frame_trans[OF fr fr'])
    have "contents d' s b (cs' b) = live d (contents d s b (cs b))" using C(2) by (simp add: bb contents_bpays)
    moreover have "contents d' s c (cs' c) = live d (contents d s c (cs c))" if "c \<in> set bs" for c
      using Q that pre[OF that] by (simp add: cleaned_def contents_bpays frame_live[OF fr])
    ultimately show "\<forall>c\<in>set (b # bs). ok_pays (bpays d' s c (cs' c)) \<and> contents d' s c (cs' c) = live d (contents d s c (cs c))"
      using Q C(1) bb by (auto simp: cleaned_def)
    show "\<forall>c<buckets d. c \<notin> set (b # bs) \<longrightarrow> cs' c = cs c \<and> bpays d' s c (cs c) = bpays d s c (cs c)"
      using Q B oth by (auto simp: cleaned_def)
    have s1: "(\<Sum>c\<leftarrow>bs. used_in (bpays d1 s c ((cs(b := ch1)) c))) = (\<Sum>c\<leftarrow>bs. used_in (bpays d s c (cs c)))"
      by (intro arg_cong[where f = sum_list] map_cong) (use pre in auto)
    have "direntries_used d' - (\<Sum>c\<leftarrow>bs. used_in (bpays d' s c (cs' c))) = direntries_used d1 - (\<Sum>c\<leftarrow>bs. used_in (bpays d s c (cs c)))"
      using Q unfolding s1[symmetric] cleaned_def by blast
    then show "direntries_used d' - (\<Sum>c\<leftarrow>b # bs. used_in (bpays d' s c (cs' c))) = direntries_used d - (\<Sum>c\<leftarrow>b # bs. used_in (bpays d s c (cs c)))"
      using P bb by (simp add: clean_post_def)
  qed
  then show ?case using c1 c2 by auto
qed

lemma dir_clean_segment_ok:
  assumes "seg_links d s fl cs {}" "\<forall>i\<in>set fl. emp d s i"
  shows "\<exists>d' fl' cs'. dir_clean_segment s d = Some d' \<and> cleaned s [0..<buckets d] cs d d' fl' cs' \<and> seg_rep d' s fl' cs'"
proof -
  have b: "set [0..<buckets d] \<subseteq> {..<buckets d}" by auto
  obtain d' fl' cs' where "dir_clean_segment s d = Some d'" and c: "cleaned s [0..<buckets d] cs d d' fl' cs'"
    using clean_buckets_ok[OF assms distinct_upt b] unfolding dir_clean_segment_def by blast
  moreover have "seg_rep d' s fl' cs'"
    using c frame_params[of s d d'] by (simp add: seg_rep_pays cleaned_def)
  ultimately show ?thesis by blast
qed

end
