(* ===== verification/Cache_Dir_Alloc.thy ===== *)
theory Cache_Dir_Alloc
  imports Cache_Dir_Ops
begin

text \<open>
  How rows are made free and allocated: \<^verbatim>\<open>dir_init_segment\<close>, \<^verbatim>\<open>unlink_from_freelist\<close>,
  \<^verbatim>\<open>freelist_pop\<close>, \<^verbatim>\<open>freelist_clean\<close> with its purge, the link step of \<^verbatim>\<open>dir_insert\<close> and
  \<^verbatim>\<open>dir_overwrite\<close>, and the loop check of Floyd that guards every walk of a chain.
\<close>

section \<open>Initialising a segment\<close>

lemma free_entry_effect:
  assumes "seg_in d s e" "flh d s \<noteq> 0 \<longrightarrow> seg_in d s (flh d s)" "flh d s \<noteq> e"
  shows "flh (dir_free_entry e s d) s = e" "frame s d (dir_free_entry e s d)"
    "direntries_used (dir_free_entry e s d) = direntries_used d"
    "seg_in d s j \<Longrightarrow> dir_at (dir_free_entry e s d) s j =
      (if j = e then dir_set_next (flh d s) (dir_at d s e)
       else if flh d s \<noteq> 0 \<and> j = flh d s then dir_set_prev e (dir_at d s j) else dir_at d s j)"
proof -
  let ?d1 = "put_next s e (flh d s) d"
  let ?d2 = "put_prev_opt s (dir_from_offset (flh d s)) e ?d1"
  have d': "dir_free_entry e s d = set_freelist s (word_of_nat e) ?d2"
    by (simp add: dir_free_entry_def flh_def Let_def)
  show "flh (dir_free_entry e s d) s = e" unfolding d' using assms(1) by (simp add: flh_set)
  show "direntries_used (dir_free_entry e s d) = direntries_used d" by (simp add: d')
  have "frame s d ?d1" using assms(1) by simp
  also have "frame s ?d1 ?d2" using assms(2) by simp
  also have "frame s ?d2 (dir_free_entry e s d)" unfolding d' using assms(1) by (intro frame_set_freelist[of _ s e]) simp
  finally show "frame s d (dir_free_entry e s d)" .
  show "seg_in d s j \<Longrightarrow> dir_at (dir_free_entry e s d) s j =
      (if j = e then dir_set_next (flh d s) (dir_at d s e)
       else if flh d s \<noteq> 0 \<and> j = flh d s then dir_set_prev e (dir_at d s j) else dir_at d s j)"
    unfolding d' using assms by (cases "flh d s = 0") (simp_all add: at_put_prev_opt at_put_next)
qed

lemma free_entry_ok:
  assumes l: "seg_links d s fl cs R" and e: "e \<in> R" "prv d s e = 0"
  shows "seg_links (dir_free_entry e s d) s (e # fl) cs (R - {e})" "frame s d (dir_free_entry e s d)"
    "seg_in d s j \<Longrightarrow> emp (dir_free_entry e s d) s j = emp d s j"
    "j \<in> R \<Longrightarrow> j \<noteq> e \<Longrightarrow> dir_at (dir_free_entry e s d) s j = dir_at d s j"
    "direntries_used (dir_free_entry e s d) = direntries_used d"
    "j \<notin> rows (buckets d) \<Longrightarrow> seg_in d s j \<Longrightarrow> dir_at (dir_free_entry e s d) s j = dir_at d s j"
proof -
  have k: "links_ok (nxt d s) (prv d s) (flh d s) (buckets d) fl cs R" using l by (simp add: seg_links_def)
  note D = links_okD[OF k]
  have er: "e \<in> rows (buckets d)" "e \<notin> set fl" using e(1) D(7,10) by auto
  have ein: "seg_in d s e" by (rule seg_links_row[OF l er(1)])
  have f: "flh d s \<noteq> 0 \<longrightarrow> seg_in d s (flh d s)" using seg_links_flh(1,2)[OF l] seg_links_row[OF l] by blast
  have f2: "flh d s \<notin> R" using seg_links_flh(1)[OF l] D(7,10) row_nonzero[of "flh d s" "buckets d"] by blast
  have f3: "flh d s \<noteq> e" using f2 e(1) by auto
  note E = free_entry_effect[OF ein f f3]
  show fr: "frame s d (dir_free_entry e s d)" by (rule E(2))
  show "direntries_used (dir_free_entry e s d) = direntries_used d" by (rule E(3))
  show "emp (dir_free_entry e s d) s j = emp d s j" if "seg_in d s j"
    using E(4)[OF that] by (auto simp: emp_def dir_simps)
  show "dir_at (dir_free_entry e s d) s j = dir_at d s j" if "j \<in> R" "j \<noteq> e"
    using E(4)[OF seg_links_row[OF l]] that D(10) f2 by auto
  show "dir_at (dir_free_entry e s d) s j = dir_at d s j" if "j \<notin> rows (buckets d)" "seg_in d s j"
    using E(4)[OF that(2)] that er seg_links_flh(1,2)[OF l] by auto
  have inr: "seg_in d s i" if "i < buckets d * 4" for i using l that by (simp add: seg_links_def seg_in_def)
  have small: "flh d s < 2 ^ 16" using unsigned_less[of "freelist d ! s"] by (simp add: flh_def)
  show "seg_links (dir_free_entry e s d) s (e # fl) cs (R - {e})"
  proof (rule seg_linksI[OF links_free[OF k e] fr l E(1)])
    show "((nxt d s)(e := flh d s)) i = nxt (dir_free_entry e s d) s i" if "i < buckets d * 4" for i
      using E(4)[OF inr[OF that]] small by (auto simp: nxt_def dir_simps unat_link)
    show "(if flh d s = 0 then prv d s else (prv d s)(flh d s := e)) i = prv (dir_free_entry e s d) s i"
      if "i \<in> set (e # fl)" for i
    proof -
      have "i \<in> rows (buckets d)" using that er seg_links_flh(2)[OF l] by auto
      then show ?thesis using E(4)[OF seg_links_row[OF l]] e(2) f3 seg_in_less[OF ein]
        by (auto simp: prv_def dir_simps unat_link)
    qed
  qed
qed

definition init_rows :: "nat \<Rightarrow> nat list" where
  "init_rows B = concat (map (\<lambda>l. map (\<lambda>b. b * 4 + l) [0..<B]) [1..<4])"

lemma upt_1_4: "[Suc 0..<4] = [1, 2, 3]" "[1..<4] = [1, 2, 3::nat]"
  by (simp_all add: upt_conv_Cons numeral_eq_Suc)

lemma init_rows_eq:
  "init_rows B = map (\<lambda>b. b * 4 + 1) [0..<B] @ map (\<lambda>b. b * 4 + 2) [0..<B] @ map (\<lambda>b. b * 4 + 3) [0..<B]"
  unfolding init_rows_def upt_1_4 by simp

lemma init_rows_set: "set (init_rows B) = rows B" "distinct (init_rows B)" "length (init_rows B) = 3 * B"
proof -
  have ne: "b * 4 + 1 \<noteq> c * 4 + 2" "b * 4 + 1 \<noteq> c * 4 + 3" "b * 4 + 2 \<noteq> c * 4 + 3" for b c :: nat by presburger+
  show "distinct (init_rows B)" unfolding init_rows_eq using ne by (force simp: distinct_map inj_on_def)
  show "length (init_rows B) = 3 * B" by (simp add: init_rows_eq)
  show "set (init_rows B) = rows B"
  proof (intro equalityI subsetI)
    fix i assume "i \<in> rows B"
    then have b: "i div 4 \<in> set [0..<B]" and "i mod 4 = 1 \<or> i mod 4 = 2 \<or> i mod 4 = 3" by (auto simp: rows_def)
    then have "i = i div 4 * 4 + 1 \<or> i = i div 4 * 4 + 2 \<or> i = i div 4 * 4 + 3" by presburger
    with b show "i \<in> set (init_rows B)" unfolding init_rows_eq set_append set_map by blast
  next
    fix i assume "i \<in> set (init_rows B)"
    then obtain b where "b < B" "i = b * 4 + 1 \<or> i = b * 4 + 2 \<or> i = b * 4 + 3" unfolding init_rows_eq by auto
    then show "i \<in> rows B" unfolding rows_iff by presburger
  qed
qed

lemma free_entries_ok:
  assumes "seg_links d s fl cs R" "set es \<subseteq> R" "distinct es" "\<And>e. e \<in> R \<Longrightarrow> dir_at d s e = dir_clear"
  defines "d' \<equiv> fold (\<lambda>e. dir_free_entry e s) es d"
  shows "seg_links d' s (rev es @ fl) cs (R - set es) \<and> frame s d d' \<and>
    (\<forall>j. seg_in d s j \<longrightarrow> emp d' s j = emp d s j) \<and> direntries_used d' = direntries_used d \<and>
    (\<forall>j. j \<notin> rows (buckets d) \<longrightarrow> seg_in d s j \<longrightarrow> dir_at d' s j = dir_at d s j)"
  using assms(1-4) unfolding d'_def
proof (induction es arbitrary: d fl R)
  case Nil
  then show ?case by simp
next
  case (Cons e es)
  let ?d1 = "dir_free_entry e s d"
  have e: "e \<in> R" "prv d s e = 0" using Cons.prems(2,4) by (auto simp: prv_def dir_simps)
  note F = free_entry_ok[OF Cons.prems(1) e]
  have B: "buckets ?d1 = buckets d" and i: "\<And>j. seg_in ?d1 s j = seg_in d s j"
    using F(2) by (auto simp: frame_def params_def seg_in_def)
  have sub: "set es \<subseteq> R - {e}" "distinct es" using Cons.prems(2,3) by auto
  have cl: "dir_at ?d1 s j = dir_clear" if "j \<in> R - {e}" for j using F(4) Cons.prems(4) that by simp
  note IH = Cons.IH[OF F(1) sub cl, unfolded i B]
  show ?case using IH F(3,5,6) frame_trans[OF F(2)] by (simp add: Diff_insert2[symmetric])
qed

lemma clear_rows_ok:
  assumes "geom d" "s < segments d" "set xs \<subseteq> {..<buckets d * 4}"
  defines "d' \<equiv> fold (\<lambda>i. dir_put s i dir_clear) xs d"
  shows "frame s d d' \<and> freelist d' = freelist d \<and> direntries_used d' = direntries_used d \<and>
    (\<forall>j. seg_in d s j \<longrightarrow> dir_at d' s j = (if j \<in> set xs then dir_clear else dir_at d s j))"
  using assms(1-3) unfolding d'_def
proof (induction xs arbitrary: d)
  case Nil
  then show ?case by simp
next
  case (Cons x xs)
  have x: "seg_in d s x" using Cons.prems by (simp add: seg_in_def)
  show ?case using Cons.IH[of "dir_put s x dir_clear d"] Cons.prems frame_trans[OF frame_put[OF x, of dir_clear]]
    by (auto simp: at_put[OF x])
qed

lemma fold_concat_map: "fold (\<lambda>l. fold (\<lambda>b. f (g l b)) bs) ls d = fold f (concat (map (\<lambda>l. map (g l) bs) ls)) d"
  by (induction ls arbitrary: d) (simp_all add: fold_map comp_def)

lemma dir_init_segment_eq:
  "dir_init_segment s d = fold (\<lambda>e. dir_free_entry e s) (init_rows (buckets d)) (clear_segment s (set_freelist s 0 d))"
  unfolding dir_init_segment_def init_rows_def dir_bucket_row_def dir_bucket_def DIR_DEPTH_def
    fold_concat_map[symmetric, of "\<lambda>e. dir_free_entry e s" "\<lambda>l b. b * 4 + l"] ..

lemma dir_init_segment_ok:
  assumes g: "geom d" "s < segments d"
  shows "seg_rep (dir_init_segment s d) s (rev (init_rows (buckets d))) (\<lambda>_. [])" "frame s d (dir_init_segment s d)"
    "b < buckets d \<Longrightarrow> contents (dir_init_segment s d) s b [] = []"
    "direntries_used (dir_init_segment s d) = direntries_used d"
proof -
  let ?d0 = "set_freelist s 0 d" and ?d1 = "clear_segment s (set_freelist s 0 d)" and ?d2 = "dir_init_segment s d"
  have in0: "seg_in d s 0" using g by (simp add: seg_in_def geom_def)
  have C: "frame s ?d0 ?d1 \<and> freelist ?d1 = freelist ?d0 \<and> direntries_used ?d1 = direntries_used ?d0 \<and>
    (\<forall>j. seg_in ?d0 s j \<longrightarrow> dir_at ?d1 s j = (if j \<in> set [0..<4 * buckets d] then dir_clear else dir_at ?d0 s j))"
    unfolding clear_segment_def DIR_DEPTH_def set_freelist_sel(2)
    by (rule clear_rows_ok) (use g in auto)
  have fr1: "frame s d ?d1" using frame_trans[OF frame_set_freelist[OF in0]] C by blast
  have B: "buckets ?d1 = buckets d" "segments ?d1 = segments d" "geom ?d1" using fr1 g by (auto simp: frame_def params_def)
  have at1: "dir_at ?d1 s j = dir_clear" if "j < buckets d * 4" for j using C g that by (simp add: seg_in_def)
  have f1: "flh ?d1 s = 0" using C g by (simp add: flh_def set_freelist_def geom_def)
  have l1: "seg_links ?d1 s [] (\<lambda>_. []) (rows (buckets d))"
    using B g at1 f1 by (auto simp: seg_links_def links_ok_def nxt_def dir_simps)
  have cl: "dir_at ?d1 s e = dir_clear" if "e \<in> rows (buckets d)" for e using at1 that by (simp add: rows_def)
  note F = free_entries_ok[OF l1 _ init_rows_set(2) cl, of "buckets d", folded dir_init_segment_eq, unfolded init_rows_set(1), simplified]
  show fr: "frame s d ?d2" using frame_trans[OF fr1] F by blast
  have B2: "buckets ?d2 = buckets d" using fr by (simp add: frame_params)
  have i1: "seg_in ?d1 s j = (j < buckets d * 4)" for j using B g by (simp add: seg_in_def)
  have hd: "dir_at ?d2 s (b * 4) = dir_clear" if "b < buckets d" for b using F i1 that at1 B by (simp add: head_not_row)
  have em: "emp ?d2 s j" if "j < buckets d * 4" for j using F that at1 by (simp add: i1 emp_def dir_simps)
  show "seg_rep ?d2 s (rev (init_rows (buckets d))) (\<lambda>_. [])"
    using F em hd B2 init_rows_set(1)[of "buckets d"] by (simp add: seg_rep_def filled_ok_def rows_def)
  show "contents ?d2 s b [] = []" if "b < buckets d" using hd[OF that] by (simp add: contents_def dir_simps)
  show "direntries_used ?d2 = direntries_used d" using F C by simp
qed

section \<open>Taking a row from the free list\<close>

definition alloc_post :: "nat \<Rightarrow> part \<Rightarrow> nat list \<Rightarrow> (nat \<Rightarrow> nat list) \<Rightarrow> nat \<Rightarrow> part \<Rightarrow> nat list \<Rightarrow> bool" where
  "alloc_post s d fl cs e d' fl' \<longleftrightarrow> seg_links d' s fl' cs {e} \<and> set fl' = set fl - {e} \<and> e \<in> set fl \<and> frame s d d' \<and>
     direntries_used d' = direntries_used d \<and>
     (\<forall>j. seg_in d s j \<longrightarrow> emp d' s j = emp d s j \<and> (j \<notin> set fl \<longrightarrow> dir_at d' s j = dir_at d s j))"

lemma seg_links_free_row:
  assumes l: "seg_links d s fl cs R" and e: "e \<in> set fl"
  shows "e \<in> rows (buckets d)" "seg_in d s e" "nxt d s e \<noteq> 0 \<Longrightarrow> nxt d s e \<in> set fl" "nxt d s e \<noteq> e"
    "nxt d s e < 2 ^ 16" "prv d s e < 2 ^ 16"
proof -
  have k: "links_ok (nxt d s) (prv d s) (flh d s) (buckets d) fl cs R" using l by (simp add: seg_links_def)
  note D = links_okD[OF k]
  obtain us vs where fl: "fl = us @ e # vs" using e by (auto simp: in_set_conv_decomp)
  show r: "e \<in> rows (buckets d)" using e D(9) by auto
  show "seg_in d s e" by (rule seg_links_row[OF l r])
  have n: "nxt d s e = (case vs of [] \<Rightarrow> 0 | v # _ \<Rightarrow> v)" using chain_next D(1) unfolding fl by blast
  show "nxt d s e \<noteq> 0 \<Longrightarrow> nxt d s e \<in> set fl" using n fl by (auto split: list.splits)
  show "nxt d s e \<noteq> e" using n chain_distinct[OF D(1)] row_nonzero[OF r] unfolding fl by (auto split: list.splits)
  show "nxt d s e < 2 ^ 16" "prv d s e < 2 ^ 16"
    using unsigned_less[of "dir_next (dir_at d s e)"] unsigned_less[of "dir_prev (dir_at d s e)"]
    by (simp_all add: nxt_def prv_def)
qed

lemma pop_head_ok:
  assumes l: "seg_links d s (e # fl) cs {}"
  defines "d' \<equiv> put_prev_opt s (dir_from_offset (nxt d s e)) 0 (set_freelist s (dir_next (dir_at d s e)) d)"
  shows "alloc_post s d (e # fl) cs e d' fl"
proof -
  have k: "links_ok (nxt d s) (prv d s) (flh d s) (buckets d) (e # fl) cs {}" using l by (simp add: seg_links_def)
  note D = links_okD[OF k] and E = seg_links_free_row[OF l, of e, simplified]
  have dist: "e \<notin> set fl" using chain_distinct[OF D(1)] by simp
  have n: "nxt d s e \<noteq> 0 \<Longrightarrow> seg_in d s (nxt d s e) \<and> nxt d s e \<in> set (e # fl)"
    using seg_links_row[OF l] D(9) seg_links_free_row(3)[OF l, of e] by auto
  have at: "dir_at d' s j = (if nxt d s e \<noteq> 0 \<and> j = nxt d s e then dir_set_prev 0 (dir_at d s j) else dir_at d s j)"
    if "seg_in d s j" for j
    unfolding d'_def using n that by (cases "nxt d s e = 0") (simp_all add: at_put_prev_opt)
  have fr: "frame s d d'" unfolding d'_def
    by (rule frame_trans[OF frame_set_freelist[OF E(2)] frame_ops(3)]) (use n in auto)
  have f: "flh d' s = nxt d s e" using E(2) by (simp add: d'_def flh_set_freelist seg_in_def nxt_def)
  have inr: "seg_in d s i" if "i < buckets d * 4" for i using l that by (simp add: seg_links_def seg_in_def)
  have "seg_links d' s fl cs {e}"
  proof (rule seg_linksI[OF links_pop[OF k] fr l f])
    show "nxt d s i = nxt d' s i" if "i < buckets d * 4" for i
      using at[OF inr[OF that]] by (auto simp: nxt_def dir_simps)
    show "(if nxt d s e = 0 then prv d s else (prv d s)(nxt d s e := 0)) i = prv d' s i" if "i \<in> set fl" for i
      using at[of i] seg_links_free_row(2)[OF l, of i] that by (auto simp: prv_def dir_simps)
  qed
  moreover have "direntries_used d' = direntries_used d" by (simp add: d'_def)
  moreover have "emp d' s j = emp d s j \<and> (j \<notin> set (e # fl) \<longrightarrow> dir_at d' s j = dir_at d s j)" if "seg_in d s j" for j
    using at[OF that] n by (auto simp: emp_def dir_simps)
  moreover have "set fl = set (e # fl) - {e}" "e \<in> set (e # fl)" using dist by auto
  ultimately show ?thesis using fr unfolding alloc_post_def by blast
qed

lemma unlink_middle_ok:
  assumes l: "seg_links d s (us @ p # e # vs) cs {}"
  shows "alloc_post s d (us @ p # e # vs) cs e (unlink_from_freelist e s d) (us @ p # vs)"
proof -
  let ?fl = "us @ p # e # vs" and ?d1 = "put_next s p (nxt d s e) d" and ?d' = "unlink_from_freelist e s d"
  have k: "links_ok (nxt d s) (prv d s) (flh d s) (buckets d) ?fl cs {}" using l by (simp add: seg_links_def)
  have ein: "e \<in> set ?fl" and pin: "p \<in> set ?fl" by simp_all
  note D = links_okD[OF k] and U = links_unlink[OF k] and E = seg_links_free_row[OF l ein] and P = seg_links_free_row[OF l pin]
  have dist: "distinct ?fl" by (rule chain_distinct[OF D(1)])
  have n: "nxt d s e \<noteq> 0 \<Longrightarrow> seg_in d s (nxt d s e) \<and> nxt d s e \<in> set ?fl"
    using seg_links_free_row(2,3)[OF l] by auto
  have e1: "dir_at ?d1 s e = dir_at d s e" using at_put_next[OF P(2) E(2)] dist by auto
  have d': "?d' = put_prev_opt s (dir_from_offset (nxt d s e)) (prv d s e) ?d1"
  proof -
    have "dir_from_offset (prv d s e) = Some p" using U(2,3) by (simp add: dir_from_offset_def)
    moreover have "next_dir ?d1 s e = dir_from_offset (nxt d s e)" "unat (dir_prev (dir_at ?d1 s e)) = prv d s e"
      unfolding next_dir_def e1 by (simp_all add: nxt_def prv_def)
    ultimately show ?thesis
      unfolding unlink_from_freelist_def Let_def prv_def[symmetric] nxt_def[symmetric] by simp
  qed
  have np: "nxt d s e \<noteq> p \<or> nxt d s e = 0"
  proof -
    have "nxt d s e = (case vs of [] \<Rightarrow> 0 | v # _ \<Rightarrow> v)" using chain_next[of "nxt d s" "flh d s" "us @ [p]" e vs] D(1) by simp
    then show ?thesis using dist by (auto split: list.splits)
  qed
  have at: "dir_at ?d' s j =
      (if j = p then dir_set_next (nxt d s e) (dir_at d s p)
       else if nxt d s e \<noteq> 0 \<and> j = nxt d s e then dir_set_prev p (dir_at d s j) else dir_at d s j)"
    if j: "seg_in d s j" for j
  proof -
    note a1 = at_put_next[OF P(2), of _ "nxt d s e"]
    have "dir_at ?d' s j = (if nxt d s e \<noteq> 0 \<and> j = nxt d s e then dir_set_prev (prv d s e) (dir_at ?d1 s (nxt d s e)) else dir_at ?d1 s j)"
      unfolding d' by (rule at_put_prev_opt) (use n j in simp_all)
    then show ?thesis using a1[OF j] a1[of "nxt d s e"] np n unfolding U(2)
      by (cases "nxt d s e = 0"; cases "j = nxt d s e") simp_all
  qed
  have fr: "frame s d ?d'" unfolding d'
    by (rule frame_trans[OF frame_ops(1)[OF P(2)] frame_ops(3)]) (use n in auto)
  have f: "flh ?d' s = flh d s" by (simp add: d')
  have inr: "seg_in d s i" if "i < buckets d * 4" for i using l that by (simp add: seg_links_def seg_in_def)
  have "seg_links ?d' s (us @ p # vs) cs {e}"
  proof (rule seg_linksI[OF U(1) fr l f])
    show "((nxt d s)(p := nxt d s e)) i = nxt ?d' s i" if "i < buckets d * 4" for i
      using at[OF inr[OF that]] E(5) by (auto simp: nxt_def dir_simps unat_link)
    show "(if nxt d s e = 0 then prv d s else (prv d s)(nxt d s e := prv d s e)) i = prv ?d' s i"
      if "i \<in> set (us @ p # vs)" for i
      using at[of i] seg_links_free_row(2)[OF l, of i] that np U(2) E(6) by (auto simp: prv_def dir_simps unat_link)
  qed
  moreover have "direntries_used ?d' = direntries_used d" by (simp add: d')
  moreover have "emp ?d' s j = emp d s j \<and> (j \<notin> set ?fl \<longrightarrow> dir_at ?d' s j = dir_at d s j)" if "seg_in d s j" for j
    using at[OF that] n by (auto simp: emp_def dir_simps)
  moreover have "set (us @ p # vs) = set ?fl - {e}" using dist by auto
  ultimately show ?thesis using fr ein unfolding alloc_post_def by blast
qed

lemma unlink_head_eq:
  assumes l: "seg_links d s (e # fl) cs {}"
  shows "unlink_from_freelist e s d = put_prev_opt s (dir_from_offset (nxt d s e)) 0 (set_freelist s (dir_next (dir_at d s e)) d)"
proof -
  have "prv d s e = 0" using l by (simp add: seg_links_def links_ok_def)
  then show ?thesis
    by (simp add: unlink_from_freelist_def Let_def dir_from_offset_def prv_def nxt_def next_dir_def)
qed

lemma unlink_ok:
  assumes l: "seg_links d s fl cs {}" and e: "e \<in> set fl"
  obtains fl' where "alloc_post s d fl cs e (unlink_from_freelist e s d) fl'"
proof -
  obtain us vs where fl: "fl = us @ e # vs" using e by (auto simp: in_set_conv_decomp)
  show ?thesis
  proof (cases us rule: rev_cases)
    case Nil
    then show ?thesis using that[of vs] pop_head_ok[of d s e vs cs] l fl unlink_head_eq[of d s e vs cs] by simp
  next
    case (snoc us' p)
    then show ?thesis using that[of "us' @ p # vs"] unlink_middle_ok[of d s us' p e vs cs] l fl by simp
  qed
qed

end
