(* ===== verification/Cache_Dir_Use.thy ===== *)
theory Cache_Dir_Use
  imports Cache_Dir_Alloc
begin

text \<open>
  The slots of \<^verbatim>\<open>dir_insert\<close> and \<^verbatim>\<open>dir_overwrite\<close>: a row taken from the bucket's own rows or from
  the free list is linked second in the chain of the bucket and filled. The effect is stated on
  the list of entries that the bucket holds. \<open>seg_used\<close> counts the rows in use.
\<close>

section \<open>Linking and filling a row\<close>

lemma dir_link_ok:
  assumes l: "seg_links d s fl cs {e}" and b: "b < buckets d"
  defines "d' \<equiv> dir_link e (b * 4) s d"
  shows "seg_links d' s fl (cs(b := e # cs b)) {}" "frame s d d'" "direntries_used d' = direntries_used d"
    "seg_in d s j \<Longrightarrow> payload (dir_at d' s j) = payload (dir_at d s j)"
    "seg_in d s j \<Longrightarrow> emp d' s j = emp d s j"
proof -
  have k: "links_ok (nxt d s) (prv d s) (flh d s) (buckets d) fl cs {e}" using l by (simp add: seg_links_def)
  note D = links_okD[OF k]
  have h: "seg_in d s (b * 4)" by (rule seg_links_head[OF l b])
  have er: "e \<in> rows (buckets d)" using D(10) by simp
  have ein: "seg_in d s e" by (rule seg_links_row[OF l er])
  have ne: "e \<noteq> b * 4" using er head_not_row by auto
  let ?d1 = "put_next s e (nxt d s (b * 4)) d"
  have d': "d' = put_next s (b * 4) e ?d1" by (simp add: d'_def dir_link_def nxt_def Let_def)
  have at: "dir_at d' s j = (if j = b * 4 then dir_set_next e (dir_at d s j)
      else if j = e then dir_set_next (nxt d s (b * 4)) (dir_at d s j) else dir_at d s j)" if "seg_in d s j" for j
    unfolding d' using that h ein ne by (auto simp: at_put_next)
  show fr: "frame s d d'" unfolding d' by (rule frame_trans[OF frame_ops(1) frame_ops(1)]) (use h ein in simp_all)
  show "direntries_used d' = direntries_used d" by (simp add: d')
  show "payload (dir_at d' s j) = payload (dir_at d s j)" if "seg_in d s j" using at[OF that] by simp
  show "emp d' s j = emp d s j" if "seg_in d s j" using at[OF that] by (simp add: emp_def dir_simps)
  have inr: "seg_in d s i" if "i < buckets d * 4" for i using l that by (simp add: seg_links_def seg_in_def)
  have small: "nxt d s (b * 4) < 2 ^ 16" using unsigned_less[of "dir_next (dir_at d s (b * 4))"] by (simp add: nxt_def)
  have f: "flh d' s = flh d s" by (simp add: d')
  have "links_ok ((nxt d s)(e := nxt d s (b * 4), b * 4 := e)) (prv d s) (flh d s) (buckets d) fl (cs(b := e # cs b)) {}"
    using links_link[OF k _ b, of e] by simp
  then show "seg_links d' s fl (cs(b := e # cs b)) {}"
  proof (rule seg_linksI[OF _ fr l f])
    show "((nxt d s)(e := nxt d s (b * 4), b * 4 := e)) i = nxt d' s i" if "i < buckets d * 4" for i
      using at[OF inr[OF that]] small seg_in_less[OF ein] ne by (auto simp: nxt_def dir_simps unat_link)
    show "prv d s i = prv d' s i" if "i \<in> set fl" for i
      using at[OF seg_links_free_row(2)[OF l that]] by (auto simp: prv_def dir_simps)
  qed
qed

definition filled :: "dir \<Rightarrow> u32 \<Rightarrow> dir" where
  "filled x t = payload (dir_set_tag t x)"

lemma payload_fill: "payload (dir_set_tag t (dir_assign_data x y)) = filled x t"
  by (simp add: filled_def payload_def dir_set_tag_def dir_assign_data_def Let_def)

lemma filled_sel [simp]:
  "dir_offset (filled x t) = dir_offset x" "dir_tag (filled x t) = DIR_MASK_TAG t" "dir_phase (filled x t) = dir_phase x"
  by (simp_all add: filled_def dir_simps)

lemma filled_valid [simp]: "dir_valid d (filled x t) = dir_valid d x"
  by (simp add: dir_valid_def part_in_phase_valid_def part_out_of_phase_valid_def offset_of_def)

lemma dir_fill_ok:
  fixes x :: dir and t :: u32
  assumes l: "seg_links d s fl cs {}" and b: "b < buckets d" and e: "e \<in> set (b * 4 # cs b)"
  defines "d' \<equiv> dir_fill s e x t d"
  shows "seg_links d' s fl cs {}" "frame s d d'" "direntries_used d' = direntries_used d"
    "seg_in d s j \<Longrightarrow> payload (dir_at d' s j) = (if j = e then filled x t else payload (dir_at d s j))"
    "j \<in> set fl \<Longrightarrow> emp d' s j = emp d s j"
proof -
  note E = seg_links_in_chain[OF l b e]
  have at: "dir_at d' s j = (if j = e then dir_set_tag t (dir_assign_data x (dir_at d s e)) else dir_at d s j)"
    if "seg_in d s j" for j unfolding d'_def dir_fill_def using E(1) that by (simp add: at_put)
  show fr: "frame s d d'" unfolding d'_def dir_fill_def by (rule frame_put[OF E(1)])
  show "direntries_used d' = direntries_used d" by (simp add: d'_def dir_fill_def)
  show "payload (dir_at d' s j) = (if j = e then filled x t else payload (dir_at d s j))" if "seg_in d s j"
    using at[OF that] by (simp add: payload_fill)
  have nf: "j \<noteq> e" if "j \<in> set fl" for j using E(2) that by auto
  show "emp d' s j = emp d s j" if "j \<in> set fl"
    using at[OF seg_links_free_row(2)[OF l that]] nf[OF that] by (simp add: emp_def)
  have k: "links_ok (nxt d s) (prv d s) (flh d s) (buckets d) fl cs {}" using l by (simp add: seg_links_def)
  have inr: "seg_in d s i" if "i < buckets d * 4" for i using l that by (simp add: seg_links_def seg_in_def)
  show "seg_links d' s fl cs {}"
  proof (rule seg_linksI[OF k fr l])
    show "flh d' s = flh d s" by (simp add: d'_def dir_fill_def)
    show "nxt d s i = nxt d' s i" if "i < buckets d * 4" for i
      using at[OF inr[OF that]] by (auto simp: nxt_def dir_simps)
    show "prv d s i = prv d' s i" if "i \<in> set fl" for i
      using at[OF seg_links_free_row(2)[OF l that]] nf[OF that] by (simp add: prv_def)
  qed
qed

section \<open>Finding a slot\<close>

text \<open>Where a slot comes from: the head of an empty bucket, or a fresh row linked second.\<close>

definition slot_post ::
  "nat \<Rightarrow> nat \<Rightarrow> (nat \<Rightarrow> nat list) \<Rightarrow> part \<Rightarrow> nat \<Rightarrow> part \<Rightarrow> nat list \<Rightarrow> nat list \<Rightarrow> bool" where
  "slot_post s b cs d e d' fl' ch' \<longleftrightarrow> seg_links d' s fl' (cs(b := ch')) {} \<and> frame s d d' \<and>
     direntries_used d' = direntries_used d \<and> (\<forall>i\<in>set fl'. emp d' s i) \<and>
     (\<forall>c<buckets d. c \<noteq> b \<longrightarrow> bpays d' s c (cs c) = bpays d s c (cs c)) \<and>
     (if emp d s (b * 4) then e = b * 4 \<and> ch' = cs b \<and> bpays d' s b (cs b) = bpays d s b (cs b)
      else e \<noteq> b * 4 \<and> ch' = e # cs b \<and> bpays d' s b (cs b) = bpays d s b (cs b))"

lemma bpays_cong:
  assumes "\<And>j. j \<in> set (b * 4 # ch) \<Longrightarrow> payload (dir_at d' s j) = payload (dir_at d s j)"
  shows "bpays d' s b ch = bpays d s b ch"
  unfolding bpays_def pays_def using assms by (intro map_cong) auto

lemma alloc_link_ok:
  assumes l: "seg_links d s fl cs {}" and b: "b < buckets d" and em: "\<forall>i\<in>set fl. emp d s i" "\<not> emp d s (b * 4)"
    and a: "alloc_post s d fl cs e d1 fl'"
  shows "slot_post s b cs d e (dir_link e (b * 4) s d1) fl' (e # cs b)"
proof -
  have l1: "seg_links d1 s fl' cs {e}" and fr1: "frame s d d1" and fl': "set fl' = set fl - {e}" and e: "e \<in> set fl"
    and u: "direntries_used d1 = direntries_used d"
    and at: "\<And>j. seg_in d s j \<Longrightarrow> emp d1 s j = emp d s j \<and> (j \<notin> set fl \<longrightarrow> dir_at d1 s j = dir_at d s j)"
    using a unfolding alloc_post_def by auto
  have b1: "b < buckets d1" using b frame_params[OF fr1] by simp
  note L = dir_link_ok[OF l1 b1]
  have i1: "seg_in d1 s j = seg_in d s j" for j using fr1 by (simp add: frame_def params_def seg_in_def)
  have pay: "payload (dir_at (dir_link e (b * 4) s d1) s j) = payload (dir_at d s j)"
    if "c < buckets d" "j \<in> set (c * 4 # cs c)" for c j
    using L(4)[of j] at[of j] seg_links_in_chain(1,2)[OF l that] by (simp add: i1)
  have "e \<noteq> b * 4" using seg_links_free_row(1)[OF l e] head_not_row by auto
  moreover have "\<forall>i\<in>set fl'. emp (dir_link e (b * 4) s d1) s i"
    using L(5) at em(1) fl' seg_links_free_row(2)[OF l] i1 by auto
  ultimately show ?thesis
    using L(1,3) u frame_trans[OF fr1 L(2)] em(2) pay b unfolding slot_post_def
    by (auto intro!: bpays_cong)
qed

lemma freelist_pop_ok:
  assumes l: "seg_links d s (e # fl) cs {}" and em: "emp d s e"
  shows "freelist_pop s d = Some (Some e, put_prev_opt s (dir_from_offset (nxt d s e)) 0 (set_freelist s (dir_next (dir_at d s e)) d))"
proof -
  have f: "unat (freelist d ! s) = e" "e \<noteq> 0" using l by (auto simp: seg_links_def links_ok_def flh_def)
  have g: "geom d" "s < segments d" using l by (simp_all add: seg_links_def)
  have "unat (freelist (set_freelist s (dir_next (dir_at d s e)) d) ! s) = nxt d s e"
    using flh_set_freelist[OF g] by (simp add: flh_def nxt_def)
  then show ?thesis using f em by (simp add: freelist_pop_def dir_from_offset_def Let_def emp_def)
qed

lemma empty_row_Some: "empty_row d s b = Some e \<Longrightarrow> emp d s e \<and> e \<in> {b + 1, b + 2, b + 3}"
  unfolding empty_row_def DIR_DEPTH_def upt_1_4 dir_bucket_row_def
  by (auto simp: dir_is_empty_def emp_def split: if_splits)

lemma seg_rep_empty_row:
  assumes r: "seg_rep d s fl cs" and i: "i \<in> rows (buckets d)"
  shows "emp d s i \<longleftrightarrow> i \<in> set fl"
proof -
  have k: "links_ok (nxt d s) (prv d s) (flh d s) (buckets d) fl cs {}" using r by (simp add: seg_rep_def seg_links_def)
  have "i \<in> set fl \<or> (\<exists>b<buckets d. i \<in> set (cs b))" using links_okD(8)[OF k] i by auto
  moreover have "emp d s i" if "i \<in> set fl" using r that by (simp add: seg_rep_def filled_ok_def)
  moreover have "\<not> emp d s i" if "b < buckets d" "i \<in> set (cs b)" for b
    using r that unfolding seg_rep_def filled_ok_def by fastforce
  ultimately show ?thesis using links_okD(5)[OF k] by blast
qed

lemma insert_slot_room:
  assumes r: "seg_rep d s fl cs" and b: "b < buckets d" and room: "emp d s (b * 4) \<or> fl \<noteq> []"
  shows "\<exists>e d' fl' ch'. insert_slot s (b * 4) d = Some (e, d') \<and> slot_post s b cs d e d' fl' ch'"
proof -
  have l: "seg_links d s fl cs {}" and em: "\<forall>i\<in>set fl. emp d s i" using r by (auto simp: seg_rep_pays)
  show ?thesis
  proof (cases "emp d s (b * 4)")
    case True
    then have "insert_slot s (b * 4) d = Some (b * 4, d)"
      by (subst insert_slot.simps) (simp add: dir_is_empty_def emp_def)
    moreover have "slot_post s b cs d (b * 4) d fl (cs b)" using l em True by (simp add: slot_post_def)
    ultimately show ?thesis by blast
  next
    case ne: False
    show ?thesis
    proof (cases "empty_row d s (b * 4)")
      case (Some e)
      have "e \<in> rows (buckets d)" using empty_row_Some[OF Some] b unfolding rows_iff by auto presburger+
      then have "e \<in> set fl" using seg_rep_empty_row[OF r] empty_row_Some[OF Some] by blast
      then obtain fl' where a: "alloc_post s d fl cs e (unlink_from_freelist e s d) fl'" using unlink_ok[OF l] by blast
      have "insert_slot s (b * 4) d = Some (e, dir_link e (b * 4) s (unlink_from_freelist e s d))"
        using ne Some by (subst insert_slot.simps) (simp add: dir_is_empty_def emp_def)
      then show ?thesis using alloc_link_ok[OF l b em ne a] by blast
    next
      case None
      obtain e fl0 where fl: "fl = e # fl0" using room ne by (cases fl) auto
      note P = freelist_pop_ok[of d s e fl0 cs] and A = pop_head_ok[of d s e fl0 cs]
      have "insert_slot s (b * 4) d = Some (e, dir_link e (b * 4) s
          (put_prev_opt s (dir_from_offset (nxt d s e)) 0 (set_freelist s (dir_next (dir_at d s e)) d)))"
        using ne None P l em fl by (subst insert_slot.simps) (simp add: dir_is_empty_def emp_def)
      then show ?thesis using alloc_link_ok[OF l b em ne] A l fl by blast
    qed
  qed
qed

section \<open>Inserting\<close>

text \<open>The abstract effect of an insertion on the entries of a bucket: the new entry goes second.\<close>

definition bucket_insert :: "dir \<Rightarrow> dir list \<Rightarrow> dir list" where
  "bucket_insert x es = (case es of [] \<Rightarrow> [x] | h # r \<Rightarrow> h # x # r)"

lemma set_bucket_insert: "set (bucket_insert x es) = insert x (set es)" "length (bucket_insert x es) = Suc (length es)"
  by (auto simp: bucket_insert_def split: list.split)

lemma contents_in_use: "z \<in> set (contents d s b ch) \<Longrightarrow> dir_offset z \<noteq> 0"
  by (simp add: contents_bpays)

lemma seg_rep_bpays:
  assumes "seg_rep d s fl cs" "b < buckets d"
  shows "emp d s (b * 4) \<Longrightarrow> cs b = [] \<and> contents d s b (cs b) = []"
    "\<not> emp d s (b * 4) \<Longrightarrow> contents d s b (cs b) = bpays d s b (cs b)"
    "length (cs b) = length (contents d s b (cs b)) - 1"
    "emp d s (b * 4) \<longleftrightarrow> contents d s b (cs b) = []"
proof -
  have f: "(\<forall>i\<in>set (b * 4 # cs b). \<not> emp d s i) \<or> cs b = [] \<and> dir_at d s (b * 4) = dir_clear"
    using assms by (simp add: seg_rep_def filled_ok_def)
  show 1: "emp d s (b * 4) \<Longrightarrow> cs b = [] \<and> contents d s b (cs b) = []"
    using f by (auto simp: contents_def emp_def dir_simps)
  show 2: "\<not> emp d s (b * 4) \<Longrightarrow> contents d s b (cs b) = bpays d s b (cs b)"
    using f by (auto simp: contents_def bpays_def pays_def emp_def filter_id_conv dir_simps)
  show "length (cs b) = length (contents d s b (cs b)) - 1" "emp d s (b * 4) \<longleftrightarrow> contents d s b (cs b) = []"
    using 1 2 by (cases "emp d s (b * 4)"; simp add: bpays_def pays_def)+
qed

lemma insert_fill_ok:
  fixes t :: u32
  assumes r: "seg_rep d s fl cs" and b: "b < buckets d" and S: "slot_post s b cs d e d1 fl1 ch1" and x: "dir_offset x \<noteq> 0"
  defines "d' \<equiv> dir_fill s e x t d1"
  shows "seg_rep d' s fl1 (cs(b := ch1))" "frame s d d'" "direntries_used d' = direntries_used d"
    "contents d' s b ch1 = bucket_insert (filled x t) (contents d s b (cs b))"
    "c < buckets d \<Longrightarrow> c \<noteq> b \<Longrightarrow> contents d' s c (cs c) = contents d s c (cs c)"
proof -
  have l1: "seg_links d1 s fl1 (cs(b := ch1)) {}" and fr1: "frame s d d1" and u1: "direntries_used d1 = direntries_used d"
    and em1: "\<forall>i\<in>set fl1. emp d1 s i" and oth: "\<And>c. c < buckets d \<Longrightarrow> c \<noteq> b \<Longrightarrow> bpays d1 s c (cs c) = bpays d s c (cs c)"
    using S unfolding slot_post_def by blast+
  have b1: "b < buckets d1" and B1: "buckets d1 = buckets d" using b frame_params[OF fr1] by simp_all
  have e: "e \<in> set (b * 4 # (cs(b := ch1)) b)" using S by (auto simp: slot_post_def split: if_splits)
  note F = dir_fill_ok[OF l1 b1 e, where x = x and t = t, folded d'_def]
  show fr: "frame s d d'" by (rule frame_trans[OF fr1 F(2)])
  show "direntries_used d' = direntries_used d" using F(3) u1 by simp
  have pay: "payload (dir_at d' s j) = (if j = e then filled x t else payload (dir_at d1 s j))"
    if "c < buckets d" "j \<in> set (c * 4 # (cs(b := ch1)) c)" for c j
    using F(4)[OF seg_links_in_chain(1)[OF l1 _ that(2)]] that(1) B1 by simp
  have bp: "bpays d' s c (cs c) = bpays d s c (cs c)" if c: "c < buckets d" "c \<noteq> b" for c
  proof -
    have "j \<noteq> e" if "j \<in> set (c * 4 # cs c)" for j using seg_links_in_chain(4)[OF l1 b1 e, of c] c B1 that by auto
    then have "bpays d' s c (cs c) = bpays d1 s c (cs c)" using pay[OF c(1)] c(2) by (intro bpays_cong) auto
    then show ?thesis using oth[OF c] by simp
  qed
  show "contents d' s c (cs c) = contents d s c (cs c)" if "c < buckets d" "c \<noteq> b" using bp[OF that] by (simp add: contents_bpays)
  have dist: "distinct (b * 4 # ch1)" using seg_links_distinct(1)[OF l1 b1] by simp
  have bb: "bpays d' s b ch1 = bucket_insert (filled x t) (contents d s b (cs b))"
  proof (cases "emp d s (b * 4)")
    case True
    then have "e = b * 4" "ch1 = []" "contents d s b (cs b) = []" using S seg_rep_bpays(1)[OF r b] by (auto simp: slot_post_def)
    then show ?thesis using pay[OF b, of e] by (simp add: bpays_def bucket_insert_def)
  next
    case False
    then have ch: "ch1 = e # cs b" "e \<noteq> b * 4" and q: "bpays d1 s b (cs b) = bpays d s b (cs b)" using S by (auto simp: slot_post_def)
    have "bpays d' s b (cs b) = bpays d1 s b (cs b)" using pay[OF b] ch dist by (intro bpays_cong) auto
    then show ?thesis using pay[OF b, of e] q seg_rep_bpays(2)[OF r b False] ch
      by (auto simp: bpays_def bucket_insert_def)
  qed
  have in_use: "dir_offset z \<noteq> 0" if "z \<in> set (bpays d' s b ch1)" for z
  proof -
    have "z = filled x t \<or> z \<in> set (contents d s b (cs b))" using that unfolding bb set_bucket_insert by blast
    then show ?thesis using x contents_in_use by auto
  qed
  have "contents d' s b ch1 = bpays d' s b ch1" unfolding contents_bpays using in_use by (simp only: filter_id_conv) blast
  then show "contents d' s b ch1 = bucket_insert (filled x t) (contents d s b (cs b))" by (simp only: bb)
  have "ok_pays (bpays d' s c ((cs(b := ch1)) c))" if "c < buckets d'" for c
  proof (cases "c = b")
    case True
    then show ?thesis using in_use by (simp add: ok_pays_def)
  next
    case False
    then show ?thesis using that bp[of c] r frame_params[OF fr] by (simp add: seg_rep_pays)
  qed
  then show "seg_rep d' s fl1 (cs(b := ch1))" using F(1,5) em1 unfolding seg_rep_pays by blast
qed

section \<open>Counting rows\<close>

definition seg_used :: "part \<Rightarrow> nat \<Rightarrow> nat" where
  "seg_used d s = card {i. i < buckets d * 4 \<and> \<not> emp d s i}"

lemma seg_used_sum:
  assumes l: "seg_links d s fl cs {}" and em: "\<forall>i\<in>set fl. emp d s i"
  shows "int (seg_used d s) = (\<Sum>b\<leftarrow>[0..<buckets d]. used_in (bpays d s b (cs b)))"
proof -
  have k: "links_ok (nxt d s) (prv d s) (flh d s) (buckets d) fl cs {}" using l by (simp add: seg_links_def)
  let ?A = "\<lambda>b. {i \<in> set (b * 4 # cs b). \<not> emp d s i}"
  have eq: "{i. i < buckets d * 4 \<and> \<not> emp d s i} = (\<Union>b\<in>{..<buckets d}. ?A b)"
  proof (intro equalityI subsetI)
    fix i assume "i \<in> {i. i < buckets d * 4 \<and> \<not> emp d s i}"
    then have i: "i < buckets d * 4" "\<not> emp d s i" by auto
    show "i \<in> (\<Union>b\<in>{..<buckets d}. ?A b)"
    proof (cases "i mod 4 = 0")
      case True
      then have "i = i div 4 * 4" "i div 4 < buckets d" using i(1) by auto
      then show ?thesis using i(2) by (intro UN_I[of "i div 4"]) auto
    next
      case False
      then have "i \<in> rows (buckets d)" using i(1) by (simp add: rows_def)
      then obtain b where "b < buckets d" "i \<in> set (cs b)" using links_okD(8)[OF k] em i(2) by auto
      then show ?thesis using i(2) by auto
    qed
  next
    fix i assume "i \<in> (\<Union>b\<in>{..<buckets d}. ?A b)"
    then obtain b where b: "b < buckets d" "i \<in> set (b * 4 # cs b)" "\<not> emp d s i" by auto
    then show "i \<in> {i. i < buckets d * 4 \<and> \<not> emp d s i}" using seg_links_in_chain(1)[OF l b(1,2)] by (simp add: seg_in_def)
  qed
  have "card (\<Union>b\<in>{..<buckets d}. ?A b) = (\<Sum>b\<in>{..<buckets d}. card (?A b))"
  proof (rule card_UN_disjoint)
    show "\<forall>b\<in>{..<buckets d}. \<forall>c\<in>{..<buckets d}. b \<noteq> c \<longrightarrow> ?A b \<inter> ?A c = {}"
      using seg_links_in_chain(4)[OF l] by fast
  qed auto
  moreover have "int (card (?A b)) = used_in (bpays d s b (cs b))" if "b < buckets d" for b
  proof -
    have "card (?A b) = length (filter (\<lambda>i. \<not> emp d s i) (b * 4 # cs b))"
      using distinct_card[OF distinct_filter[OF seg_links_distinct(1)[OF l that]], of "\<lambda>i. \<not> emp d s i"]
      unfolding set_filter .
    also have "\<dots> = length (filter (\<lambda>e. dir_offset e \<noteq> 0) (bpays d s b (cs b)))"
      by (simp add: bpays_def pays_def filter_map comp_def emp_def)
    finally show ?thesis by (simp add: used_in_def)
  qed
  ultimately show ?thesis unfolding seg_used_def eq
    by (simp add: sum_list_distinct_conv_sum_set lessThan_atLeast0)
qed

end
