(* ===== verification/Cache_Dir_Purge.thy ===== *)
theory Cache_Dir_Purge
  imports Cache_Dir_Use "HOL-Library.Sublist"
begin

text \<open>
  \<^verbatim>\<open>freelist_clean\<close>: what cleaning and purging a full segment leaves in its buckets, and when
  it makes room, so that the retry loops of \<^verbatim>\<open>dir_insert\<close> and \<^verbatim>\<open>dir_overwrite\<close> end.
\<close>

section \<open>Purging a full segment\<close>

lemma purge_rows_eq: "purge_rows nb = [0..<nb * 4]"
proof (induction nb)
  case 0
  then show ?case by (simp add: purge_rows_def)
next
  case (Suc nb)
  have "purge_rows (Suc nb) = purge_rows nb @ map (dir_bucket_row (dir_bucket nb)) [0..<4]"
    by (simp add: purge_rows_def DIR_DEPTH_def)
  also have "map (dir_bucket_row (dir_bucket nb)) [0..<4] = [nb * 4..<nb * 4 + 4]"
    by (simp add: dir_bucket_row_def dir_bucket_def DIR_DEPTH_def upt_conv_Cons numeral_eq_Suc)
  finally show ?case unfolding Suc.IH using upt_add_eq_append[of 0 "nb * 4" 4] by (simp add: add.commute)
qed

text \<open>The purge empties a set \<open>P\<close> of rows whose head bit is set, at least one if there is any.\<close>

definition purged :: "nat \<Rightarrow> nat set \<Rightarrow> part \<Rightarrow> part \<Rightarrow> bool" where
  "purged s P d d' \<longleftrightarrow> frame s d d' \<and> flh d' s = flh d s \<and> direntries_used d' = direntries_used d - int (card P) \<and>
     (\<forall>j. seg_in d s j \<longrightarrow> dir_at d' s j = (if j \<in> P then dir_set_offset 0 (dir_at d s j) else dir_at d s j))"

lemma purge_fold_ok:
  assumes "geom d" "s < segments d" "set xs \<subseteq> {..<buckets d * 4}" "distinct xs"
  shows "\<exists>P n' d'. fold (purge_step s) xs (n, d) = (n', d') \<and> purged s P d d' \<and>
    P \<subseteq> {j \<in> set xs. dir_head (dir_at d s j) \<noteq> 0} \<and>
    (n mod 10 = 0 \<longrightarrow> (\<exists>j\<in>set xs. dir_head (dir_at d s j) \<noteq> 0) \<longrightarrow> P \<noteq> {})"
  using assms
proof (induction xs arbitrary: n d)
  case Nil
  then show ?case by (auto simp: purged_def intro!: exI[of _ "{}"])
next
  case (Cons x xs)
  have x: "seg_in d s x" using Cons.prems by (simp add: seg_in_def)
  have sub: "set xs \<subseteq> {..<buckets d * 4}" "distinct xs" using Cons.prems by simp_all
  note IH = Cons.IH[OF Cons.prems(1,2) sub]
  consider (no) "dir_head (dir_at d s x) = 0" | (skip) "dir_head (dir_at d s x) \<noteq> 0" "n mod 10 \<noteq> 0"
    | (hit) "dir_head (dir_at d s x) \<noteq> 0" "n mod 10 = 0" by blast
  then show ?case
  proof cases
    case no
    then have "purge_step s x (n, d) = (n, d)" by (simp add: purge_step_def)
    then have st: "fold (purge_step s) (x # xs) (n, d) = fold (purge_step s) xs (n, d)" by simp
    obtain P n' d' where "fold (purge_step s) xs (n, d) = (n', d')" "purged s P d d'"
      "P \<subseteq> {j \<in> set xs. dir_head (dir_at d s j) \<noteq> 0}"
      "n mod 10 = 0 \<longrightarrow> (\<exists>j\<in>set xs. dir_head (dir_at d s j) \<noteq> 0) \<longrightarrow> P \<noteq> {}" using IH[of n] by (elim exE conjE) (rule that)
    then show ?thesis unfolding st using no by (intro exI[of _ P] exI[of _ n'] exI[of _ d'] conjI) auto
  next
    case skip
    then have "purge_step s x (n, d) = (n + 1, d)" by (simp add: purge_step_def)
    then have st: "fold (purge_step s) (x # xs) (n, d) = fold (purge_step s) xs (n + 1, d)" by simp
    obtain P n' d' where "fold (purge_step s) xs (n + 1, d) = (n', d')" "purged s P d d'"
      "P \<subseteq> {j \<in> set xs. dir_head (dir_at d s j) \<noteq> 0}"
      "(n + 1) mod 10 = 0 \<longrightarrow> (\<exists>j\<in>set xs. dir_head (dir_at d s j) \<noteq> 0) \<longrightarrow> P \<noteq> {}" using IH[of "n + 1"] by (elim exE conjE) (rule that)
    then show ?thesis unfolding st using skip by (intro exI[of _ P] exI[of _ n'] exI[of _ d'] conjI) auto
  next
    case hit
    let ?d1 = "dir_put s x (dir_set_offset 0 (dir_at d s x)) (inc_used (- 1) d)"
    have st: "purge_step s x (n, d) = (n + 1, ?d1)" using hit by (simp add: purge_step_def)
    have at1: "dir_at ?d1 s j = (if j = x then dir_set_offset 0 (dir_at d s j) else dir_at d s j)" if "seg_in d s j" for j
      using x that by (simp add: at_put)
    have "frame s (inc_used (- 1) d) ?d1" using x by (intro frame_put) simp
    then have fr1: "frame s d ?d1" by (rule frame_trans[OF frame_stat(2)])
    have i1: "seg_in ?d1 s j = seg_in d s j" for j by simp
    obtain P n' d' where f: "fold (purge_step s) xs (n + 1, ?d1) = (n', d')" and p: "purged s P ?d1 d'"
      and P: "P \<subseteq> {j \<in> set xs. dir_head (dir_at ?d1 s j) \<noteq> 0}"
      using Cons.IH[of ?d1 "n + 1"] Cons.prems(1,2) sub by (simp) blast
    have xP: "x \<notin> P" using P Cons.prems(4) by auto
    have fin: "finite P" using P finite_subset by fastforce
    have in_s: "seg_in d s j" if "j \<in> set xs" for j using Cons.prems that by (auto simp: seg_in_def)
    have "purged s (insert x P) d d'"
      unfolding purged_def
    proof (intro conjI allI impI)
      show "frame s d d'" using frame_trans[OF fr1] p by (simp add: purged_def)
      show "flh d' s = flh d s" using p by (simp add: purged_def)
      show "direntries_used d' = direntries_used d - int (card (insert x P))" using p xP fin by (simp add: purged_def)
      show "dir_at d' s j = (if j \<in> insert x P then dir_set_offset 0 (dir_at d s j) else dir_at d s j)" if j: "seg_in d s j" for j
        using p at1[OF j] i1 j xP by (auto simp: purged_def)
    qed
    moreover have "insert x P \<subseteq> {j \<in> set (x # xs). dir_head (dir_at d s j) \<noteq> 0}"
      using P hit at1 in_s by (auto simp: dir_simps split: if_splits)
    moreover have "fold (purge_step s) (x # xs) (n, d) = (n', d')" using st f by simp
    ultimately show ?thesis by blast
  qed
qed

lemma contents_map_filter:
  "contents d s b ch = map (\<lambda>i. payload (dir_at d s i)) (filter (\<lambda>i. \<not> emp d s i) (b * 4 # ch))"
  by (simp add: contents_def filter_map comp_def emp_def)

lemma seg_used_contents:
  assumes "seg_rep d s fl cs"
  shows "seg_used d s = (\<Sum>b<buckets d. length (contents d s b (cs b)))"
proof -
  have "int (seg_used d s) = (\<Sum>b\<leftarrow>[0..<buckets d]. used_in (bpays d s b (cs b)))"
    by (rule seg_used_sum[of d s fl cs]) (use assms in \<open>simp_all add: seg_rep_pays\<close>)
  also have "\<dots> = int (\<Sum>b<buckets d. length (contents d s b (cs b)))"
    by (simp add: used_in_contents sum_list_distinct_conv_sum_set lessThan_atLeast0)
  finally show ?thesis by linarith
qed

lemma purged_ok:
  assumes r: "seg_rep d s [] cs" and p: "purged s P d d'" and P: "P \<subseteq> {j. j < buckets d * 4 \<and> dir_head (dir_at d s j) \<noteq> 0}"
  shows "seg_links d' s [] cs {}" "b < buckets d \<Longrightarrow> subseq (contents d' s b (cs b)) (contents d s b (cs b))"
    "direntries_used d' - int (seg_used d' s) = direntries_used d - int (seg_used d s)"
    "P \<noteq> {} \<Longrightarrow> seg_used d' s < seg_used d s" "seg_used d' s \<le> seg_used d s"
proof -
  have l: "seg_links d s [] cs {}" using r by (simp add: seg_rep_def)
  have fr: "frame s d d'" and f: "flh d' s = flh d s" and u: "direntries_used d' = direntries_used d - int (card P)"
    and at: "\<And>j. seg_in d s j \<Longrightarrow> dir_at d' s j = (if j \<in> P then dir_set_offset 0 (dir_at d s j) else dir_at d s j)"
    using p by (simp_all add: purged_def)
  have B: "buckets d' = buckets d" using frame_params[OF fr] by simp
  have inr: "seg_in d s i" if "i < buckets d * 4" for i using l that by (simp add: seg_links_def seg_in_def)
  have k: "links_ok (nxt d s) (prv d s) (flh d s) (buckets d) [] cs {}" using l by (simp add: seg_links_def)
  show "seg_links d' s [] cs {}"
    by (rule seg_linksI[OF k fr l f]) (use at inr in \<open>auto simp: nxt_def dir_simps\<close>)
  have ne: "\<not> emp d s j" if "j \<in> P" for j
  proof
    assume e: "emp d s j"
    have j: "j < buckets d * 4" "dir_head (dir_at d s j) \<noteq> 0" using P that by auto
    show False
    proof (cases "j mod 4 = 0")
      case True
      then have h: "j = j div 4 * 4" "j div 4 < buckets d" using j(1) by auto
      then have "dir_at d s j = dir_clear" using r e unfolding seg_rep_def filled_ok_def
        by (metis list.set_intros(1))
      then show ?thesis using j(2) by (simp add: dir_simps)
    next
      case False
      then show ?thesis using seg_rep_empty_row[OF r, of j] e j(1) by (simp add: rows_def)
    qed
  qed
  have em': "emp d' s j \<longleftrightarrow> emp d s j \<or> j \<in> P" if "seg_in d s j" for j
    using at[OF that] by (auto simp: emp_def dir_simps)
  show "subseq (contents d' s b (cs b)) (contents d s b (cs b))" if b: "b < buckets d"
  proof -
    have in_b: "seg_in d s i" if "i \<in> set (b * 4 # cs b)" for i using seg_links_in_chain(1)[OF l b that] .
    let ?f = "filter (\<lambda>i. \<not> emp d' s i) (b * 4 # cs b)"
    have "?f = filter (\<lambda>i. \<not> emp d' s i) (filter (\<lambda>i. \<not> emp d s i) (b * 4 # cs b))"
      unfolding filter_filter using em' in_b by (intro filter_cong) auto
    then have "subseq ?f (filter (\<lambda>i. \<not> emp d s i) (b * 4 # cs b))" by (metis subseq_filter_left)
    then have "subseq (map (\<lambda>i. payload (dir_at d s i)) ?f) (contents d s b (cs b))"
      unfolding contents_map_filter by (rule subseq_map)
    moreover have "contents d' s b (cs b) = map (\<lambda>i. payload (dir_at d s i)) ?f"
      unfolding contents_map_filter
    proof (rule map_cong[OF refl])
      fix i assume "i \<in> set ?f"
      then have "i \<in> set (b * 4 # cs b)" "\<not> emp d' s i" unfolding set_filter by blast+
      then show "payload (dir_at d' s i) = payload (dir_at d s i)" using at em' in_b by simp
    qed
    ultimately show ?thesis by simp
  qed
  have eq: "{i. i < buckets d * 4 \<and> \<not> emp d' s i} = {i. i < buckets d * 4 \<and> \<not> emp d s i} - P" using em' inr by auto
  have sub: "P \<subseteq> {i. i < buckets d * 4 \<and> \<not> emp d s i}" using P ne by auto
  then have fin: "finite P" by (rule finite_subset) simp
  have c: "seg_used d' s = seg_used d s - card P" unfolding seg_used_def B eq by (rule card_Diff_subset[OF fin sub])
  have le: "card P \<le> seg_used d s" unfolding seg_used_def by (rule card_mono[OF _ sub]) simp
  show "direntries_used d' - int (seg_used d' s) = direntries_used d - int (seg_used d s)" using u c le by simp
  show "seg_used d' s < seg_used d s" if "P \<noteq> {}"
  proof -
    have "0 < card P" using that fin by (simp add: card_gt_0_iff)
    then show ?thesis using c le by linarith
  qed
  show "seg_used d' s \<le> seg_used d s" using c by simp
qed

lemma chain_lengths:
  assumes "seg_rep d s fl cs"
  shows "length fl + (\<Sum>b<buckets d. length (cs b)) = 3 * buckets d"
proof -
  have l: "seg_links d s fl cs {}" using assms by (simp add: seg_rep_def)
  have k: "links_ok (nxt d s) (prv d s) (flh d s) (buckets d) fl cs {}" using l by (simp add: seg_links_def)
  note D = links_okD[OF k]
  have "card (\<Union>b\<in>{..<buckets d}. set (cs b)) = (\<Sum>b\<in>{..<buckets d}. card (set (cs b)))"
  proof (rule card_UN_disjoint)
    show "\<forall>b\<in>{..<buckets d}. \<forall>c\<in>{..<buckets d}. b \<noteq> c \<longrightarrow> set (cs b) \<inter> set (cs c) = {}" using D(4) by simp
  qed auto
  moreover have "card (set (cs b)) = length (cs b)" if "b < buckets d" for b
    using distinct_card[OF chain_distinct[OF D(3)[OF that]]] .
  ultimately have "card (\<Union>b\<in>{..<buckets d}. set (cs b)) = (\<Sum>b<buckets d. length (cs b))" by simp
  moreover have "card (set fl \<union> (\<Union>b\<in>{..<buckets d}. set (cs b))) = card (set fl) + card (\<Union>b\<in>{..<buckets d}. set (cs b))"
    by (rule card_Un_disjoint) (use D(5) in auto)
  moreover have "card (set fl) = length fl" by (rule distinct_card[OF chain_distinct[OF D(1)]])
  moreover have "card (rows (buckets d)) = 3 * buckets d"
    using distinct_card[OF init_rows_set(2)] init_rows_set(1,3) by metis
  ultimately show ?thesis using D(8) by simp
qed

lemma full_unchanged:
  assumes r: "seg_rep d s [] cs" and r': "seg_rep d' s [] cs'" and B: "buckets d' = buckets d"
    and sub: "\<And>b. b < buckets d \<Longrightarrow> subseq (contents d' s b (cs' b)) (contents d s b (cs b))"
    and c: "c < buckets d" "2 \<le> length (contents d s c (cs c))"
  shows "contents d' s c (cs' c) = contents d s c (cs c)"
proof -
  have le: "length (cs' b) \<le> length (cs b)" if "b < buckets d" for b
    using seg_rep_bpays(3)[OF r that] seg_rep_bpays(3)[OF r', of b] that list_emb_length[OF sub[OF that]] B by simp
  have "(\<Sum>b<buckets d. length (cs' b)) = (\<Sum>b<buckets d. length (cs b))"
    using chain_lengths[OF r] chain_lengths[OF r'] B by simp
  then have "length (cs' c) = length (cs c)" using sum_mono_inv[of "\<lambda>b. length (cs' b)" "{..<buckets d}" "\<lambda>b. length (cs b)"] le c(1) by auto
  then have "length (contents d' s c (cs' c)) = length (contents d s c (cs c))"
    using seg_rep_bpays(3)[OF r c(1)] seg_rep_bpays(3)[OF r', of c] c B by simp
  then show ?thesis using subseq_same_length[OF sub[OF c(1)]] by simp
qed

text \<open>Some bucket holds two entries or more, one of them a document head that a purge can pick.\<close>

definition purgeable :: "part \<Rightarrow> nat \<Rightarrow> (nat \<Rightarrow> nat list) \<Rightarrow> bool" where
  "purgeable d s cs \<longleftrightarrow> (\<exists>c<buckets d. 2 \<le> length (contents d s c (cs c)) \<and>
     (\<exists>e\<in>set (contents d s c (cs c)). dir_head e \<noteq> 0))"

lemma purgeable_row:
  assumes r: "seg_rep d s fl cs" and p: "purgeable d s cs"
  shows "\<exists>j\<in>set [0..<buckets d * 4]. dir_head (dir_at d s j) \<noteq> 0"
proof -
  obtain c e where c: "c < buckets d" "e \<in> set (contents d s c (cs c))" "dir_head e \<noteq> 0"
    using p by (auto simp: purgeable_def)
  then obtain i where i: "i \<in> set (c * 4 # cs c)" "e = payload (dir_at d s i)" unfolding contents_map_filter set_map set_filter by blast
  have l: "seg_links d s fl cs {}" using r by (simp add: seg_rep_def)
  have "seg_in d s i" by (rule seg_links_in_chain(1)[OF l c(1) i(1)])
  then show ?thesis using c(3) i(2) by (auto simp: seg_in_def)
qed

lemma purgeable_mono:
  assumes "seg_rep d s [] cs" "seg_rep d' s [] cs'" "buckets d' = buckets d"
    "\<And>b. b < buckets d \<Longrightarrow> subseq (contents d' s b (cs' b)) (contents d s b (cs b))" "purgeable d s cs"
  shows "purgeable d' s cs'"
proof -
  obtain c where c: "c < buckets d" "2 \<le> length (contents d s c (cs c))" "\<exists>e\<in>set (contents d s c (cs c)). dir_head e \<noteq> 0"
    using assms(5) by (auto simp: purgeable_def)
  have "contents d' s c (cs' c) = contents d s c (cs c)" by (rule full_unchanged[OF assms(1-4) c(1,2)])
  then show ?thesis unfolding purgeable_def assms(3) using c by (intro exI[of _ c]) simp
qed

text \<open>One cleaning pass, with the effect on the whole segment.\<close>

definition shrunk :: "nat \<Rightarrow> (nat \<Rightarrow> nat list) \<Rightarrow> part \<Rightarrow> part \<Rightarrow> nat list \<Rightarrow> (nat \<Rightarrow> nat list) \<Rightarrow> bool" where
  "shrunk s cs d d' fl' cs' \<longleftrightarrow> seg_rep d' s fl' cs' \<and> frame s d d' \<and>
     (\<forall>b<buckets d. subseq (contents d' s b (cs' b)) (contents d s b (cs b))) \<and>
     direntries_used d' - int (seg_used d' s) = direntries_used d - int (seg_used d s) \<and> seg_used d' s \<le> seg_used d s"

lemma clean_shrunk:
  assumes l: "seg_links d s fl cs {}" and em: "\<forall>i\<in>set fl. emp d s i"
  shows "\<exists>d' fl' cs'. dir_clean_segment s d = Some d' \<and> shrunk s cs d d' fl' cs' \<and>
     (\<forall>b<buckets d. contents d' s b (cs' b) = live d (contents d s b (cs b)))"
proof -
  obtain d' fl' cs' where c: "dir_clean_segment s d = Some d'" and C: "cleaned s [0..<buckets d] cs d d' fl' cs'" and r: "seg_rep d' s fl' cs'"
    using dir_clean_segment_ok[OF l em] by blast
  have fr: "frame s d d'" using C by (simp add: cleaned_def)
  have B: "buckets d' = buckets d" using frame_params[OF fr] by simp
  have ct: "contents d' s b (cs' b) = live d (contents d s b (cs b))" if "b < buckets d" for b
    using C that by (simp add: cleaned_def)
  have s0: "int (seg_used d s) = (\<Sum>b\<leftarrow>[0..<buckets d]. used_in (bpays d s b (cs b)))" by (rule seg_used_sum[OF l em])
  have s1: "int (seg_used d' s) = (\<Sum>b\<leftarrow>[0..<buckets d]. used_in (bpays d' s b (cs' b)))"
    using seg_used_sum[of d' s fl' cs'] C B by (simp add: cleaned_def)
  have bal: "direntries_used d' - int (seg_used d' s) = direntries_used d - int (seg_used d s)"
    unfolding s0 s1 using C unfolding cleaned_def by blast
  have "int (seg_used d' s) \<le> int (seg_used d s)"
    unfolding s0 s1 used_in_contents by (rule sum_list_mono) (simp add: ct live_def)
  moreover have "subseq (contents d' s b (cs' b)) (contents d s b (cs b))" if "b < buckets d" for b
    unfolding ct[OF that] by (simp add: live_def)
  ultimately show ?thesis using c r fr ct bal by (intro exI[of _ d'] exI[of _ fl'] exI[of _ cs']) (simp add: shrunk_def)
qed

lemma shrunk_trans:
  assumes "shrunk s cs d d1 fl1 cs1" "shrunk s cs1 d1 d2 fl2 cs2"
  shows "shrunk s cs d d2 fl2 cs2"
proof -
  have fr: "frame s d d1" "frame s d1 d2" using assms by (simp_all add: shrunk_def)
  have "buckets d1 = buckets d" using frame_params[OF fr(1)] by simp
  then have "subseq (contents d2 s b (cs2 b)) (contents d s b (cs b))" if "b < buckets d" for b
    using assms that subseq_order.trans unfolding shrunk_def by metis
  then show ?thesis using assms frame_trans[OF fr] by (simp add: shrunk_def)
qed

lemma freelist_clean_ok:
  assumes r: "seg_rep d s [] cs"
  obtains d' fl' cs' where "freelist_clean s d = Some d'" "shrunk s cs d d' fl' cs'"
    "fl' = [] \<longrightarrow> purgeable d s cs \<longrightarrow> seg_used d' s < seg_used d s"
proof -
  have l: "seg_links d s [] cs {}" using r by (simp add: seg_rep_def)
  obtain d1 fl1 cs1 where c1: "dir_clean_segment s d = Some d1" and S1: "shrunk s cs d d1 fl1 cs1"
    using clean_shrunk[OF l] by auto
  have r1: "seg_rep d1 s fl1 cs1" and fr1: "frame s d d1" using S1 by (simp_all add: shrunk_def)
  have B1: "buckets d1 = buckets d" using frame_params[OF fr1] by simp
  have l1: "seg_links d1 s fl1 cs1 {}" using r1 by (simp add: seg_rep_def)
  have f1: "freelist d1 ! s = 0 \<longleftrightarrow> fl1 = []" using seg_links_flh(3)[OF l1] by (simp add: flh_def unsigned_eq_0_iff)
  show ?thesis
  proof (cases "fl1 = []")
    case False
    then show ?thesis using that[of d1 fl1 cs1] S1 c1 f1 by (simp add: freelist_clean_def)
  next
    case True
    note r1 = r1[unfolded True]
    have g: "geom d1" "s < segments d1" using l1 by (simp_all add: seg_links_def)
    have xs: "set [0..<buckets d1 * 4] \<subseteq> {..<buckets d1 * 4}" by auto
    obtain P n' d2 where f: "fold (purge_step s) (purge_rows (buckets d1)) (0, d1) = (n', d2)" and p: "purged s P d1 d2"
      and P: "P \<subseteq> {j \<in> set [0..<buckets d1 * 4]. dir_head (dir_at d1 s j) \<noteq> 0}"
      and Pn: "(\<exists>j\<in>set [0..<buckets d1 * 4]. dir_head (dir_at d1 s j) \<noteq> 0) \<longrightarrow> P \<noteq> {}"
      using purge_fold_ok[OF g xs distinct_upt, of 0] unfolding mod_0
      by (elim exE conjE) (rule that, simp_all add: purge_rows_eq)
    have P': "P \<subseteq> {j. j < buckets d1 * 4 \<and> dir_head (dir_at d1 s j) \<noteq> 0}" using P by auto
    note U = purged_ok[OF r1 p P']
    obtain d3 fl3 cs3 where c3: "dir_clean_segment s d2 = Some d3" and S3: "shrunk s cs1 d2 d3 fl3 cs3"
      using clean_shrunk[OF U(1)] by auto
    have fr2: "frame s d1 d2" using p by (simp add: purged_def)
    have S: "shrunk s cs1 d1 d3 fl3 cs3"
    proof -
      have B2: "buckets d2 = buckets d1" using frame_params[OF fr2] by simp
      have "subseq (contents d3 s b (cs3 b)) (contents d1 s b (cs1 b))" if "b < buckets d1" for b
        using S3 that B2 by (intro subseq_order.trans[OF _ U(2)[OF that]]) (simp add: shrunk_def)
      then show ?thesis using S3 U(3,5) frame_trans[OF fr2, of d3] by (simp add: shrunk_def)
    qed
    have "seg_used d3 s < seg_used d s" if "fl3 = []" "purgeable d s cs"
    proof -
      have "purgeable d1 s cs1" by (rule purgeable_mono[OF r r1 B1 _ that(2)]) (use S1 in \<open>simp add: shrunk_def\<close>)
      then have "P \<noteq> {}" using Pn purgeable_row[OF r1] by blast
      then show ?thesis using U(4) S1 S3 by (simp add: shrunk_def)
    qed
    then show ?thesis using that[of d3 fl3 cs3] shrunk_trans[OF S1 S] c1 c3 f f1 True by (simp add: freelist_clean_def)
  qed
qed

end
