(* ===== verification/Cache_Dir_Api.thy ===== *)
theory Cache_Dir_Api
  imports Cache_Dir_Purge
begin

text \<open>
  What the directory promises to its callers: \<^verbatim>\<open>dir_insert\<close>, \<^verbatim>\<open>dir_probe\<close>,
  \<^verbatim>\<open>dir_overwrite\<close> and \<^verbatim>\<open>dir_delete\<close> return, keep the invariant of every segment, and act on the
  entries of the bucket of a key as the list functions \<open>bucket_insert\<close>, \<open>probe_spec\<close>,
  \<open>replace_first\<close> and \<open>remove_first\<close>. The contract is the locale \<open>entry_index\<close>.
\<close>

section \<open>Specifications on the entries of a bucket\<close>

text \<open>The first entry that matches and is valid; entries that match but are not valid are dropped
  on the way.\<close>

fun probe_spec :: "('e \<Rightarrow> bool) \<Rightarrow> ('e \<Rightarrow> bool) \<Rightarrow> 'e list \<Rightarrow> 'e option \<times> 'e list" where
  "probe_spec m v [] = (None, [])"
| "probe_spec m v (e # es) =
     (if m e then if v e then (Some e, e # es) else probe_spec m v es
      else case probe_spec m v es of (r, es') \<Rightarrow> (r, e # es'))"

fun remove_first :: "('e \<Rightarrow> bool) \<Rightarrow> 'e list \<Rightarrow> 'e list" where
  "remove_first m [] = []"
| "remove_first m (e # es) = (if m e then es else e # remove_first m es)"

fun replace_first :: "('e \<Rightarrow> bool) \<Rightarrow> 'e \<Rightarrow> 'e list \<Rightarrow> 'e list" where
  "replace_first m y [] = []"
| "replace_first m y (e # es) = (if m e then y # es else e # replace_first m y es)"

lemma probe_spec_find: "fst (probe_spec m v es) = find (\<lambda>e. m e \<and> v e) es"
  by (induction es) (auto split: prod.split)

lemma probe_spec_skip:
  "(\<And>e. e \<in> set us \<Longrightarrow> \<not> m e) \<Longrightarrow>
   probe_spec m v (us @ es) = (fst (probe_spec m v es), us @ snd (probe_spec m v es))"
  by (induction us) (auto split: prod.split)

lemma probe_spec_subset: "set (snd (probe_spec m v es)) \<subseteq> set es"
  by (induction es) (auto split: prod.split)

lemma probe_spec_valid: "(\<And>e. e \<in> set es \<Longrightarrow> m e \<Longrightarrow> v e) \<Longrightarrow> snd (probe_spec m v es) = es"
  by (induction es) (auto split: prod.split)

lemma remove_first_split: "(\<And>e. e \<in> set us \<Longrightarrow> \<not> m e) \<Longrightarrow> m x \<Longrightarrow> remove_first m (us @ x # vs) = us @ vs"
  by (induction us) auto

lemma replace_first_split: "(\<And>e. e \<in> set us \<Longrightarrow> \<not> m e) \<Longrightarrow> m x \<Longrightarrow> replace_first m y (us @ x # vs) = us @ y # vs"
  by (induction us) auto

lemma remove_first_none: "(\<And>e. e \<in> set es \<Longrightarrow> \<not> m e) \<Longrightarrow> remove_first m es = es"
  by (induction es) auto

section \<open>Other segments\<close>

lemma frame_other:
  assumes fr: "frame s d d'" and s': "s' \<noteq> s" and i: "seg_inv d s'"
  shows "seg_inv d' s'" "b < buckets d \<Longrightarrow> bucket_entries d' s' b = bucket_entries d s' b"
proof -
  obtain fl cs where r: "seg_rep d s' fl cs" using i by (auto simp: seg_inv_def)
  have l: "seg_links d s' fl cs {}" using r by (simp add: seg_rep_def)
  have B: "buckets d' = buckets d" "segments d' = segments d" "geom d'"
    and at: "\<And>j. seg_in d s' j \<Longrightarrow> dir_at d' s' j = dir_at d s' j" and f: "flh d' s' = flh d s'"
    using fr s' l by (auto simp: frame_def params_def seg_links_def seg_in_def)
  have inr: "seg_in d s' j" if "j < buckets d * 4" for j using l that by (simp add: seg_links_def seg_in_def)
  have fin: "seg_in d s' j" if "j \<in> set fl" for j by (rule seg_links_free_row(2)[OF l that])
  have "links_ok (nxt d s') (prv d s') (flh d s') (buckets d) fl cs {}" using l by (simp add: seg_links_def)
  then have "links_ok (nxt d' s') (prv d' s') (flh d' s') (buckets d') fl cs {}"
    using links_ok_cong[of "buckets d" "nxt d s'" "nxt d' s'" fl "prv d s'" "prv d' s'" "flh d s'" cs "{}"] at inr fin
    unfolding B f by (simp add: nxt_def prv_def)
  then have l': "seg_links d' s' fl cs {}" using B l by (simp add: seg_links_def)
  have bp: "bpays d' s' b (cs b) = bpays d s' b (cs b)" if "b < buckets d" for b
    by (rule bpays_cong) (use at seg_links_in_chain(1)[OF l that] in auto)
  have "seg_rep d' s' fl cs" using r l' bp at fin by (auto simp: seg_rep_pays B emp_def)
  then show "seg_inv d' s'" by (rule seg_rep_inv)
  show "bucket_entries d' s' b = bucket_entries d s' b" if "b < buckets d"
    using bucket_entries_rep[OF l that] bucket_entries_rep[OF l', of b] bp[OF that] that B by (simp add: contents_bpays)
qed

section \<open>Insert\<close>

lemma shrunk_refl: "seg_rep d s fl cs \<Longrightarrow> shrunk s cs d d fl cs"
  by (simp add: shrunk_def)

lemma insert_slot_full:
  assumes r: "seg_rep d s [] cs" and b: "b < buckets d" and ne: "\<not> emp d s (b * 4)" and c: "freelist_clean s d = Some d1"
  shows "insert_slot s (b * 4) d = insert_slot s (b * 4) d1"
proof -
  have l: "seg_links d s [] cs {}" using r by (simp add: seg_rep_def)
  have "empty_row d s (b * 4) = None"
  proof (rule ccontr)
    assume "empty_row d s (b * 4) \<noteq> None"
    then obtain e where e: "empty_row d s (b * 4) = Some e" by auto
    have "e \<in> rows (buckets d)" using empty_row_Some[OF e] b unfolding rows_iff by auto presburger+
    then show False using seg_rep_empty_row[OF r] empty_row_Some[OF e] by simp
  qed
  moreover have "freelist_pop s d = Some (None, d1)"
    using seg_links_flh(3)[OF l] c by (simp add: freelist_pop_def flh_def dir_from_offset_def)
  ultimately show ?thesis using ne by (subst insert_slot.simps) (simp add: dir_is_empty_def emp_def)
qed

lemma insert_slot_ok:
  assumes "seg_rep d s fl cs" "b < buckets d" "emp d s (b * 4) \<or> fl \<noteq> [] \<or> purgeable d s cs"
  shows "\<exists>e d' d0 fl0 cs0 fl' ch'. insert_slot s (b * 4) d = Some (e, d') \<and> shrunk s cs d d0 fl0 cs0 \<and>
    (emp d s (b * 4) \<or> fl \<noteq> [] \<longrightarrow> d0 = d \<and> cs0 = cs) \<and> slot_post s b cs0 d0 e d' fl' ch'"
  using assms
proof (induction "seg_used d s" arbitrary: d fl cs rule: less_induct)
  case less
  note r = less.prems(1) and b = less.prems(2)
  show ?case
  proof (cases "emp d s (b * 4) \<or> fl \<noteq> []")
    case True
    obtain e d' fl' ch' where "insert_slot s (b * 4) d = Some (e, d')" "slot_post s b cs d e d' fl' ch'"
      using insert_slot_room[OF r b True] by (elim exE conjE) (rule that)
    then show ?thesis using shrunk_refl[OF r] by (intro exI conjI) auto
  next
    case False
    then have full: "fl = []" "\<not> emp d s (b * 4)" and p: "purgeable d s cs" using less.prems(3) by auto
    note r0 = r[unfolded full(1)]
    obtain d1 fl1 cs1 where c: "freelist_clean s d = Some d1" and S: "shrunk s cs d d1 fl1 cs1"
      and lt: "fl1 = [] \<longrightarrow> purgeable d s cs \<longrightarrow> seg_used d1 s < seg_used d s"
      by (rule freelist_clean_ok[OF r0])
    have eq: "insert_slot s (b * 4) d = insert_slot s (b * 4) d1" by (rule insert_slot_full[OF r0 b full(2) c])
    have r1: "seg_rep d1 s fl1 cs1" and fr: "frame s d d1" using S by (simp_all add: shrunk_def)
    have B1: "buckets d1 = buckets d" and b1: "b < buckets d1" using frame_params[OF fr] b by simp_all
    show ?thesis
    proof (cases "emp d1 s (b * 4) \<or> fl1 \<noteq> []")
      case True
      obtain e d' fl' ch' where "insert_slot s (b * 4) d1 = Some (e, d')" "slot_post s b cs1 d1 e d' fl' ch'"
        using insert_slot_room[OF r1 b1 True] by (elim exE conjE) (rule that)
      then show ?thesis unfolding eq using S full by (intro exI conjI) auto
    next
      case again: False
      then have f1: "fl1 = []" by simp
      have p1: "purgeable d1 s cs1"
        by (rule purgeable_mono[OF r0 r1[unfolded f1] B1 _ p]) (use S in \<open>simp add: shrunk_def\<close>)
      have lt1: "seg_used d1 s < seg_used d s" and room: "emp d1 s (b * 4) \<or> fl1 \<noteq> [] \<or> purgeable d1 s cs1"
        using lt f1 p p1 by simp_all
      obtain e d' d0 fl0 cs0 fl' ch' where "insert_slot s (b * 4) d1 = Some (e, d')" "shrunk s cs1 d1 d0 fl0 cs0"
        "slot_post s b cs0 d0 e d' fl' ch'"
        using less.hyps[OF lt1 r1 b1 room] by (elim exE conjE) (rule that)
      then show ?thesis unfolding eq using shrunk_trans[OF S] full by (intro exI conjI) auto
    qed
  qed
qed

lemma seg_used_step:
  assumes r: "seg_rep d s fl cs" and r': "seg_rep d' s fl' (cs(b := ch'))" and B: "buckets d' = buckets d" and b: "b < buckets d"
    and oth: "\<And>c. c < buckets d \<Longrightarrow> c \<noteq> b \<Longrightarrow> contents d' s c (cs c) = contents d s c (cs c)"
  shows "int (seg_used d' s) - int (length (contents d' s b ch')) = int (seg_used d s) - int (length (contents d s b (cs b)))"
proof -
  have split: "(\<Sum>c<buckets d. f c) = f b + (\<Sum>c\<in>{..<buckets d} - {b}. f c)" for f :: "nat \<Rightarrow> nat"
    using b by (simp add: sum.remove)
  have "(\<Sum>c\<in>{..<buckets d} - {b}. length (contents d' s c ((cs(b := ch')) c))) = (\<Sum>c\<in>{..<buckets d} - {b}. length (contents d s c (cs c)))"
    by (rule sum.cong) (use oth in auto)
  then show ?thesis unfolding seg_used_contents[OF r] seg_used_contents[OF r'] B split by simp
qed

text \<open>The directory of a partition as its callers see it, for one key.\<close>

definition key_entries :: "u8 list \<Rightarrow> part \<Rightarrow> dir list" where
  "key_entries key d = bucket_entries d (key_segment key d) (key_bucket key d)"

definition key_ok :: "u8 list \<Rightarrow> part \<Rightarrow> bool" where
  "key_ok key d \<longleftrightarrow> seg_inv d (key_segment key d)"

definition key_match :: "u8 list \<Rightarrow> dir \<Rightarrow> bool" where
  "key_match key e \<longleftrightarrow> dir_tag e = DIR_MASK_TAG (key_word key 2)"

text \<open>Everything that an operation on the bucket of \<open>key\<close> keeps: the other buckets, the other
  segments, and the difference between the statistic and the number of rows in use.\<close>

definition others_kept :: "u8 list \<Rightarrow> part \<Rightarrow> part \<Rightarrow> bool" where
  "others_kept key d d' \<longleftrightarrow> params d' = params d \<and>
     (\<forall>c<buckets d. c \<noteq> key_bucket key d \<longrightarrow> bucket_entries d' (key_segment key d) c = bucket_entries d (key_segment key d) c) \<and>
     (\<forall>s. s \<noteq> key_segment key d \<longrightarrow> seg_inv d s \<longrightarrow>
        seg_inv d' s \<and> (\<forall>c<buckets d. bucket_entries d' s c = bucket_entries d s c)) \<and>
     direntries_used d' - int (seg_used d' (key_segment key d)) = direntries_used d - int (seg_used d (key_segment key d))"

lemma key_ok_rep:
  assumes "key_ok key d"
  obtains fl cs where "seg_rep d (key_segment key d) fl cs" "key_bucket key d < buckets d"
    "fl = seg_free d (key_segment key d)" "cs = seg_chain d (key_segment key d)"
    "key_entries key d = contents d (key_segment key d) (key_bucket key d) (cs (key_bucket key d))"
proof -
  let ?s = "key_segment key d"
  have r: "seg_rep d ?s (seg_free d ?s) (seg_chain d ?s)" using assms by (simp add: key_ok_def seg_inv_def)
  have "0 < buckets d" using r by (simp add: seg_rep_def seg_links_def geom_def)
  then show ?thesis using that[OF r] by (simp add: key_bucket_def key_entries_def bucket_entries_def)
qed

lemma params_keys: "params d' = params d \<Longrightarrow> key_segment key d' = key_segment key d \<and> key_bucket key d' = key_bucket key d \<and> buckets d' = buckets d"
  by (simp add: params_def key_segment_def key_bucket_def)

lemma others_keptI:
  assumes r: "seg_rep d s fl cs" and r': "seg_rep d' s fl' (cs(b := ch'))" and s: "s = key_segment key d" "b = key_bucket key d"
    and b: "b < buckets d" and fr: "frame s d d'"
    and oth: "\<And>c. c < buckets d \<Longrightarrow> c \<noteq> b \<Longrightarrow> contents d' s c (cs c) = contents d s c (cs c)"
    and u: "direntries_used d' - int (length (contents d' s b ch')) = direntries_used d - int (length (contents d s b (cs b)))"
  shows "others_kept key d d'" "key_ok key d'" "key_entries key d' = contents d' s b ch'"
proof -
  have l: "seg_links d s fl cs {}" and l': "seg_links d' s fl' (cs(b := ch')) {}" using r r' by (simp_all add: seg_rep_def)
  have P: "params d' = params d" and B: "buckets d' = buckets d" using fr frame_params[OF fr] by (simp_all add: frame_def)
  have be: "bucket_entries d' s c = contents d' s c ((cs(b := ch')) c)" "bucket_entries d s c = contents d s c (cs c)" if "c < buckets d" for c
    using bucket_entries_rep[OF l that] bucket_entries_rep[OF l', of c] that B by simp_all
  note U = seg_used_step[OF r r' B b oth]
  show "key_ok key d'" using seg_rep_inv[OF r'] params_keys[OF P] s by (simp add: key_ok_def)
  show "key_entries key d' = contents d' s b ch'" using be(1)[OF b] params_keys[OF P] s by (simp add: key_entries_def)
  have "bucket_entries d' s c = bucket_entries d s c" if "c < buckets d" "c \<noteq> b" for c using be[OF that(1)] oth that by simp
  then show "others_kept key d d'"
    using P frame_other[OF fr] U u unfolding others_kept_def s[symmetric] by simp
qed

text \<open>The statistic and the dirty flag are not part of the structure.\<close>

lemma view_stat [simp]:
  "nxt (d\<lparr>dirty := v\<rparr>) = nxt d" "prv (d\<lparr>dirty := v\<rparr>) = prv d" "emp (d\<lparr>dirty := v\<rparr>) = emp d"
  "nxt (inc_used n d) = nxt d" "prv (inc_used n d) = prv d" "emp (inc_used n d) = emp d"
  by (simp_all add: fun_eq_iff nxt_def prv_def emp_def)

lemma seg_stat [simp]:
  "seg_rep (d\<lparr>dirty := v\<rparr>) s fl cs = seg_rep d s fl cs" "seg_rep (inc_used n d) s fl cs = seg_rep d s fl cs"
  "contents (d\<lparr>dirty := v\<rparr>) = contents d" "contents (inc_used n d) = contents d"
  "seg_used (d\<lparr>dirty := v\<rparr>) = seg_used d" "seg_used (inc_used n d) = seg_used d"
  by (simp_all add: fun_eq_iff seg_rep_def seg_links_def contents_def seg_used_def)

lemma list_stat [simp]:
  "seg_chain (d\<lparr>dirty := v\<rparr>) = seg_chain d" "seg_free (d\<lparr>dirty := v\<rparr>) = seg_free d"
  "seg_inv (d\<lparr>dirty := v\<rparr>) = seg_inv d" "bucket_entries (d\<lparr>dirty := v\<rparr>) = bucket_entries d"
proof -
  show c: "seg_chain (d\<lparr>dirty := v\<rparr>) = seg_chain d" and f: "seg_free (d\<lparr>dirty := v\<rparr>) = seg_free d"
    by (simp_all add: seg_chain_def[abs_def] seg_free_def[abs_def])
  show "seg_inv (d\<lparr>dirty := v\<rparr>) = seg_inv d" "bucket_entries (d\<lparr>dirty := v\<rparr>) = bucket_entries d"
    unfolding seg_inv_def[abs_def] bucket_entries_def[abs_def] c f by simp_all
qed

lemma frame_stat_trans:
  "frame s d d' \<Longrightarrow> frame s d (d'\<lparr>dirty := v\<rparr>)" "frame s d d' \<Longrightarrow> frame s d (inc_used n d')"
  using frame_trans frame_stat by blast+

lemma dir_insert_from_slot:
  assumes sl: "insert_slot s (b * 4) d = Some (e, d1)" and s: "s = key_segment key d" "b = key_bucket key d"
    and r0: "seg_rep d0 s fl0 cs0" and b: "b < buckets d0" and S: "slot_post s b cs0 d0 e d1 fl1 ch1" and x: "dir_offset x \<noteq> 0"
  obtains d' where "dir_insert key x d = Some d'" "seg_rep d' s fl1 (cs0(b := ch1))" "frame s d0 d'"
    "contents d' s b ch1 = bucket_insert (filled x (key_word key 2)) (contents d0 s b (cs0 b))"
    "\<forall>c<buckets d0. c \<noteq> b \<longrightarrow> contents d' s c (cs0 c) = contents d0 s c (cs0 c)"
    "direntries_used d' = direntries_used d0 + 1"
proof -
  note F = insert_fill_ok[OF r0 b S x, where t = "key_word key 2"]
  let ?d' = "inc_used 1 ((dir_fill s e x (key_word key 2) d1)\<lparr>dirty := True\<rparr>)"
  show ?thesis
  proof (rule that[of ?d'])
    show "dir_insert key x d = Some ?d'"
      using sl unfolding s by (simp add: dir_insert_def dir_bucket_def DIR_DEPTH_def)
    show "frame s d0 ?d'" by (intro frame_stat_trans F(2))
  qed (use F in simp_all)
qed

lemma dir_insert_room:
  assumes k: "key_ok key d" and x: "dir_offset x \<noteq> 0" and room: "key_entries key d = [] \<or> seg_free d (key_segment key d) \<noteq> []"
  shows "\<exists>d'. dir_insert key x d = Some d' \<and> key_ok key d' \<and>
    key_entries key d' = bucket_insert (filled x (key_word key 2)) (key_entries key d) \<and> others_kept key d d'"
proof -
  let ?s = "key_segment key d" and ?b = "key_bucket key d"
  obtain fl cs where r: "seg_rep d ?s fl cs" and b: "?b < buckets d" and fl: "fl = seg_free d ?s" "cs = seg_chain d ?s"
    and ke: "key_entries key d = contents d ?s ?b (cs ?b)" by (rule key_ok_rep[OF k])
  have "emp d ?s (?b * 4) \<or> fl \<noteq> []" using room seg_rep_bpays(4)[OF r b] ke fl by simp
  then obtain e d1 fl1 ch1 where sl: "insert_slot ?s (?b * 4) d = Some (e, d1)" and S: "slot_post ?s ?b cs d e d1 fl1 ch1"
    using insert_slot_room[OF r b] by blast
  obtain d' where I: "dir_insert key x d = Some d'" "seg_rep d' ?s fl1 (cs(?b := ch1))" "frame ?s d d'"
    "contents d' ?s ?b ch1 = bucket_insert (filled x (key_word key 2)) (contents d ?s ?b (cs ?b))"
    "\<forall>c<buckets d. c \<noteq> ?b \<longrightarrow> contents d' ?s c (cs c) = contents d ?s c (cs c)"
    "direntries_used d' = direntries_used d + 1"
    by (rule dir_insert_from_slot[OF sl refl refl r b S x])
  have u: "direntries_used d' - int (length (contents d' ?s ?b ch1)) = direntries_used d - int (length (contents d ?s ?b (cs ?b)))"
    by (simp add: I(4,6) set_bucket_insert)
  note O = others_keptI[OF r I(2) refl refl b I(3) I(5)[rule_format] u]
  show ?thesis using I(1,4) O ke by simp
qed

definition seg_purgeable :: "part \<Rightarrow> nat \<Rightarrow> bool" where
  "seg_purgeable d s = list_ex (\<lambda>c. 2 \<le> length (bucket_entries d s c) \<and> list_ex (\<lambda>e. dir_head e \<noteq> 0) (bucket_entries d s c)) [0..<buckets d]"

lemma dir_insert_purge:
  assumes k: "key_ok key d" and x: "dir_offset x \<noteq> 0" and p: "seg_purgeable d (key_segment key d)"
  shows "\<exists>d' es. dir_insert key x d = Some d' \<and> key_ok key d' \<and> subseq es (key_entries key d) \<and>
    key_entries key d' = bucket_insert (filled x (key_word key 2)) es \<and>
    (\<forall>c<buckets d. c \<noteq> key_bucket key d \<longrightarrow>
       subseq (bucket_entries d' (key_segment key d) c) (bucket_entries d (key_segment key d) c)) \<and>
    direntries_used d' - int (seg_used d' (key_segment key d)) = direntries_used d - int (seg_used d (key_segment key d))"
proof -
  let ?s = "key_segment key d" and ?b = "key_bucket key d"
  obtain fl cs where r: "seg_rep d ?s fl cs" and b: "?b < buckets d" and fl: "fl = seg_free d ?s" "cs = seg_chain d ?s"
    and ke: "key_entries key d = contents d ?s ?b (cs ?b)" by (rule key_ok_rep[OF k])
  have "purgeable d ?s cs" using p unfolding seg_purgeable_def purgeable_def fl bucket_entries_def by (auto simp: list_ex_iff)
  then obtain e d1 d0 fl0 cs0 fl1 ch1 where sl: "insert_slot ?s (?b * 4) d = Some (e, d1)"
    and sh: "shrunk ?s cs d d0 fl0 cs0" and S: "slot_post ?s ?b cs0 d0 e d1 fl1 ch1"
    using insert_slot_ok[OF r b] by blast
  have r0: "seg_rep d0 ?s fl0 cs0" and fr0: "frame ?s d d0" using sh by (simp_all add: shrunk_def)
  have B0: "buckets d0 = buckets d" and b0: "?b < buckets d0" using frame_params[OF fr0] b by simp_all
  obtain d' where I: "dir_insert key x d = Some d'" "seg_rep d' ?s fl1 (cs0(?b := ch1))" "frame ?s d0 d'"
    "contents d' ?s ?b ch1 = bucket_insert (filled x (key_word key 2)) (contents d0 ?s ?b (cs0 ?b))"
    "\<forall>c<buckets d0. c \<noteq> ?b \<longrightarrow> contents d' ?s c (cs0 c) = contents d0 ?s c (cs0 c)"
    "direntries_used d' = direntries_used d0 + 1"
    by (rule dir_insert_from_slot[OF sl refl refl r0 b0 S x])
  have P0: "params d0 = params d" using fr0 by (simp add: frame_def)
  note K = params_keys[OF P0, of key]
  have u: "direntries_used d' - int (length (contents d' ?s ?b ch1)) = direntries_used d0 - int (length (contents d0 ?s ?b (cs0 ?b)))"
    by (simp add: I(4,6) set_bucket_insert)
  have O: "others_kept key d0 d'" "key_ok key d'" "key_entries key d' = contents d' ?s ?b ch1"
    using others_keptI[OF r0 I(2) _ _ b0 I(3) I(5)[rule_format] u, of key] K by simp_all
  have l: "seg_links d ?s fl cs {}" and l0: "seg_links d0 ?s fl0 cs0 {}" using r r0 by (simp_all add: seg_rep_def)
  have sub: "subseq (contents d0 ?s c (cs0 c)) (contents d ?s c (cs c))" if "c < buckets d" for c using sh that by (simp add: shrunk_def)
  have "subseq (bucket_entries d' ?s c) (bucket_entries d ?s c)" if "c < buckets d" "c \<noteq> ?b" for c
    using O(1) K that bucket_entries_rep[OF l that(1)] bucket_entries_rep[OF l0, of c] sub[OF that(1)] B0 by (simp add: others_kept_def)
  moreover have "direntries_used d' - int (seg_used d' ?s) = direntries_used d - int (seg_used d ?s)"
    using O(1) sh K by (simp add: others_kept_def shrunk_def)
  ultimately show ?thesis using I(1,4) O(2,3) sub[OF b] ke
    by (intro exI[of _ d'] exI[of _ "contents d0 ?s ?b (cs0 ?b)"]) simp
qed

section \<open>Probe\<close>

definition probe_post ::
  "u8 list \<Rightarrow> nat \<Rightarrow> nat \<Rightarrow> (nat \<Rightarrow> nat list) \<Rightarrow> nat list \<Rightarrow> part \<Rightarrow> nat option \<Rightarrow> part \<Rightarrow> nat list \<Rightarrow> nat list \<Rightarrow> bool" where
  "probe_post key s b cs fl d r d' fl' ch' \<longleftrightarrow> bucket_step s b cs fl d d' fl' ch' \<and> ok_pays (bpays d' s b ch') \<and>
     (map_option (\<lambda>i. payload (dir_at d' s i)) r, contents d' s b ch') =
       probe_spec (key_match key) (dir_valid d) (bpays d s b (cs b)) \<and>
     direntries_used d' - int (length (contents d' s b ch')) = direntries_used d - int (length (bpays d s b (cs b)))"

lemma key_match_compare: "dir_compare_tag e key \<longleftrightarrow> key_match key (payload e)"
  by (simp add: dir_compare_tag_def key_match_def)

lemma bpays_in_use_ok:
  assumes "\<And>e. e \<in> set (bpays d s b ch) \<Longrightarrow> dir_offset e \<noteq> 0"
  shows "ok_pays (bpays d s b ch)" "contents d s b ch = bpays d s b ch"
  using assms by (auto simp: ok_pays_def contents_bpays filter_id_conv)

lemma probe_loop_ok:
  assumes "seg_links d s fl cs {}" "b < buckets d" "b * 4 # cs b = us @ x # vs"
    "\<And>e. e \<in> set (bpays d s b (cs b)) \<Longrightarrow> dir_offset e \<noteq> 0" "\<And>e. e \<in> set (pays d s us) \<Longrightarrow> \<not> key_match key e"
  shows "\<exists>r p d' fl' ch'. probe_loop key s (Some x) (last_opt us) None d = Some (r, None, p, d') \<and>
    probe_post key s b cs fl d r d' fl' ch'"
  using assms
proof (induction "length vs" arbitrary: d fl cs us x vs rule: less_induct)
  case less
  note l = less.prems(1) and b = less.prems(2) and dec = less.prems(3) and use = less.prems(4) and us_no = less.prems(5)
  note NX = seg_links_next(2)[OF l b dec, folded hd_opt_def]
  let ?e = "payload (dir_at d s x)" and ?spec = "probe_spec (key_match key) (dir_valid d)"
  have bp: "bpays d s b (cs b) = pays d s us @ ?e # pays d s vs" unfolding bpays_def dec by simp
  note same = bpays_in_use_ok[of d s b "cs b", OF use]
  note skip = probe_spec_skip[of "pays d s us" "key_match key" "dir_valid d", OF us_no]
  have refl: "bucket_step s b cs fl d d fl (cs b)" by (rule bucket_step_refl[OF l])
  show ?case
  proof (cases "key_match key ?e")
    case False
    have step: "probe_loop key s (Some x) (last_opt us) None d = probe_loop key s (hd_opt vs) (last_opt (us @ [x])) None d"
      by (subst probe_loop.simps) (simp add: False key_match_compare NX)
    have no: "\<not> key_match key e" if "e \<in> set (pays d s (us @ [x]))" for e using that us_no False by auto
    show ?thesis
    proof (cases vs)
      case Nil
      have "probe_loop key s None (last_opt (us @ [x])) None d = Some (None, None, last_opt (us @ [x]), d)"
        by (subst probe_loop.simps) simp
      moreover have "probe_post key s b cs fl d None d fl (cs b)"
        unfolding probe_post_def using refl same skip[of "[?e]"] False bp Nil by simp
      ultimately show ?thesis unfolding step Nil by auto
    next
      case (Cons v vs')
      have dec': "b * 4 # cs b = (us @ [x]) @ v # vs'" using dec Cons by simp
      show ?thesis unfolding step using less.hyps[OF _ l b dec' use no] Cons by simp
    qed
  next
    case m: True
    show ?thesis
    proof (cases "dir_valid d ?e")
      case True
      have "probe_loop key s (Some x) (last_opt us) None d = Some (Some x, None, last_opt us, d)"
        using m True by (subst probe_loop.simps) (simp add: key_match_compare)
      moreover have "probe_post key s b cs fl d (Some x) d fl (cs b)"
        unfolding probe_post_def using refl same skip[of "?e # pays d s vs"] m True bp by simp
      ultimately show ?thesis by blast
    next
      case inv: False
      let ?d1 = "inc_used (- 1) d"
      obtain r d2 where del: "dir_delete_entry x (last_opt us) s ?d1 = (r, d2)" by (cases "dir_delete_entry x (last_opt us) s ?d1")
      have step: "probe_loop key s (Some x) (last_opt us) None d = probe_loop key s r (last_opt us) None d2"
        using m inv del by (subst probe_loop.simps) (simp add: key_match_compare)
      have l1: "seg_links ?d1 s fl cs {}" and b1: "b < buckets ?d1" using l b by simp_all
      obtain fl2 ch2 where S0: "bucket_step s b cs fl ?d1 d2 fl2 ch2" and u2: "direntries_used d2 = direntries_used ?d1"
        and c1: "us \<noteq> [] \<longrightarrow> b * 4 # ch2 = us @ vs \<and> r = hd_opt vs \<and> pays d2 s (us @ vs) = pays ?d1 s (us @ vs)"
        and c2: "us = [] \<and> vs = [] \<longrightarrow> ch2 = [] \<and> r = None \<and> dir_at d2 s (b * 4) = dir_clear"
        and c3: "us = [] \<and> vs \<noteq> [] \<longrightarrow> ch2 = tl vs \<and> r = Some (b * 4) \<and> pays d2 s (b * 4 # tl vs) = pays ?d1 s vs"
        by (rule delete_entry_step[OF l1 b1 dec del])
      have S: "bucket_step s b cs fl d d2 fl2 ch2" using S0 by (simp add: bucket_step_inc_used)
      note fr = bucket_step_frame[OF S] and l2 = bucket_step_links[OF S]
      have b2: "b < buckets d2" using frame_params[OF fr] b by simp
      have v2: "dir_valid d2 = dir_valid d" using frame_valid[OF fr] by (simp add: fun_eq_iff)
      have spec: "?spec (bpays d s b (cs b)) = ?spec (pays d s us @ pays d s vs)"
        unfolding bp using m inv skip[of "?e # pays d s vs"] skip[of "pays d s vs"] by simp
      show ?thesis
      proof (cases "us = [] \<and> vs = []")
        case True
        then have ch: "ch2 = []" "r = None" "dir_at d2 s (b * 4) = dir_clear" using c2 by simp_all
        have "probe_loop key s None (last_opt us) None d2 = Some (None, None, last_opt us, d2)" by (subst probe_loop.simps) simp
        moreover have "probe_post key s b cs fl d None d2 fl2 ch2"
          unfolding probe_post_def spec using S True ch u2 bp
          by (simp add: bpays_def ok_pays_def contents_def dir_simps)
        ultimately show ?thesis unfolding step ch(2) by blast
      next
        case ne: False
        then have p2: "bpays d2 s b ch2 = pays d s us @ pays d s vs"
          unfolding bpays_def using c1 c3 by (cases "us = []") (auto simp del: pays_Cons)
        have use2: "dir_offset e \<noteq> 0" if "e \<in> set (bpays d2 s b ch2)" for e using that use unfolding p2 bp by auto
        have us2: "pays d2 s us = pays d s us" using c1 by (cases "us = []") (auto simp: pays_def)
        show ?thesis
        proof (cases "vs = []")
          case True
          then have r: "r = None" using c1 ne by simp
          have "probe_loop key s None (last_opt us) None d2 = Some (None, None, last_opt us, d2)" by (subst probe_loop.simps) simp
          moreover have "probe_post key s b cs fl d None d2 fl2 ch2"
            unfolding probe_post_def spec using S bpays_in_use_ok[of d2 s b ch2, OF use2] skip[of "[]"] True u2 p2 bp by simp
          ultimately show ?thesis unfolding step r by blast
        next
          case vs: False
          define x2 vs2 where "x2 = (if us = [] then b * 4 else hd vs)" and "vs2 = tl vs"
          have r: "r = Some x2" and dec2: "b * 4 # (cs(b := ch2)) b = us @ x2 # vs2"
            using c1 c3 vs by (auto simp: x2_def vs2_def hd_opt_def split: list.splits)
          have less2: "length vs2 < length vs" using vs by (cases vs) (auto simp: vs2_def)
          have no2: "\<not> key_match key e" if "e \<in> set (pays d2 s us)" for e using that us_no us2 by simp
          have use3: "dir_offset e \<noteq> 0" if "e \<in> set (bpays d2 s b ((cs(b := ch2)) b))" for e using use2 that by simp
          have "\<exists>r' p d' fl' ch'. probe_loop key s (Some x2) (last_opt us) None d2 = Some (r', None, p, d') \<and>
              probe_post key s b (cs(b := ch2)) fl2 d2 r' d' fl' ch'"
            by (rule less.hyps[OF less2 l2 b2 dec2 use3 no2])
          then obtain r' p d' fl' ch' where "probe_loop key s (Some x2) (last_opt us) None d2 = Some (r', None, p, d')"
            and P: "probe_post key s b (cs(b := ch2)) fl2 d2 r' d' fl' ch'" by (elim exE conjE) (rule that)
          moreover have "probe_post key s b cs fl d r' d' fl' ch'"
            unfolding probe_post_def spec
            using P bucket_step_trans[OF S, of d' fl' ch'] u2 p2 bp unfolding probe_post_def v2 by simp
          ultimately show ?thesis unfolding step r by blast
        qed
      qed
    qed
  qed
qed

lemma step_others_kept:
  assumes r: "seg_rep d s fl cs" and S: "bucket_step s b cs fl d d' fl' ch'" and ok: "ok_pays (bpays d' s b ch')"
    and s: "s = key_segment key d" "b = key_bucket key d" and b: "b < buckets d"
    and u: "direntries_used d' - int (length (contents d' s b ch')) = direntries_used d - int (length (contents d s b (cs b)))"
  shows "others_kept key d d'" "key_ok key d'" "key_entries key d' = contents d' s b ch'"
proof -
  note fr = bucket_step_frame[OF S]
  have em: "\<forall>i\<in>set fl. emp d s i" using r by (auto simp: seg_rep_pays)
  have oth: "bpays d' s c (cs c) = bpays d s c (cs c)" if "c < buckets d" "c \<noteq> b" for c
    using S that by (simp add: bucket_step_def bpays_def)
  have "ok_pays (bpays d' s c ((cs(b := ch')) c))" if "c < buckets d'" for c
    using ok oth[of c] r that frame_params[OF fr] by (cases "c = b") (simp_all add: seg_rep_pays)
  then have r': "seg_rep d' s fl' (cs(b := ch'))" using S em unfolding seg_rep_pays bucket_step_def by blast
  have oc: "contents d' s c (cs c) = contents d s c (cs c)" if "c < buckets d" "c \<noteq> b" for c
    using oth[OF that] by (simp add: contents_bpays)
  show "others_kept key d d'" "key_ok key d'" "key_entries key d' = contents d' s b ch'"
    using others_keptI[OF r r' s b fr oc u] by simp_all
qed

lemma dir_probe_ok:
  assumes k: "key_ok key d"
  shows "\<exists>r d'. dir_probe key None d = Some (r, d') \<and> key_ok key d' \<and> others_kept key d d' \<and>
    (map_option (\<lambda>(i, e). payload e) r, key_entries key d') = probe_spec (key_match key) (dir_valid d) (key_entries key d)"
proof -
  let ?s = "key_segment key d" and ?b = "key_bucket key d"
  obtain fl cs where r: "seg_rep d ?s fl cs" and b: "?b < buckets d"
    and ke: "key_entries key d = contents d ?s ?b (cs ?b)" by (rule key_ok_rep[OF k])
  have l: "seg_links d ?s fl cs {}" using r by (simp add: seg_rep_def)
  have hb: "dir_bucket ?b = ?b * 4" by (simp add: dir_bucket_def DIR_DEPTH_def)
  show ?thesis
  proof (cases "emp d ?s (?b * 4)")
    case True
    then have "dir_probe key None d = Some (None, d)"
      by (simp add: dir_probe_def probe_pass_def hb emp_def)
    moreover have "key_entries key d = []" using seg_rep_bpays(4)[OF r b] True ke by (simp only: simp_thms)
    moreover have "others_kept key d d" by (simp add: others_kept_def)
    ultimately show ?thesis using k by simp
  next
    case False
    have c: "contents d ?s ?b (cs ?b) = bpays d ?s ?b (cs ?b)" by (rule seg_rep_bpays(2)[OF r b False])
    have use: "dir_offset e \<noteq> 0" if "e \<in> set (bpays d ?s ?b (cs ?b))" for e
      using contents_in_use[of e d ?s ?b "cs ?b"] that unfolding c by blast
    obtain x p d' fl' ch' where lp: "probe_loop key ?s (Some (?b * 4)) None None d = Some (x, None, p, d')"
      and P: "probe_post key ?s ?b cs fl d x d' fl' ch'"
      using probe_loop_ok[OF l b, of "[]" "?b * 4" "cs ?b" key] use by auto
    have S: "bucket_step ?s ?b cs fl d d' fl' ch'" using P by (simp add: probe_post_def)
    have ok: "ok_pays (bpays d' ?s ?b ch')" using P by (simp add: probe_post_def)
    have u: "direntries_used d' - int (length (contents d' ?s ?b ch')) = direntries_used d - int (length (contents d ?s ?b (cs ?b)))"
      using P c by (simp add: probe_post_def)
    note O = step_others_kept[OF r S ok refl refl b u]
    have "dir_probe key None d = Some (map_option (\<lambda>i. (i, dir_at d' ?s i)) x, d')"
      using lp False by (cases x) (simp_all add: dir_probe_def probe_pass_def hb emp_def)
    then show ?thesis using O P ke c
      by (intro exI[of _ "map_option (\<lambda>i. (i, dir_at d' ?s i)) x"] exI[of _ d'] conjI)
        (simp_all add: probe_post_def option.map_comp comp_def)
  qed
qed

section \<open>Delete and overwrite\<close>

lemma find_loop_ok:
  assumes "seg_links d s fl cs {}" "b < buckets d" "b * 4 # cs b = us @ x # vs"
    "\<And>i. i \<in> set us \<Longrightarrow> \<not> Q (dir_at d s i)"
  shows "\<exists>r. find_loop Q d s (Some x) (last_opt us) = Some r \<and>
    (case r of None \<Rightarrow> \<forall>i\<in>set (b * 4 # cs b). \<not> Q (dir_at d s i)
     | Some (i, p) \<Rightarrow> \<exists>us' vs'. b * 4 # cs b = us' @ i # vs' \<and> p = last_opt us' \<and> Q (dir_at d s i) \<and>
         (\<forall>j\<in>set us'. \<not> Q (dir_at d s j)))"
  using assms
proof (induction vs arbitrary: us x)
  case Nil
  note NX = seg_links_next(2)[OF Nil(1-3), folded hd_opt_def]
  show ?case
  proof (cases "Q (dir_at d s x)")
    case True
    then show ?thesis using Nil by (subst find_loop.simps) auto
  next
    case False
    have "find_loop Q d s (Some x) (last_opt us) = find_loop Q d s None (Some x)"
      using False NX by (subst find_loop.simps) simp
    also have "\<dots> = Some None" by (subst find_loop.simps) simp
    finally show ?thesis using Nil(4) False unfolding Nil(3) by auto
  qed
next
  case (Cons v vs)
  note NX = seg_links_next(2)[OF Cons.prems(1-3), folded hd_opt_def]
  show ?case
  proof (cases "Q (dir_at d s x)")
    case True
    then show ?thesis using Cons.prems by (subst find_loop.simps) auto
  next
    case False
    have step: "find_loop Q d s (Some x) (last_opt us) = find_loop Q d s (Some v) (last_opt (us @ [x]))"
      using False NX by (subst find_loop.simps) simp
    have "\<not> Q (dir_at d s i)" if "i \<in> set (us @ [x])" for i using that Cons.prems(4) False by auto
    then show ?thesis unfolding step using Cons.prems(3) by (intro Cons.IH[OF Cons.prems(1,2)]) simp_all
  qed
qed

text \<open>The search, as a statement about the entries: \<open>Q\<close> looks at the payload only and never
  accepts an empty entry.\<close>

lemma find_entry_ok:
  assumes r: "seg_rep d s fl cs" and b: "b < buckets d" and Q: "\<And>e. Q (payload e) = Q e"
  shows "\<exists>r. find_entry Q d s (b * 4) = Some r \<and>
    (case r of None \<Rightarrow> \<forall>e\<in>set (contents d s b (cs b)). \<not> Q e
     | Some (i, p) \<Rightarrow> \<exists>us vs. b * 4 # cs b = us @ i # vs \<and> p = last_opt us \<and>
         contents d s b (cs b) = pays d s us @ payload (dir_at d s i) # pays d s vs \<and>
         Q (payload (dir_at d s i)) \<and> (\<forall>e\<in>set (pays d s us). \<not> Q e))"
proof (cases "emp d s (b * 4)")
  case True
  then show ?thesis using seg_rep_bpays(1)[OF r b True] by (auto simp: find_entry_def emp_def intro!: exI[of _ None])
next
  case False
  have l: "seg_links d s fl cs {}" using r by (simp add: seg_rep_def)
  have c: "contents d s b (cs b) = pays d s (b * 4 # cs b)" using seg_rep_bpays(2)[OF r b False] by (simp add: bpays_def)
  obtain res where f: "find_loop Q d s (Some (b * 4)) None = Some res"
    and R: "case res of None \<Rightarrow> \<forall>i\<in>set (b * 4 # cs b). \<not> Q (dir_at d s i)
     | Some (i, p) \<Rightarrow> \<exists>us' vs'. b * 4 # cs b = us' @ i # vs' \<and> p = last_opt us' \<and> Q (dir_at d s i) \<and>
         (\<forall>j\<in>set us'. \<not> Q (dir_at d s j))"
    using find_loop_ok[OF l b, of "[]" "b * 4" "cs b" Q] by auto
  have fe: "find_entry Q d s (b * 4) = Some res" using f False by (simp add: find_entry_def emp_def)
  show ?thesis
  proof (cases res)
    case None
    then show ?thesis using R fe c Q by (auto simp: pays_def)
  next
    case (Some q)
    then obtain i p where q: "res = Some (i, p)" by (cases q) auto
    then obtain us vs where dec: "b * 4 # cs b = us @ i # vs" "p = last_opt us" "Q (dir_at d s i)" "\<forall>j\<in>set us. \<not> Q (dir_at d s j)"
      using R by auto
    have "contents d s b (cs b) = pays d s us @ payload (dir_at d s i) # pays d s vs" unfolding c dec(1) by simp
    moreover have "\<forall>e\<in>set (pays d s us). \<not> Q e" using dec(4) Q by (auto simp: pays_def)
    ultimately show ?thesis using fe q dec Q by (intro exI[of _ res]) auto
  qed
qed

definition del_match :: "u8 list \<Rightarrow> dir \<Rightarrow> dir \<Rightarrow> bool" where
  "del_match key x e \<longleftrightarrow> dir_compare_tag e key \<and> dir_offset e = dir_offset x"

lemma del_match_payload [simp]: "del_match key x (payload e) = del_match key x e"
  by (simp add: del_match_def dir_compare_tag_def)

lemma dir_delete_ok:
  assumes k: "key_ok key d"
  shows "\<exists>d'. dir_delete key x d = Some (list_ex (del_match key x) (key_entries key d), d') \<and> key_ok key d' \<and>
    others_kept key d d' \<and> key_entries key d' = remove_first (del_match key x) (key_entries key d)"
proof -
  let ?s = "key_segment key d" and ?b = "key_bucket key d" and ?Q = "del_match key x"
  obtain fl cs where r: "seg_rep d ?s fl cs" and b: "?b < buckets d"
    and ke: "key_entries key d = contents d ?s ?b (cs ?b)" by (rule key_ok_rep[OF k])
  have l: "seg_links d ?s fl cs {}" using r by (simp add: seg_rep_def)
  obtain res where f: "find_entry ?Q d ?s (?b * 4) = Some res"
    and R: "case res of None \<Rightarrow> \<forall>e\<in>set (contents d ?s ?b (cs ?b)). \<not> ?Q e
     | Some (i, p) \<Rightarrow> \<exists>us vs. ?b * 4 # cs ?b = us @ i # vs \<and> p = last_opt us \<and>
         contents d ?s ?b (cs ?b) = pays d ?s us @ payload (dir_at d ?s i) # pays d ?s vs \<and>
         ?Q (payload (dir_at d ?s i)) \<and> (\<forall>e\<in>set (pays d ?s us). \<not> ?Q e)"
    using find_entry_ok[of d ?s fl cs ?b ?Q, OF r b del_match_payload] by (elim exE conjE) (rule that)
  have dd: "dir_delete key x d = (case res of None \<Rightarrow> Some (False, d)
      | Some (e, p) \<Rightarrow> Some (True, snd (dir_delete_entry e p ?s (inc_used (- 1) d))))"
    using f unfolding del_match_def by (simp add: dir_delete_def dir_bucket_def DIR_DEPTH_def)
  show ?thesis
  proof (cases res)
    case None
    then have no: "\<forall>e\<in>set (key_entries key d). \<not> ?Q e" using R ke by simp
    then have "remove_first ?Q (key_entries key d) = key_entries key d" by (intro remove_first_none) auto
    then show ?thesis using dd None k no by (auto simp: list_ex_iff others_kept_def)
  next
    case (Some q)
    then obtain i p where q: "res = Some (i, p)" by (cases q) auto
    then obtain us vs where dec: "?b * 4 # cs ?b = us @ i # vs" and p: "p = last_opt us"
      and c: "contents d ?s ?b (cs ?b) = pays d ?s us @ payload (dir_at d ?s i) # pays d ?s vs"
      and m: "?Q (payload (dir_at d ?s i))" and no: "\<forall>e\<in>set (pays d ?s us). \<not> ?Q e" using R by auto
    let ?d1 = "inc_used (- 1) d"
    obtain x' d' where del: "dir_delete_entry i (last_opt us) ?s ?d1 = (x', d')" by (cases "dir_delete_entry i (last_opt us) ?s ?d1")
    have l1: "seg_links ?d1 ?s fl cs {}" and b1: "?b < buckets ?d1" using l b by simp_all
    obtain fl' ch' where S0: "bucket_step ?s ?b cs fl ?d1 d' fl' ch'" and u2: "direntries_used d' = direntries_used ?d1"
      and c1: "us \<noteq> [] \<longrightarrow> ?b * 4 # ch' = us @ vs \<and> x' = hd_opt vs \<and> pays d' ?s (us @ vs) = pays ?d1 ?s (us @ vs)"
      and c2: "us = [] \<and> vs = [] \<longrightarrow> ch' = [] \<and> x' = None \<and> dir_at d' ?s (?b * 4) = dir_clear"
      and c3: "us = [] \<and> vs \<noteq> [] \<longrightarrow> ch' = tl vs \<and> x' = Some (?b * 4) \<and> pays d' ?s (?b * 4 # tl vs) = pays ?d1 ?s vs"
      by (rule delete_entry_step[OF l1 b1 dec del])
    have S: "bucket_step ?s ?b cs fl d d' fl' ch'" using S0 by (simp add: bucket_step_inc_used)
    have use: "dir_offset e \<noteq> 0" if "e \<in> set (pays d ?s us @ pays d ?s vs)" for e
      using contents_in_use[of e d ?s ?b "cs ?b"] that unfolding c by auto
    have "ok_pays (bpays d' ?s ?b ch') \<and> contents d' ?s ?b ch' = pays d ?s us @ pays d ?s vs"
    proof (cases "us = [] \<and> vs = []")
      case True
      then show ?thesis using c2 by (simp add: bpays_def ok_pays_def contents_def dir_simps)
    next
      case False
      then have "bpays d' ?s ?b ch' = pays d ?s us @ pays d ?s vs"
        unfolding bpays_def using c1 c3 by (cases "us = []") (auto simp del: pays_Cons)
      then show ?thesis using bpays_in_use_ok[of d' ?s ?b ch'] use by simp
    qed
    then have ok: "ok_pays (bpays d' ?s ?b ch')" and ct: "contents d' ?s ?b ch' = pays d ?s us @ pays d ?s vs" by auto
    have u: "direntries_used d' - int (length (contents d' ?s ?b ch')) = direntries_used d - int (length (contents d ?s ?b (cs ?b)))"
      unfolding ct c using u2 by simp
    note O = step_others_kept[OF r S ok refl refl b u]
    have "remove_first ?Q (key_entries key d) = pays d ?s us @ pays d ?s vs"
      unfolding ke c using no m by (intro remove_first_split) auto
    moreover have "list_ex ?Q (key_entries key d)" unfolding ke c using m by simp
    ultimately show ?thesis using dd q p del O ct by simp
  qed
qed

definition ow_match :: "u32 \<Rightarrow> dir \<Rightarrow> dir \<Rightarrow> bool" where
  "ow_match t x e \<longleftrightarrow> dir_tag e = t \<and> dir_offset e = dir_offset x"

lemma ow_match_payload [simp]: "ow_match t x (payload e) = ow_match t x e"
  by (simp add: ow_match_def)

lemma mask_tag_idem [simp]: "DIR_MASK_TAG (DIR_MASK_TAG t) = DIR_MASK_TAG t"
  by (simp add: DIR_MASK_TAG_def and.assoc)

lemma fill_in_place_ok:
  fixes t :: u32
  assumes r: "seg_rep d s fl cs" and s: "s = key_segment key d" "b = key_bucket key d" and b: "b < buckets d"
    and dec: "b * 4 # cs b = us @ i # vs" and x: "dir_offset x \<noteq> 0"
    and c: "contents d s b (cs b) = pays d s us @ payload (dir_at d s i) # pays d s vs"
  defines "d' \<equiv> (dir_fill s i x t d)\<lparr>dirty := True\<rparr>"
  shows "others_kept key d d'" "key_ok key d'" "key_entries key d' = pays d s us @ filled x t # pays d s vs"
proof -
  have l: "seg_links d s fl cs {}" using r by (simp add: seg_rep_def)
  have i: "i \<in> set (b * 4 # cs b)" unfolding dec by simp
  note F = dir_fill_ok[OF l b i, where x = x and t = t]
  let ?d1 = "dir_fill s i x t d"
  have dist: "distinct (us @ i # vs)" using seg_links_distinct(1)[OF l b] dec by simp
  have pay: "payload (dir_at ?d1 s j) = (if j = i then filled x t else payload (dir_at d s j))"
    if "c' < buckets d" "j \<in> set (c' * 4 # cs c')" for c' j using F(4)[OF seg_links_in_chain(1)[OF l that]] .
  have "pays ?d1 s (us @ i # vs) = pays d s us @ filled x t # pays d s vs"
  proof -
    have "payload (dir_at ?d1 s j) = payload (dir_at d s j)" if "j \<in> set us \<union> set vs" for j
      using pay[OF b, of j] that dist unfolding dec by auto
    then show ?thesis using pay[OF b i] by (simp add: pays_def)
  qed
  then have bp: "bpays ?d1 s b (cs b) = pays d s us @ filled x t # pays d s vs" unfolding bpays_def dec .
  have use: "dir_offset e \<noteq> 0" if "e \<in> set (bpays ?d1 s b (cs b))" for e
    using that contents_in_use[of e d s b "cs b"] x unfolding bp c by auto
  have ok: "ok_pays (bpays ?d1 s b (cs b))" "contents ?d1 s b (cs b) = bpays ?d1 s b (cs b)"
    using bpays_in_use_ok[of ?d1 s b "cs b"] use by blast+
  have oth: "pays ?d1 s (c' * 4 # cs c') = pays d s (c' * 4 # cs c')" if "c' < buckets d" "c' \<noteq> b" for c'
    unfolding pays_def using pay[OF that(1)] seg_links_in_chain(4)[OF l b i that] by (intro map_cong) auto
  have em: "\<forall>j\<in>set fl. emp ?d1 s j" if "\<forall>j\<in>set fl. emp d s j" using that F(5) by simp
  have cs: "cs(b := cs b) = cs" by simp
  have S: "bucket_step s b cs fl d ?d1 fl (cs b)" unfolding bucket_step_def cs using F(1,2) oth em by blast
  have u: "direntries_used ?d1 - int (length (contents ?d1 s b (cs b))) = direntries_used d - int (length (contents d s b (cs b)))"
    using F(3) by (simp add: ok(2) bp c)
  note O = step_others_kept[OF r S ok(1) s b u]
  have P: "params d' = params ?d1" "bucket_entries d' = bucket_entries ?d1" "seg_inv d' = seg_inv ?d1"
    "seg_used d' = seg_used ?d1" "direntries_used d' = direntries_used ?d1"
    by (simp_all add: d'_def params_def)
  have K: "key_segment key d' = key_segment key ?d1" "key_bucket key d' = key_bucket key ?d1"
    by (simp_all add: d'_def key_segment_def key_bucket_def)
  show "others_kept key d d'" using O(1) by (simp add: others_kept_def P)
  show "key_ok key d'" using O(2) by (simp add: key_ok_def P K)
  show "key_entries key d' = pays d s us @ filled x t # pays d s vs" using O(3) ok(2) bp by (simp add: key_entries_def P K)
qed

lemma dir_overwrite_found:
  assumes k: "key_ok key d" and x: "dir_offset x \<noteq> 0"
    and ex: "list_ex (ow_match (DIR_MASK_TAG (key_word key 2)) old) (key_entries key d)"
  shows "\<exists>d'. dir_overwrite key x old must d = Some (True, d') \<and> key_ok key d' \<and> others_kept key d d' \<and>
    key_entries key d' = replace_first (ow_match (DIR_MASK_TAG (key_word key 2)) old)
      (filled x (DIR_MASK_TAG (key_word key 2))) (key_entries key d)"
proof -
  let ?s = "key_segment key d" and ?b = "key_bucket key d" and ?t = "DIR_MASK_TAG (key_word key 2)"
  let ?Q = "ow_match ?t old"
  obtain fl cs where r: "seg_rep d ?s fl cs" and b: "?b < buckets d"
    and ke: "key_entries key d = contents d ?s ?b (cs ?b)" by (rule key_ok_rep[OF k])
  obtain res where f: "find_entry ?Q d ?s (?b * 4) = Some res"
    and R: "case res of None \<Rightarrow> \<forall>e\<in>set (contents d ?s ?b (cs ?b)). \<not> ?Q e
     | Some (i, p) \<Rightarrow> \<exists>us vs. ?b * 4 # cs ?b = us @ i # vs \<and> p = last_opt us \<and>
         contents d ?s ?b (cs ?b) = pays d ?s us @ payload (dir_at d ?s i) # pays d ?s vs \<and>
         ?Q (payload (dir_at d ?s i)) \<and> (\<forall>e\<in>set (pays d ?s us). \<not> ?Q e)"
    using find_entry_ok[of d ?s fl cs ?b ?Q, OF r b ow_match_payload] by (elim exE conjE) (rule that)
  obtain i p where q: "res = Some (i, p)" using ex R ke by (cases res) (auto simp: list_ex_iff)
  then obtain us vs where dec: "?b * 4 # cs ?b = us @ i # vs"
    and c: "contents d ?s ?b (cs ?b) = pays d ?s us @ payload (dir_at d ?s i) # pays d ?s vs"
    and m: "?Q (payload (dir_at d ?s i))" and no: "\<forall>e\<in>set (pays d ?s us). \<not> ?Q e" using R by auto
  have sl: "overwrite_slot ?t old must ?s (?b * 4) True d = Some (Some (i, True), d)"
    using f q by (subst overwrite_slot.simps) (simp add: ow_match_def[abs_def])
  have "dir_overwrite key x old must d = Some (True, (dir_fill ?s i x ?t d)\<lparr>dirty := True\<rparr>)"
    using sl by (simp add: dir_overwrite_def dir_bucket_def DIR_DEPTH_def)
  moreover have "replace_first ?Q (filled x ?t) (key_entries key d) = pays d ?s us @ filled x ?t # pays d ?s vs"
    unfolding ke c using no m by (intro replace_first_split) auto
  ultimately show ?thesis using fill_in_place_ok[OF r refl refl b dec x c, of ?t] by simp
qed

lemma dir_overwrite_must:
  assumes k: "key_ok key d" and no: "\<not> list_ex (ow_match (DIR_MASK_TAG (key_word key 2)) old) (key_entries key d)"
  shows "dir_overwrite key x old True d = Some (False, d)"
proof -
  let ?s = "key_segment key d" and ?b = "key_bucket key d" and ?t = "DIR_MASK_TAG (key_word key 2)"
  obtain fl cs where r: "seg_rep d ?s fl cs" and b: "?b < buckets d"
    and ke: "key_entries key d = contents d ?s ?b (cs ?b)" by (rule key_ok_rep[OF k])
  have "find_entry (ow_match ?t old) d ?s (?b * 4) = Some None"
    using find_entry_ok[of d ?s fl cs ?b "ow_match ?t old", OF r b ow_match_payload] no ke
    by (fastforce simp: list_ex_iff split: option.splits)
  then have "overwrite_slot ?t old True ?s (?b * 4) True d = Some (None, d)"
    by (subst overwrite_slot.simps) (simp add: ow_match_def[abs_def])
  then show ?thesis by (simp add: dir_overwrite_def dir_bucket_def DIR_DEPTH_def)
qed

lemma inc_used_put [simp]: "put_next s i k (inc_used n d) = inc_used n (put_next s i k d)"
  by (simp add: put_next_def dir_put_def inc_used_def part_dir_segment_def dir_at_def)

lemma inc_used_link [simp]: "dir_link e b s (inc_used n d) = inc_used n (dir_link e b s d)"
  by (simp add: dir_link_def)

lemma overwrite_slot_room:
  assumes r: "seg_rep d s fl cs" and b: "b < buckets d" and room: "emp d s (b * 4) \<or> fl \<noteq> []"
    and miss: "find_entry (ow_match t old) d s (b * 4) = Some None"
  shows "overwrite_slot t old False s (b * 4) res d =
    map_option (\<lambda>(e, d1). (Some (e, False), inc_used 1 d1)) (insert_slot s (b * 4) d)"
proof (cases "emp d s (b * 4) \<or> empty_row d s (b * 4) \<noteq> None")
  case True
  then show ?thesis using miss unfolding ow_match_def[abs_def]
    by (subst overwrite_slot.simps, subst insert_slot.simps) (auto simp: dir_is_empty_def emp_def split: option.split)
next
  case False
  then obtain e fl0 where fl: "fl = e # fl0" using room by (cases fl) auto
  have "seg_links d s (e # fl0) cs {}" "emp d s e" using r fl by (simp_all add: seg_rep_def filled_ok_def)
  note P = freelist_pop_ok[OF this]
  show ?thesis using miss False P unfolding ow_match_def[abs_def]
    by (subst overwrite_slot.simps, subst insert_slot.simps) (simp add: dir_is_empty_def emp_def)
qed

lemma dir_overwrite_add:
  assumes k: "key_ok key d" and x: "dir_offset x \<noteq> 0" and room: "key_entries key d = [] \<or> seg_free d (key_segment key d) \<noteq> []"
    and no: "\<not> list_ex (ow_match (DIR_MASK_TAG (key_word key 2)) old) (key_entries key d)"
  shows "\<exists>d'. dir_overwrite key x old False d = Some (False, d') \<and> key_ok key d' \<and> others_kept key d d' \<and>
    key_entries key d' = bucket_insert (filled x (DIR_MASK_TAG (key_word key 2))) (key_entries key d)"
proof -
  let ?s = "key_segment key d" and ?b = "key_bucket key d" and ?t = "DIR_MASK_TAG (key_word key 2)"
  obtain fl cs where r: "seg_rep d ?s fl cs" and b: "?b < buckets d" and fl: "fl = seg_free d ?s"
    and ke: "key_entries key d = contents d ?s ?b (cs ?b)" by (rule key_ok_rep[OF k])
  have miss: "find_entry (ow_match ?t old) d ?s (?b * 4) = Some None"
    using find_entry_ok[of d ?s fl cs ?b "ow_match ?t old", OF r b ow_match_payload] no ke
    by (fastforce simp: list_ex_iff split: option.splits)
  have rm: "emp d ?s (?b * 4) \<or> fl \<noteq> []" using room seg_rep_bpays(4)[OF r b] ke fl by simp
  then obtain e d1 fl1 ch1 where sl: "insert_slot ?s (?b * 4) d = Some (e, d1)" and S: "slot_post ?s ?b cs d e d1 fl1 ch1"
    using insert_slot_room[OF r b] by blast
  note F = insert_fill_ok[OF r b S x, where t = ?t]
  let ?d' = "(dir_fill ?s e x ?t (inc_used 1 d1))\<lparr>dirty := True\<rparr>"
  have f: "dir_fill ?s e x ?t (inc_used 1 d1) = inc_used 1 (dir_fill ?s e x ?t d1)"
    by (simp add: dir_fill_def dir_put_def inc_used_def part_dir_segment_def dir_at_def)
  have ow: "dir_overwrite key x old False d = Some (False, ?d')"
    using overwrite_slot_room[OF r b rm miss, of True] sl by (simp add: dir_overwrite_def dir_bucket_def DIR_DEPTH_def)
  have u: "direntries_used ?d' - int (length (contents ?d' ?s ?b ch1)) = direntries_used d - int (length (contents d ?s ?b (cs ?b)))"
    using F(3,4) by (simp add: f set_bucket_insert)
  have r': "seg_rep ?d' ?s fl1 (cs(?b := ch1))" and fr: "frame ?s d ?d'" using F(1,2) by (simp_all add: f frame_stat_trans)
  have oc: "contents ?d' ?s c (cs c) = contents d ?s c (cs c)" if "c < buckets d" "c \<noteq> ?b" for c using F(5)[OF that] by (simp add: f)
  note O = others_keptI[OF r r' refl refl b fr oc u]
  show ?thesis using ow O F(4) ke by (simp add: f)
qed

section \<open>The contract of the directory\<close>

text \<open>An index of entries under one key, as its clients use it: the entries are a list, a probe
  drops invalid matches and returns the first valid one, an insertion puts the entry second.\<close>

locale entry_index =
  fixes inv :: "'d \<Rightarrow> bool" and entries :: "'d \<Rightarrow> 'e list" and m :: "'e \<Rightarrow> bool" and v :: "'d \<Rightarrow> 'e \<Rightarrow> bool"
    and prb :: "'d \<Rightarrow> ('e option \<times> 'd) option" and ins :: "'e \<Rightarrow> 'd \<Rightarrow> 'd option"
    and del :: "'e \<Rightarrow> 'd \<Rightarrow> (bool \<times> 'd) option" and same :: "'e \<Rightarrow> 'e \<Rightarrow> bool"
    and norm :: "'e \<Rightarrow> 'e" and room :: "'d \<Rightarrow> bool" and good :: "'e \<Rightarrow> bool"
  assumes prb_law: "inv d \<Longrightarrow> \<exists>r d'. prb d = Some (r, d') \<and> inv d' \<and> v d' = v d \<and> (r, entries d') = probe_spec m (v d) (entries d)"
    and ins_law: "inv d \<Longrightarrow> room d \<Longrightarrow> good x \<Longrightarrow>
      \<exists>d' h t. ins x d = Some d' \<and> inv d' \<and> v d' = v d \<and> entries d' = h @ norm x # t \<and> entries d = h @ t \<and> length h \<le> 1"
    and del_law: "inv d \<Longrightarrow> \<exists>d'. del x d = Some (list_ex (same x) (entries d), d') \<and> inv d' \<and> v d' = v d \<and>
      entries d' = remove_first (same x) (entries d)"
    and norm_law: "good x \<Longrightarrow> m (norm x) \<and> v d (norm x) = v d x \<and> same x (norm x)"
begin

lemma probe_twice:
  assumes "inv d" "prb d = Some (r, d1)"
  shows "\<exists>d2. prb d1 = Some (r, d2) \<and> entries d2 = entries d1"
proof -
  have 1: "inv d1" "v d1 = v d" "(r, entries d1) = probe_spec m (v d) (entries d)" using prb_law[OF assms(1)] assms(2) by auto
  have keep: "probe_spec m w (snd (probe_spec m w es)) = probe_spec m w es" for w es
    by (induction es) (auto split: prod.splits)
  have e: "entries d1 = snd (probe_spec m (v d) (entries d))" using 1(3) by (metis snd_conv)
  obtain r2 d2 where 2: "prb d1 = Some (r2, d2)" "(r2, entries d2) = probe_spec m (v d1) (entries d1)"
    using prb_law[OF 1(1)] by auto
  have "(r2, entries d2) = probe_spec m (v d) (entries d)" unfolding 2(2) 1(2) e by (rule keep)
  then have "(r2, entries d2) = (r, entries d1)" by (simp only: 1(3))
  then show ?thesis using 2(1) by auto
qed

lemma probe_after_insert:
  assumes "inv d" "room d" "good x" "v d x" "ins x d = Some d1"
  shows "\<exists>y d2. prb d1 = Some (Some y, d2) \<and> m y \<and> v d y \<and>
    (y = norm x \<or> entries d \<noteq> [] \<and> y = hd (entries d))"
proof -
  obtain h t where I: "inv d1" "v d1 = v d" "entries d1 = h @ norm x # t" "entries d = h @ t" "length h \<le> 1"
    using ins_law[OF assms(1-3)] assms(5) by auto
  have n: "m (norm x) \<and> v d (norm x)" using norm_law[OF assms(3)] assms(4) by blast
  obtain r d2 where P: "prb d1 = Some (r, d2)" "r = fst (probe_spec m (v d) (entries d1))"
    using prb_law[OF I(1)] I(2) by (metis fst_conv)
  show ?thesis
  proof (cases h)
    case Nil
    then show ?thesis using P n by (simp add: probe_spec_find I(3))
  next
    case (Cons z h')
    then have "h = [z]" using I(5) by simp
    then show ?thesis using P n I(4) by (cases "m z \<and> v d z") (auto simp: probe_spec_find I(3))
  qed
qed

lemma delete_after_insert:
  assumes "inv d" "room d" "good x" "ins x d = Some d1" "\<not> list_ex (same x) (entries d)"
  shows "\<exists>d2. del x d1 = Some (True, d2) \<and> inv d2 \<and> entries d2 = entries d"
proof -
  obtain h t where I: "inv d1" "entries d1 = h @ norm x # t" "entries d = h @ t"
    using ins_law[OF assms(1-3)] assms(4) by auto
  have s: "same x (norm x)" using norm_law[OF assms(3)] by blast
  have "remove_first (same x) (entries d1) = entries d"
    using remove_first_split[of h "same x" "norm x" t] assms(5) s I(2,3) by (auto simp: list_ex_iff)
  then show ?thesis using del_law[OF I(1), of x] s I(2) by auto
qed

end

end
