(* ===== verification/Cache_Dir_Check.thy ===== *)
theory Cache_Dir_Check
  imports Cache_Dir_Api
begin

text \<open>
  The checks of the directory: \<^verbatim>\<open>dir_bucket_loop_check\<close> is the tortoise and the hare and is
  right on every segment, damaged or not; \<^verbatim>\<open>dir_freelist_length\<close>,
  \<^verbatim>\<open>dir_segment_accounted\<close> and \<^verbatim>\<open>dir_entries_used\<close> count rows, and on a segment that satisfies
  the invariant they count each row once.
\<close>

section \<open>The loop check\<close>

lemma iterate_stable: "(f ^^ k) x = x \<Longrightarrow> (f ^^ (k * n)) x = x"
  by (induction n) (simp_all add: funpow_add)

lemma next_opt_None [simp]: "(next_opt d s ^^ n) None = None"
  by (induction n) (simp_all add: next_opt_def)

lemma next_opt_ends:
  assumes "(next_opt d s ^^ k) p = None" "k \<le> n"
  shows "(next_opt d s ^^ n) p = None"
proof -
  have "(next_opt d s ^^ n) p = (next_opt d s ^^ (n - k)) ((next_opt d s ^^ k) p)"
    using funpow_add[of "n - k" k "next_opt d s"] assms(2) by (simp add: fun_eq_iff)
  then show ?thesis using assms(1) by simp
qed

lemma loop_check_step:
  fixes d s p
  defines "x \<equiv> \<lambda>n. (next_opt d s ^^ n) p"
  shows "loop_check_loop d s (x n) (x (2 * n)) =
    (if x (2 * n) = None \<or> x (2 * n + 1) = None then Some True
     else if x (2 * (n + 1)) = x (n + 1) then Some False
     else loop_check_loop d s (x (n + 1)) (x (2 * (n + 1))))"
  by (subst loop_check_loop.simps) (simp add: x_def Let_def)

lemma loop_check_ends:
  assumes K: "(next_opt d s ^^ K) p = None"
  shows "loop_check_loop d s ((next_opt d s ^^ n) p) ((next_opt d s ^^ (2 * n)) p) = Some True"
proof (induction "K - 2 * n" arbitrary: n rule: less_induct)
  case less
  let ?x = "\<lambda>n. (next_opt d s ^^ n) p"
  show ?case
  proof (cases "?x (2 * n) = None \<or> ?x (2 * n + 1) = None")
    case True
    then show ?thesis by (subst loop_check_step) simp
  next
    case False
    then have lt: "2 * n < K" using next_opt_ends[OF K, of "2 * n"] by (meson not_le)
    have "?x (2 * (n + 1)) \<noteq> ?x (n + 1)"
    proof
      assume eq: "?x (2 * (n + 1)) = ?x (n + 1)"
      then have "(next_opt d s ^^ (n + 1)) (?x (n + 1)) = ?x (n + 1)"
        by (simp only: mult_2 funpow_add[of "n + 1" "n + 1"] comp_apply)
      then have "?x (n + 1) = (next_opt d s ^^ ((n + 1) * K)) (?x (n + 1))" by (rule iterate_stable[symmetric])
      also have "\<dots> = ?x ((n + 1) * K + (n + 1))" unfolding funpow_add by simp
      also have "\<dots> = None" by (rule next_opt_ends[OF K]) simp
      finally have "?x (2 * n + 1) = None" by (rule next_opt_ends) simp
      then show False using False by blast
    qed
    moreover have "loop_check_loop d s (?x (n + 1)) (?x (2 * (n + 1))) = Some True"
      by (rule less) (use lt in simp)
    ultimately show ?thesis using False by (subst loop_check_step) simp
  qed
qed

lemma next_opt_repeats:
  "\<exists>i j. i < j \<and> (next_opt d s ^^ i) p = (next_opt d s ^^ j) p"
proof -
  let ?x = "\<lambda>n. (next_opt d s ^^ n) p"
  let ?S = "insert p (insert None (Some ` {..<2 ^ 16}))"
  have "?x n \<in> ?S" for n
  proof (cases n)
    case (Suc k)
    have "unat (dir_next e) < 2 ^ 16" for e using unsigned_less[of "dir_next e"] by simp
    then show ?thesis using Suc
      by (auto simp: next_opt_def next_dir_def dir_from_offset_def split: option.splits)
  qed simp
  then have "finite (range ?x)" by (intro finite_subset[of "range ?x" ?S]) auto
  then have "\<not> inj ?x" using finite_imageD infinite_UNIV_nat by blast
  then obtain i j where "i \<noteq> j" "?x i = ?x j" unfolding inj_def by blast
  then show ?thesis by (cases "i < j") (auto intro: exI[of _ i] exI[of _ j], metis linorder_neqE_nat)
qed

lemma loop_check_cycles:
  assumes N: "\<And>n. (next_opt d s ^^ n) p \<noteq> None" and v: "(next_opt d s ^^ (2 * k)) p = (next_opt d s ^^ k) p" and n: "n < k"
  shows "loop_check_loop d s ((next_opt d s ^^ n) p) ((next_opt d s ^^ (2 * n)) p) = Some False"
  using n
proof (induction "k - n" arbitrary: n rule: less_induct)
  case less
  let ?x = "\<lambda>n. (next_opt d s ^^ n) p"
  show ?case
  proof (cases "?x (2 * (n + 1)) = ?x (n + 1)")
    case True
    then show ?thesis using N[of "2 * n"] N[of "2 * n + 1"] by (subst loop_check_step) simp
  next
    case False
    then have "n + 1 < k" using v less.prems by (cases "n + 1 = k") auto
    then have "loop_check_loop d s (?x (n + 1)) (?x (2 * (n + 1))) = Some False" by (intro less.hyps) simp_all
    then show ?thesis using N[of "2 * n"] N[of "2 * n + 1"] False by (subst loop_check_step) simp
  qed
qed

lemma loop_check_correct:
  "dir_bucket_loop_check (Some e) s d = Some (\<exists>n. (next_opt d s ^^ n) (Some e) = None)"
proof (cases "\<exists>n. (next_opt d s ^^ n) (Some e) = None")
  case True
  then obtain K where "(next_opt d s ^^ K) (Some e) = None" by blast
  from loop_check_ends[OF this, of 0] show ?thesis using True by (simp add: dir_bucket_loop_check_def)
next
  case False
  let ?x = "\<lambda>n. (next_opt d s ^^ n) (Some e)"
  obtain i j where ij: "i < j" "?x i = ?x j" using next_opt_repeats by blast
  let ?l = "j - i" and ?k = "(j - i) * (i + 1)"
  have "(next_opt d s ^^ ?l) (?x i) = ?x i" using ij funpow_add[of "j - i" i "next_opt d s"] by simp
  then have st: "(next_opt d s ^^ ?k) (?x i) = ?x i" by (rule iterate_stable)
  have "i \<le> ?k" using ij(1) by (metis One_nat_def Suc_eq_plus1 Suc_leI le_add1 le_trans mult_1 mult_le_mono1 zero_less_diff)
  then obtain c where k: "?k = c + i" by (metis le_add_diff_inverse2)
  have kx: "?x ?k = (next_opt d s ^^ c) (?x i)" unfolding k funpow_add by simp
  have "2 * ?k = c + (?k + i)" using k by simp
  then have "?x (2 * ?k) = (next_opt d s ^^ c) ((next_opt d s ^^ ?k) (?x i))" by (simp only: funpow_add comp_apply)
  then have v: "?x (2 * ?k) = ?x ?k" unfolding kx st .
  have k0: "0 < ?k" using ij(1) by simp
  have "loop_check_loop d s (?x 0) (?x (2 * 0)) = Some False"
    using False by (intro loop_check_cycles[OF _ v k0]) simp
  then show ?thesis using False by (simp add: dir_bucket_loop_check_def)
qed

section \<open>Counting the rows of a segment\<close>

lemma walk_chain:
  "chain (nxt d s) (nxt d s x) vs \<Longrightarrow> walk f d s (Some x) acc = Some (fold f (map (dir_at d s) (x # vs)) acc)"
proof (induction vs arbitrary: x acc)
  case Nil
  then have "next_dir d s x = None" by (simp add: next_dir_def nxt_def dir_from_offset_def)
  then show ?case by (simp add: walk.simps)
next
  case (Cons v vs)
  then have "next_dir d s x = Some v" by (simp add: next_dir_def nxt_def dir_from_offset_def)
  then show ?case using Cons by (subst walk.simps) simp
qed

lemma chain_iterate_ends:
  "chain (nxt d s) (nxt d s x) vs \<Longrightarrow> (next_opt d s ^^ Suc (length vs)) (Some x) = None"
proof (induction vs arbitrary: x)
  case Nil
  then show ?case by (simp add: next_opt_def next_dir_def nxt_def dir_from_offset_def)
next
  case (Cons v vs)
  then have "next_opt d s (Some x) = Some v" by (simp add: next_opt_def next_dir_def nxt_def dir_from_offset_def)
  then show ?case using Cons by (simp add: funpow_swap1)
qed

lemma loop_fix_chain:
  assumes "chain (nxt d s) (nxt d s x) vs"
  shows "dir_bucket_loop_fix (Some x) s d = Some (False, d)"
proof -
  have "\<exists>n. (next_opt d s ^^ n) (Some x) = None" using chain_iterate_ends[OF assms] by blast
  then show ?thesis by (simp add: dir_bucket_loop_fix_def loop_check_correct)
qed

lemma seg_rep_chain: "seg_rep d s fl cs \<Longrightarrow> b < buckets d \<Longrightarrow> chain (nxt d s) (nxt d s (b * 4)) (cs b)"
  unfolding seg_rep_def using seg_links_distinct(2) by blast

lemma fold_count: "fold (\<lambda>_ n. n + 1) xs (n :: int) = n + int (length xs)"
  by (induction xs arbitrary: n) auto

lemma dir_freelist_length_ok:
  assumes "seg_rep d s fl cs"
  shows "dir_freelist_length d s = Some (int (length fl), d)"
proof -
  have c: "chain (nxt d s) (flh d s) fl" using assms by (simp add: seg_rep_def seg_links_def links_ok_def)
  show ?thesis
  proof (cases fl)
    case Nil
    then have "unat (freelist d ! s) = 0" using c by (simp add: flh_def)
    then show ?thesis using Nil
      by (simp add: dir_freelist_length_def dir_from_offset_def dir_bucket_loop_fix_def dir_bucket_loop_check_def walk.simps)
  next
    case (Cons x vs)
    then have x: "flh d s = x" "x \<noteq> 0" and v: "chain (nxt d s) (nxt d s x) vs" using c by auto
    have e: "dir_from_offset (unat (freelist d ! s)) = Some x" using x by (simp add: flh_def dir_from_offset_def)
    show ?thesis unfolding dir_freelist_length_def Let_def e
      using loop_fix_chain[OF v] walk_chain[OF v, of "\<lambda>_ n. n + 1" "0 :: int"] Cons by (simp add: fold_count)
  qed
qed

lemma for_each_total: "(\<And>i a. i \<in> set is \<Longrightarrow> f i a = Some (g i a)) \<Longrightarrow> for_each f is a = Some (fold g is a)"
  by (induction "is" arbitrary: a) auto

lemma account_fold:
  "acc_used (fold (account_entry d) es a) = acc_used a + used_in es"
  "acc_used (fold (account_entry d) es a) + acc_empty (fold (account_entry d) es a) = acc_used a + acc_empty a + int (length es)"
  by (induction es arbitrary: a) (auto simp: account_entry_def)

lemma account_buckets:
  fixes cs :: "nat \<Rightarrow> nat list" and d :: part and s :: nat
  defines "g \<equiv> \<lambda>b. fold (account_entry d) (map (dir_at d s) (b * 4 # cs b))"
  shows "acc_used (fold g bs a) = acc_used a + (\<Sum>b\<leftarrow>bs. used_in (bpays d s b (cs b)))"
    "acc_used (fold g bs a) + acc_empty (fold g bs a) = acc_used a + acc_empty a + (\<Sum>b\<leftarrow>bs. 1 + int (length (cs b)))"
proof -
  have u: "used_in (map (dir_at d s) xs) = used_in (pays d s xs)" for xs
    by (induction xs) (auto simp: pays_def)
  show "acc_used (fold g bs a) = acc_used a + (\<Sum>b\<leftarrow>bs. used_in (bpays d s b (cs b)))"
  proof (induction bs arbitrary: a)
    case (Cons b bs)
    have "acc_used (g b a) = acc_used a + used_in (bpays d s b (cs b))" unfolding g_def account_fold(1) u bpays_def ..
    then show ?case using Cons by simp
  qed simp
  show "acc_used (fold g bs a) + acc_empty (fold g bs a) = acc_used a + acc_empty a + (\<Sum>b\<leftarrow>bs. 1 + int (length (cs b)))"
  proof (induction bs arbitrary: a)
    case (Cons b bs)
    have "acc_used (g b a) + acc_empty (g b a) = acc_used a + acc_empty a + (1 + int (length (cs b)))"
      unfolding g_def account_fold(2) by simp
    then show ?case using Cons by simp
  qed simp
qed

lemma dir_segment_accounted_ok:
  assumes r: "seg_rep d s fl cs"
  shows "\<exists>a avg. dir_segment_accounted s d offby = Some (0 \<le> offby, int (length fl), a, avg, d) \<and>
    acc_used a = int (seg_used d s) \<and> int (length fl) + acc_used a + acc_empty a = int (buckets d) * 4"
proof -
  let ?init = "\<lparr>acc_used = 0, acc_empty = 0, acc_valid = 0, acc_agg_valid = 0, acc_size = 0\<rparr>"
  let ?g = "\<lambda>b. fold (account_entry d) (map (dir_at d s) (b * 4 # cs b))"
  let ?a = "fold ?g [0..<buckets d] ?init"
  have fe: "for_each (\<lambda>bi. walk (account_entry d) d s (Some (dir_bucket bi))) [0..<buckets d] ?init = Some ?a"
    by (rule for_each_total) (use walk_chain[OF seg_rep_chain[OF r]] in \<open>simp add: dir_bucket_def DIR_DEPTH_def\<close>)
  note A = account_buckets[of d s cs "[0..<buckets d]" ?init]
  have u: "acc_used ?a = int (seg_used d s)"
    using A(1) seg_used_sum[of d s fl cs] r by (simp add: seg_rep_pays)
  have "(\<Sum>b\<leftarrow>[0..<buckets d]. 1 + int (length (cs b))) = int (buckets d) + int (\<Sum>b<buckets d. length (cs b))"
    by (simp add: sum_list_distinct_conv_sum_set lessThan_atLeast0 sum.distrib)
  then have t: "int (length fl) + acc_used ?a + acc_empty ?a = int (buckets d) * 4"
  proof -
    have "acc_used ?a + acc_empty ?a = int (buckets d) + int (\<Sum>b<buckets d. length (cs b))"
      using A(2) \<open>(\<Sum>b\<leftarrow>[0..<buckets d]. 1 + int (length (cs b))) = _\<close> by (simp del: fold.simps list.simps of_nat_sum)
    moreover have "int (length fl) + int (\<Sum>b<buckets d. length (cs b)) = 3 * int (buckets d)"
      using chain_lengths[OF r] by linarith
    ultimately show ?thesis by linarith
  qed
  have "dir_segment_accounted s d offby = Some (0 \<le> offby, int (length fl), ?a, if acc_used ?a \<noteq> 0 then acc_size ?a sdiv acc_used ?a else 0, d)"
    using t by (simp add: dir_segment_accounted_def dir_freelist_length_ok[OF r] fe DIR_DEPTH_def del: fold.simps)
  then show ?thesis using u t by blast
qed

section \<open>Counting the entries of the partition\<close>

lemma segment_used_ok:
  assumes "seg_rep d s fl cs" "set bs \<subseteq> {..<buckets d}"
  shows "segment_used s bs n d = Some (n + (\<Sum>b\<leftarrow>bs. length (contents d s b (cs b))), d)"
  using assms(2)
proof (induction bs arbitrary: n)
  case (Cons b bs)
  then have b: "b < buckets d" by simp
  note ch = seg_rep_chain[OF assms(1) b]
  have "fold count_used xs n = n + length (filter (\<lambda>e. dir_offset e \<noteq> 0) xs)" for xs n
    by (induction xs arbitrary: n) (auto simp: count_used_def)
  then have "walk count_used d s (Some (b * 4)) n = Some (n + length (contents d s b (cs b)))"
    using walk_chain[OF ch, of count_used n] unfolding contents_map_filter
    by (simp add: emp_def[symmetric] filter_map comp_def del: fold.simps list.simps)
  then show ?case using loop_fix_chain[OF ch] Cons by (simp add: dir_bucket_def DIR_DEPTH_def)
qed simp

lemma dir_entries_used_ok:
  assumes "\<And>s. s < segments d \<Longrightarrow> seg_inv d s"
  shows "dir_entries_used d = Some (\<Sum>s < segments d. seg_used d s, d)"
proof -
  have "segment_used s [0..<buckets d] 0 d = Some (seg_used d s, d)" if "s < segments d" for s
  proof -
    have r: "seg_rep d s (seg_free d s) (seg_chain d s)" using assms[OF that] by (simp add: seg_inv_def)
    show ?thesis using segment_used_ok[OF r, of "[0..<buckets d]" 0] seg_used_contents[OF r]
      by (simp add: sum_list_distinct_conv_sum_set lessThan_atLeast0)
  qed
  then have "for_each (\<lambda>s (full, d). do { (sfull, d') \<leftarrow> segment_used s [0..<buckets d] 0 d; Some (full + sfull, d') }) ss (n, d) =
      Some (n + (\<Sum>s\<leftarrow>ss. seg_used d s), d)" if "set ss \<subseteq> {..< segments d}" for ss n
    using that by (induction ss arbitrary: n) auto
  from this[of "[0..< segments d]" 0] show ?thesis
    by (simp add: dir_entries_used_def sum_list_distinct_conv_sum_set atLeast0LessThan)
qed

end
