(* ===== verification/Cache_Dir_Main.thy ===== *)
theory Cache_Dir_Main
  imports Cache_Dir_Check
begin

text \<open>
  The theorems of the cache directory, on the state that a partition really has: the
  invariant \<open>seg_inv\<close> of a segment is computed from the entries, and every statement is about
  the functions of \<^verbatim>\<open>CacheDir.cc\<close>. The directory is an instance of the contract
  \<open>entry_index\<close> for every key. Two theorems show states from which the code goes wrong: a probe
  that restarts with a stale predecessor, and an insertion that never returns.
\<close>

section \<open>Sample partitions\<close>

definition blank :: "nat \<Rightarrow> part" where
  "blank B = \<lparr>dirs = replicate (B * 4) dir_clear, segments = 1, buckets = B, freelist = [0], phase = 0, dirty = False,
     write_pos = 4096, agg_pos = 0, agg_buf_pos = 0, skip = 0, start = 0, plen = 65536, direntries_used = 0, dir_collisions = 0\<rparr>"

definition fresh :: "nat \<Rightarrow> part" where
  "fresh B = dir_init_segment 0 (blank B)"

definition key0 :: "u8 list" where
  "key0 = replicate 16 0"

definition entry :: "u64 \<Rightarrow> dir" where
  "entry off = dir_set_offset off dir_clear"

text \<open>A segment of one bucket whose four rows hold fragments that are no document heads.\<close>

definition full :: part where
  "full = (blank 1)\<lparr>dirs := [dir_set_next 1 (entry 1), dir_set_next 2 (entry 2), dir_set_next 3 (entry 3), entry 4]\<rparr>"

text \<open>A segment whose only entry lies past the write position.\<close>

definition outdated :: part where
  "outdated = dir_put 0 0 (entry 100) (fresh 1)"

text \<open>The same rows, each a document head.\<close>

definition headed :: part where
  "headed = full\<lparr>dirs := map (dir_set_head True) (dirs full)\<rparr>"

text \<open>A probe by value: the entry without its link.\<close>

definition probe_entry :: "u8 list \<Rightarrow> part \<Rightarrow> (dir option \<times> part) option" where
  "probe_entry key d = map_option (\<lambda>(r, d'). (map_option (\<lambda>(i, e). payload e) r, d')) (dir_probe key None d)"

declare loop_check_loop.simps [code] probe_loop.simps [code] insert_slot.simps [code]

section \<open>The contract holds\<close>

lemma params_valid: "params d' = params d \<Longrightarrow> dir_valid d' = dir_valid d"
  by (rule ext) (simp add: params_def dir_valid_def part_in_phase_valid_def part_out_of_phase_valid_def)

lemma kept_valid: "others_kept key d d' \<Longrightarrow> dir_valid d' = dir_valid d"
  unfolding others_kept_def using params_valid by blast

interpretation dirx: entry_index "key_ok key" "key_entries key" "key_match key" dir_valid "probe_entry key"
  "dir_insert key" "dir_delete key" "del_match key" "\<lambda>x. filled x (key_word key 2)"
  "\<lambda>d. key_entries key d = [] \<or> seg_free d (key_segment key d) \<noteq> []" "\<lambda>x. dir_offset x \<noteq> 0"
  for key
proof (unfold_locales, goal_cases)
  case (1 d)
  obtain r d' where P: "dir_probe key None d = Some (r, d')" "key_ok key d'" "others_kept key d d'"
    "(map_option (\<lambda>(i, e). payload e) r, key_entries key d') = probe_spec (key_match key) (dir_valid d) (key_entries key d)"
    using dir_probe_ok[OF 1] by (elim exE conjE) (rule that)
  have "probe_entry key d = Some (map_option (\<lambda>(i, e). payload e) r, d')" using P(1) by (simp add: probe_entry_def)
  then show ?case using P(2,4) kept_valid[OF P(3)] by blast
next
  case (2 d x)
  obtain d' where d': "dir_insert key x d = Some d'" "key_ok key d'" "others_kept key d d'"
    "key_entries key d' = bucket_insert (filled x (key_word key 2)) (key_entries key d)"
    using dir_insert_room[OF 2(1,3,2)] by (elim exE conjE) (rule that)
  show ?case
  proof (cases "key_entries key d")
    case Nil
    then show ?thesis using d' kept_valid[OF d'(3)] by (intro exI[of _ d'] exI[of _ "[]"] exI[of _ "[]"]) (simp add: bucket_insert_def)
  next
    case (Cons h t)
    then show ?thesis using d' kept_valid[OF d'(3)] by (intro exI[of _ d'] exI[of _ "[h]"] exI[of _ t]) (simp add: bucket_insert_def)
  qed
next
  case (3 d x)
  obtain d' where "dir_delete key x d = Some (list_ex (del_match key x) (key_entries key d), d')" "key_ok key d'"
    "others_kept key d d'" "key_entries key d' = remove_first (del_match key x) (key_entries key d)"
    using dir_delete_ok[OF 3, of x] by (elim exE conjE) (rule that)
  then show ?case using kept_valid[of key d d'] by simp
next
  case (4 x d)
  then show ?case by (simp add: key_match_def del_match_def dir_compare_tag_def)
qed

section \<open>Facts about the samples\<close>

lemma fresh_rep:
  assumes "0 < B" "B * 4 \<le> 2 ^ 16"
  shows "seg_rep (fresh B) 0 (rev (init_rows B)) (\<lambda>_. [])" "buckets (fresh B) = B" "segments (fresh B) = 1"
    "b < B \<Longrightarrow> bucket_entries (fresh B) 0 b = []" "dir_valid (fresh B) = dir_valid (blank B)"
proof -
  have g: "geom (blank B)" "0 < segments (blank B)" and B: "buckets (blank B) = B" "segments (blank B) = 1"
    using assms by (simp_all add: blank_def geom_def)
  note I = dir_init_segment_ok[OF g, unfolded B, folded fresh_def]
  show r: "seg_rep (fresh B) 0 (rev (init_rows B)) (\<lambda>_. [])" by (rule I(1))
  show B': "buckets (fresh B) = B" "segments (fresh B) = 1" using I(2) B by (simp_all add: frame_def params_def)
  show "dir_valid (fresh B) = dir_valid (blank B)" using frame_valid[OF I(2)] by (simp add: fun_eq_iff)
  show "bucket_entries (fresh B) 0 b = []" if "b < B"
    using bucket_entries_rep[of "fresh B" 0 "rev (init_rows B)" "\<lambda>_. []" "{}" b] r I(3)[OF that] that B' by (simp add: seg_rep_def)
qed

lemma fresh_key:
  assumes "0 < B" "B * 4 \<le> 2 ^ 16"
  shows "key_ok key (fresh B)" "key_entries key (fresh B) = []" "key_segment key (fresh B) = 0"
proof -
  show s: "key_segment key (fresh B) = 0" using fresh_rep(3)[OF assms] by (simp add: key_segment_def)
  show "key_ok key (fresh B)" using seg_rep_inv[OF fresh_rep(1)[OF assms]] by (simp add: key_ok_def s)
  have "key_bucket key (fresh B) < B" using fresh_rep(2)[OF assms] assms by (simp add: key_bucket_def)
  then show "key_entries key (fresh B) = []" using fresh_rep(4)[OF assms] by (simp add: key_entries_def s)
qed

lemma entry_sel [simp]: "dir_offset (entry 1) = 1" "dir_valid (fresh 2) (entry 1)"
proof -
  show "dir_offset (entry 1) = 1" by code_simp
  have "dir_valid (blank 2) (entry 1)" by code_simp
  then show "dir_valid (fresh 2) (entry 1)" by (simp add: fresh_rep(5))
qed

lemma four_rows_rep:
  assumes "nxt d 0 0 = 1 \<and> nxt d 0 1 = 2 \<and> nxt d 0 2 = 3 \<and> nxt d 0 3 = 0 \<and> flh d 0 = 0"
    "\<not> emp d 0 0 \<and> \<not> emp d 0 1 \<and> \<not> emp d 0 2 \<and> \<not> emp d 0 3"
    "buckets d = 1 \<and> segments d = 1 \<and> length (dirs d) = 4 \<and> length (freelist d) = 1"
  shows "seg_rep d 0 [] (\<lambda>_. [1, 2, 3])" "key_ok key d" "key_segment key d = 0" "key_bucket key d = 0" "seg_free d 0 = []"
    "bucket_entries d 0 0 = contents d 0 0 [1, 2, 3]" "key_entries key d = contents d 0 0 [1, 2, 3]"
proof -
  have r: "rows 1 = {1, 2, 3}" unfolding rows_def by auto
  show R: "seg_rep d 0 [] (\<lambda>_. [1, 2, 3])" unfolding seg_rep_def seg_links_def links_ok_def filled_ok_def geom_def
    using assms r by (simp add: lessThan_Suc)
  then have l: "seg_links d 0 [] (\<lambda>_. [1, 2, 3]) {}" by (simp add: seg_rep_def)
  show k: "key_segment key d = 0" "key_bucket key d = 0" using assms(3) by (simp_all add: key_segment_def key_bucket_def)
  show "key_ok key d" using seg_rep_inv[OF R] k by (simp add: key_ok_def)
  show "seg_free d 0 = []" by (rule seg_links_free[OF l])
  show "bucket_entries d 0 0 = contents d 0 0 [1, 2, 3]" using bucket_entries_rep[OF l, of 0] assms(3) by simp
  then show "key_entries key d = contents d 0 0 [1, 2, 3]" using k by (simp add: key_entries_def)
qed

lemma full_rows: "nxt full 0 0 = 1 \<and> nxt full 0 1 = 2 \<and> nxt full 0 2 = 3 \<and> nxt full 0 3 = 0 \<and> flh full 0 = 0"
    "\<not> emp full 0 0 \<and> \<not> emp full 0 1 \<and> \<not> emp full 0 2 \<and> \<not> emp full 0 3"
    "buckets full = 1 \<and> segments full = 1 \<and> length (dirs full) = 4 \<and> length (freelist full) = 1"
  by code_simp+

lemma headed_rows: "nxt headed 0 0 = 1 \<and> nxt headed 0 1 = 2 \<and> nxt headed 0 2 = 3 \<and> nxt headed 0 3 = 0 \<and> flh headed 0 = 0"
    "\<not> emp headed 0 0 \<and> \<not> emp headed 0 1 \<and> \<not> emp headed 0 2 \<and> \<not> emp headed 0 3"
    "buckets headed = 1 \<and> segments headed = 1 \<and> length (dirs headed) = 4 \<and> length (freelist headed) = 1"
  by code_simp+

lemmas full_ok = four_rows_rep[OF full_rows]
lemmas headed_ok = four_rows_rep[OF headed_rows]

section \<open>A full segment without document heads\<close>

lemma clean_loop_id:
  assumes l: "seg_links d s fl cs {}" and b: "b < buckets d" and live: "\<And>i. i \<in> set (b * 4 # cs b) \<Longrightarrow> \<not> stale d (dir_at d s i)"
  shows "b * 4 # cs b = us @ x # vs \<Longrightarrow> clean_loop s (Some x) p d = Some d"
proof (induction vs arbitrary: us x p)
  case Nil
  note NX = seg_links_next(2)[OF l b Nil]
  have "x \<in> set (b * 4 # cs b)" unfolding Nil by simp
  then have "\<not> stale d (dir_at d s x)" by (rule live)
  then have "clean_loop s (Some x) p d = clean_loop s None (Some x) d" using NX by (subst clean_loop.simps) simp
  also have "\<dots> = Some d" by (subst clean_loop.simps) simp
  finally show ?case .
next
  case (Cons v vs)
  note NX = seg_links_next(2)[OF l b Cons.prems]
  have "x \<in> set (b * 4 # cs b)" unfolding Cons.prems by simp
  then have "\<not> stale d (dir_at d s x)" by (rule live)
  then have "clean_loop s (Some x) p d = clean_loop s (Some v) (Some x) d" using NX by (subst clean_loop.simps) simp
  also have "\<dots> = Some d" using Cons.prems by (intro Cons.IH[of "us @ [x]"]) simp
  finally show ?case .
qed

lemma clean_segment_id:
  assumes r: "seg_links d s fl cs {}" and live: "\<And>b i. b < buckets d \<Longrightarrow> i \<in> set (b * 4 # cs b) \<Longrightarrow> \<not> stale d (dir_at d s i)"
  shows "dir_clean_segment s d = Some d"
proof -
  have "for_each (\<lambda>i. dir_clean_bucket (dir_bucket i) s) bs d = Some d" if "set bs \<subseteq> {..<buckets d}" for bs
    using that
  proof (induction bs)
    case (Cons b bs)
    then have "dir_clean_bucket (dir_bucket b) s d = Some d"
      using clean_loop_id[OF r, of b "[]" "b * 4" "cs b" None] live[of b] by (simp add: dir_clean_bucket_def dir_bucket_def DIR_DEPTH_def)
    then show ?case using Cons by simp
  qed simp
  then show ?thesis unfolding dir_clean_segment_def by (rule meta_spec) auto
qed

lemma purge_none: "(\<And>i. i \<in> set xs \<Longrightarrow> dir_head (dir_at d s i) = 0) \<Longrightarrow> fold (purge_step s) xs (n, d) = (n, d)"
  by (induction xs) (simp_all add: purge_step_def)

lemma insert_slot_stuck:
  assumes "\<not> dir_is_empty (dir_at d s b)" "empty_row d s b = None" "freelist_pop s d = Some (None, d)"
  shows "insert_slot s b d = None"
proof -
  have "\<not> (s = s \<and> b = b \<and> d = d)" if "insert_slot s b d = Some y" for y
  proof (rule insert_slot.raw_induct[where P = "\<lambda>s' b' d' y. \<not> (s' = s \<and> b' = b \<and> d' = d)", OF _ that])
    fix f s' b' d' y
    assume IH: "\<And>s'' b'' d'' y. f s'' b'' d'' = Some y \<Longrightarrow> \<not> (s'' = s \<and> b'' = b \<and> d'' = d)"
      and step: "(if dir_is_empty (dir_at d' s' b') then Some (b', d')
        else case empty_row d' s' b' of
          None \<Rightarrow> do { (r, d1) \<leftarrow> freelist_pop s' d'; case r of None \<Rightarrow> f s' b' d1 | Some e \<Rightarrow> Some (e, dir_link e b' s' d1) }
        | Some e \<Rightarrow> Some (e, dir_link e b' s' (unlink_from_freelist e s' d'))) = Some y"
    show "\<not> (s' = s \<and> b' = b \<and> d' = d)"
    proof
      assume eq: "s' = s \<and> b' = b \<and> d' = d"
      then have "f s b d = Some y" using step assms by simp
      then show False using IH by blast
    qed
  qed
  then show ?thesis by (cases "insert_slot s b d") auto
qed

lemma dir_insert_stuck:
  assumes k: "key_ok key d" and ne: "key_entries key d \<noteq> []" and f: "seg_free d (key_segment key d) = []"
    and use: "\<And>c e. c < buckets d \<Longrightarrow> e \<in> set (bucket_entries d (key_segment key d) c) \<Longrightarrow> dir_valid d e \<and> dir_head e = 0"
    and nb: "\<And>c. c < buckets d \<Longrightarrow> bucket_entries d (key_segment key d) c \<noteq> []"
  shows "dir_insert key x d = None"
proof -
  let ?s = "key_segment key d" and ?b = "key_bucket key d"
  obtain fl cs where r0: "seg_rep d ?s fl cs" and b: "?b < buckets d" and fl: "fl = seg_free d ?s" and cs: "cs = seg_chain d ?s"
    and ke: "key_entries key d = contents d ?s ?b (cs ?b)" by (rule key_ok_rep[OF k])
  have r: "seg_rep d ?s [] cs" using r0 fl f by simp
  have l: "seg_links d ?s [] cs {}" using r by (simp add: seg_rep_def)
  have all: "dir_valid d (dir_at d ?s i) \<and> dir_head (dir_at d ?s i) = 0 \<and> \<not> emp d ?s i" if c: "c < buckets d" "i \<in> set (c * 4 # cs c)" for c i
  proof -
    have be: "bucket_entries d ?s c = contents d ?s c (cs c)" by (rule bucket_entries_rep[OF l c(1)])
    then have "\<not> emp d ?s (c * 4)" using nb[OF c(1)] seg_rep_bpays(4)[OF r c(1)] by simp
    then have "contents d ?s c (cs c) = bpays d ?s c (cs c)" by (rule seg_rep_bpays(2)[OF r c(1)])
    then have "payload (dir_at d ?s i) \<in> set (bucket_entries d ?s c)" using c(2) unfolding be by (auto simp: bpays_def pays_def)
    then have "dir_valid d (payload (dir_at d ?s i)) \<and> dir_head (payload (dir_at d ?s i)) = 0 \<and> dir_offset (payload (dir_at d ?s i)) \<noteq> 0"
      using use[OF c(1)] contents_in_use unfolding be by blast
    then show ?thesis by (simp add: emp_def)
  qed
  have st: "\<not> stale d (dir_at d ?s i)" if "c < buckets d" "i \<in> set (c * 4 # cs c)" for c i
    using all[OF that] by (simp add: stale_def emp_def)
  have cl: "dir_clean_segment ?s d = Some d" by (rule clean_segment_id[OF l]) (rule st)
  have hd: "dir_head (dir_at d ?s i) = 0" if "i < buckets d * 4" for i
  proof (cases "i mod 4 = 0")
    case True
    then have "i = i div 4 * 4" "i div 4 < buckets d" using that by auto
    then show ?thesis using all[of "i div 4" i] by simp
  next
    case False
    then have "i \<in> rows (buckets d)" using that by (simp add: rows_def)
    moreover have "rows (buckets d) = (\<Union>b<buckets d. set (cs b))" using l by (simp add: seg_links_def links_ok_def)
    ultimately obtain c where "c < buckets d" "i \<in> set (cs c)" by auto
    then show ?thesis using all[of c i] by simp
  qed
  have pu: "fold (purge_step ?s) (purge_rows (buckets d)) (0, d) = (0, d)"
    unfolding purge_rows_eq by (rule purge_none) (use hd in simp)
  have fc: "freelist_clean ?s d = Some d" using cl pu by (simp add: freelist_clean_def)
  have "unat (freelist d ! ?s) = 0" using seg_links_flh(3)[OF l] by (simp add: flh_def)
  then have pop: "freelist_pop ?s d = Some (None, d)" using fc by (simp add: freelist_pop_def dir_from_offset_def)
  have er: "empty_row d ?s (?b * 4) = None"
  proof (rule ccontr)
    assume "empty_row d ?s (?b * 4) \<noteq> None"
    then obtain e where e: "empty_row d ?s (?b * 4) = Some e" by auto
    have "e \<in> rows (buckets d)" using empty_row_Some[OF e] b unfolding rows_iff by auto presburger+
    then show False using seg_rep_empty_row[OF r] empty_row_Some[OF e] by simp
  qed
  have "\<not> dir_is_empty (dir_at d ?s (?b * 4))" using all[OF b, of "?b * 4"] by (simp add: dir_is_empty_def emp_def)
  then have "insert_slot ?s (?b * 4) d = None" by (rule insert_slot_stuck[OF _ er pop])
  then show ?thesis by (simp add: dir_insert_def dir_bucket_def DIR_DEPTH_def)
qed

section \<open>Whole segments and unchanged directories\<close>

lemma replace_first_none: "(\<And>e. e \<in> set es \<Longrightarrow> \<not> m e) \<Longrightarrow> replace_first m y es = es"
  by (induction es) auto

lemma others_kept_refl: "others_kept key d d"
  by (simp add: others_kept_def)

lemma dir_clean_segment_inv:
  assumes "seg_inv d s"
  shows "\<exists>d'. dir_clean_segment s d = Some d' \<and> seg_inv d' s \<and> frame s d d' \<and>
    (\<forall>b<buckets d. bucket_entries d' s b = filter (dir_valid d) (bucket_entries d s b)) \<and>
    direntries_used d' - int (seg_used d' s) = direntries_used d - int (seg_used d s)"
proof -
  let ?cs = "seg_chain d s"
  have r: "seg_rep d s (seg_free d s) ?cs" using assms by (simp add: seg_inv_def)
  then have l: "seg_links d s (seg_free d s) ?cs {}" and em: "\<forall>i\<in>set (seg_free d s). emp d s i" by (auto simp: seg_rep_pays)
  obtain d' fl' cs' where d': "dir_clean_segment s d = Some d'" and c: "cleaned s [0..<buckets d] ?cs d d' fl' cs'"
    and r': "seg_rep d' s fl' cs'" using dir_clean_segment_ok[OF l em] by (elim exE conjE) (rule that)
  have l': "seg_links d' s fl' cs' {}" and em': "\<forall>i\<in>set fl'. emp d' s i" using r' by (auto simp: seg_rep_pays)
  have fr: "frame s d d'" and B: "buckets d' = buckets d" using c frame_params[of s d d'] by (simp_all add: cleaned_def)
  have u: "direntries_used d' - int (seg_used d' s) = direntries_used d - int (seg_used d s)"
    unfolding seg_used_sum[OF l em] seg_used_sum[OF l' em'] B using c by (simp add: cleaned_def)
  have be: "bucket_entries d' s b = filter (dir_valid d) (bucket_entries d s b)" if b: "b < buckets d" for b
  proof -
    have "bucket_entries d' s b = live d (bucket_entries d s b)"
      using c b B bucket_entries_rep[OF l b] bucket_entries_rep[OF l', of b] by (simp add: cleaned_def)
    also have "\<dots> = filter (dir_valid d) (bucket_entries d s b)" unfolding live_def
      using contents_in_use[of _ d s b "?cs b"] bucket_entries_rep[OF l b] by (intro filter_cong) (auto simp: stale_def)
    finally show ?thesis .
  qed
  show ?thesis using d' seg_rep_inv[OF r'] fr be u by blast
qed

lemma dir_init_segment_inv:
  assumes "geom d" "s < segments d"
  shows "seg_inv (dir_init_segment s d) s \<and> frame s d (dir_init_segment s d) \<and>
    (\<forall>b<buckets d. bucket_entries (dir_init_segment s d) s b = []) \<and>
    length (seg_free (dir_init_segment s d) s) = (DIR_DEPTH - 1) * buckets d"
proof -
  note I = dir_init_segment_ok[OF assms]
  have l: "seg_links (dir_init_segment s d) s (rev (init_rows (buckets d))) (\<lambda>_. []) {}" using I(1) by (simp add: seg_rep_def)
  have B: "buckets (dir_init_segment s d) = buckets d" using frame_params[OF I(2)] by simp
  have "bucket_entries (dir_init_segment s d) s b = []" if "b < buckets d" for b
    using bucket_entries_rep[OF l, of b] I(3)[OF that] that B by simp
  then show ?thesis using seg_rep_inv[OF I(1)] I(2) seg_links_free[OF l] by (simp add: init_rows_set DIR_DEPTH_def)
qed

section \<open>The operations of the directory\<close>

text \<open>C2: \<^verbatim>\<open>dir_insert\<close> into a directory whose segment satisfies the invariant, when the bucket is
  empty or the segment has a free row, returns; the bucket of the key then holds the new entry,
  with the tag of the key, in the second place (the first if it was empty) and its other entries
  in their order; every other bucket and segment keeps its entries, the invariant holds again,
  and the statistic of used entries moves with the number of rows in use.\<close>

theorem dir_insert_refines:
  assumes "key_ok key d" "dir_offset x \<noteq> 0" "key_entries key d = [] \<or> seg_free d (key_segment key d) \<noteq> []"
  shows "\<exists>d'. dir_insert key x d = Some d' \<and> key_ok key d' \<and> others_kept key d d' \<and>
    key_entries key d' = bucket_insert (filled x (key_word key 2)) (key_entries key d)"
  using dir_insert_room[OF assms] by (elim exE conjE) (intro exI conjI)

theorem dir_insert_refines_witness:
  "\<exists>d'. dir_insert key0 (entry 1) (fresh 2) = Some d' \<and> key_ok key0 d' \<and> length (key_entries key0 d') = 1"
  using dir_insert_refines[of key0 "fresh 2" "entry 1"] fresh_key[of 2 key0]
  by (auto simp: bucket_insert_def)

text \<open>C9: \<^verbatim>\<open>dir_insert\<close> also returns when the segment has no free row, provided some bucket holds
  two entries or more and one of them is a document head: cleaning and purging make room. What
  is left of each bucket is a subsequence of what it held, and the statistic stays exact.\<close>

theorem dir_insert_makes_room:
  assumes "key_ok key d" "dir_offset x \<noteq> 0" "seg_purgeable d (key_segment key d)"
  shows "\<exists>d' es. dir_insert key x d = Some d' \<and> key_ok key d' \<and> subseq es (key_entries key d) \<and>
    key_entries key d' = bucket_insert (filled x (key_word key 2)) es \<and>
    (\<forall>c<buckets d. c \<noteq> key_bucket key d \<longrightarrow>
       subseq (bucket_entries d' (key_segment key d) c) (bucket_entries d (key_segment key d) c)) \<and>
    direntries_used d' - int (seg_used d' (key_segment key d)) = direntries_used d - int (seg_used d (key_segment key d))"
  by (rule dir_insert_purge[OF assms])

theorem dir_insert_makes_room_witness: "\<exists>d'. dir_insert key0 (entry 1) headed = Some d' \<and> key_ok key0 d'"
proof -
  have "list_ex (\<lambda>c. 2 \<le> length (contents headed 0 0 [1, 2, 3]) \<and> list_ex (\<lambda>e. dir_head e \<noteq> 0) (contents headed 0 0 [1, 2, 3])) [0]"
    by code_simp
  then have "seg_purgeable headed (key_segment key0 headed)"
    using headed_rows(3) headed_ok(6) by (simp add: seg_purgeable_def headed_ok(3))
  moreover have "dir_offset (entry 1) \<noteq> 0" by simp
  ultimately show ?thesis using dir_insert_makes_room[OF headed_ok(2)] by blast
qed

text \<open>C31: when no row is free and the entries of the segment are valid fragments without the head
  bit, in every bucket, \<^verbatim>\<open>dir_insert\<close> does not return: \<^verbatim>\<open>freelist_clean\<close> finds nothing to clean
  or purge and the search for a slot starts again from the same state.\<close>

theorem dir_insert_never_returns:
  assumes "key_ok key d" "seg_free d (key_segment key d) = []"
    "\<And>c. c < buckets d \<Longrightarrow> bucket_entries d (key_segment key d) c \<noteq> []"
    "\<And>c e. c < buckets d \<Longrightarrow> e \<in> set (bucket_entries d (key_segment key d) c) \<Longrightarrow> dir_valid d e \<and> dir_head e = 0"
  shows "dir_insert key x d = None"
proof (rule dir_insert_stuck[OF assms(1) _ assms(2,4,3)])
  show "key_entries key d \<noteq> []"
    using assms(1,3) key_ok_rep[OF assms(1)] unfolding key_entries_def by metis
qed

theorem dir_insert_never_returns_witness: "dir_insert key0 (entry 1) full = None"
proof -
  have "contents full 0 0 [1, 2, 3] \<noteq> [] \<and> list_all (\<lambda>e. dir_valid full e \<and> dir_head e = 0) (contents full 0 0 [1, 2, 3])"
    by code_simp
  then show ?thesis using full_ok(5,6) full_rows(3)
    by (intro dir_insert_never_returns full_ok(2)) (auto simp: full_ok(3) list_all_iff)
qed

text \<open>C5: \<^verbatim>\<open>dir_probe\<close> without a previous collision returns the first valid entry of the bucket
  that carries the tag of the key, and nothing exactly when there is none; it drops the invalid
  entries with that tag it meets on the way and changes nothing else.\<close>

theorem dir_probe_refines:
  assumes "key_ok key d"
  shows "\<exists>r d'. dir_probe key None d = Some (r, d') \<and> key_ok key d' \<and> others_kept key d d' \<and>
    (map_option (\<lambda>(i, e). payload e) r, key_entries key d') = probe_spec (key_match key) (dir_valid d) (key_entries key d) \<and>
    map_option (\<lambda>(i, e). payload e) r = find (\<lambda>e. key_match key e \<and> dir_valid d e) (key_entries key d)"
proof -
  obtain r d' where "dir_probe key None d = Some (r, d')" "key_ok key d'" "others_kept key d d'"
    and P: "(map_option (\<lambda>(i, e). payload e) r, key_entries key d') = probe_spec (key_match key) (dir_valid d) (key_entries key d)"
    using dir_probe_ok[OF assms] by (elim exE conjE) (rule that)
  moreover have "map_option (\<lambda>(i, e). payload e) r = find (\<lambda>e. key_match key e \<and> dir_valid d e) (key_entries key d)"
    unfolding probe_spec_find[symmetric] P[symmetric] by simp
  ultimately show ?thesis by blast
qed

theorem dir_probe_refines_witness:
  "\<exists>r d'. dir_probe key0 None (fresh 2) = Some (r, d') \<and> r = None"
  using dir_probe_refines[of key0 "fresh 2"] fresh_key[of 2 key0] by auto

text \<open>C25: after a valid entry is inserted under a key, \<^verbatim>\<open>dir_probe\<close> finds a valid entry with the
  tag of that key: the new one, or the one that was first in the bucket when its tag is the same.\<close>

theorem dir_insert_then_probe:
  assumes "key_ok key d" "dir_offset x \<noteq> 0" "key_entries key d = [] \<or> seg_free d (key_segment key d) \<noteq> []" "dir_valid d x"
  shows "\<exists>d1 y d2. dir_insert key x d = Some d1 \<and> probe_entry key d1 = Some (Some y, d2) \<and> key_match key y \<and> dir_valid d y \<and>
    (y = filled x (key_word key 2) \<or> key_entries key d \<noteq> [] \<and> y = hd (key_entries key d))"
proof -
  obtain d1 where "dir_insert key x d = Some d1" using dirx.ins_law[OF assms(1,3,2)] by blast
  then show ?thesis using dirx.probe_after_insert[OF assms(1,3,2,4)] by blast
qed

theorem dir_insert_then_probe_witness:
  "\<exists>d1 y d2. dir_insert key0 (entry 1) (fresh 2) = Some d1 \<and> probe_entry key0 d1 = Some (Some y, d2) \<and> dir_offset y = 1"
  using dir_insert_then_probe[of key0 "fresh 2" "entry 1"] fresh_key[of 2 key0] by fastforce

text \<open>\<^verbatim>\<open>dir_delete\<close> of an entry that was just inserted, and whose tag and offset no other entry
  of the bucket has, returns 1 and leaves the bucket as it was before the insertion.\<close>

theorem dir_insert_delete_roundtrip:
  assumes "key_ok key d" "dir_offset x \<noteq> 0" "key_entries key d = [] \<or> seg_free d (key_segment key d) \<noteq> []"
    "\<not> list_ex (del_match key x) (key_entries key d)"
  shows "\<exists>d1 d2. dir_insert key x d = Some d1 \<and> dir_delete key x d1 = Some (True, d2) \<and> key_ok key d2 \<and>
    key_entries key d2 = key_entries key d"
proof -
  obtain d1 where "dir_insert key x d = Some d1" using dirx.ins_law[OF assms(1,3,2)] by blast
  then show ?thesis using dirx.delete_after_insert[OF assms(1,3,2) _ assms(4)] by blast
qed

theorem dir_insert_delete_roundtrip_witness:
  "\<exists>d1 d2. dir_insert key0 (entry 1) (fresh 2) = Some d1 \<and> dir_delete key0 (entry 1) d1 = Some (True, d2) \<and> key_entries key0 d2 = []"
  using dir_insert_delete_roundtrip[of key0 "fresh 2" "entry 1"] fresh_key[of 2 key0] by auto

text \<open>C15: \<^verbatim>\<open>dir_overwrite\<close> replaces in place the first entry with the tag of the key and the offset
  of the entry to overwrite, and returns 1; when there is none and it must overwrite, it returns 0
  and changes nothing.\<close>

theorem dir_overwrite_refines:
  fixes key :: "u8 list"
  defines "t \<equiv> DIR_MASK_TAG (key_word key 2)"
  assumes "key_ok key d" "dir_offset x \<noteq> 0"
  shows "\<exists>d'. dir_overwrite key x old True d = Some (list_ex (ow_match t old) (key_entries key d), d') \<and>
    key_ok key d' \<and> others_kept key d d' \<and> key_entries key d' = replace_first (ow_match t old) (filled x t) (key_entries key d)"
proof (cases "list_ex (ow_match t old) (key_entries key d)")
  case True
  then show ?thesis using dir_overwrite_found[OF assms(2,3), of old True] unfolding t_def by simp
next
  case False
  then have "replace_first (ow_match t old) (filled x t) (key_entries key d) = key_entries key d"
    by (intro replace_first_none) (simp add: list_ex_iff)
  moreover have "others_kept key d d" by (rule others_kept_refl)
  ultimately show ?thesis using False assms(2) dir_overwrite_must[OF assms(2), of old x] unfolding t_def by simp
qed

theorem dir_overwrite_refines_witness: "\<exists>d'. dir_overwrite key0 (entry 9) (entry 2) True full = Some (True, d') \<and> key_ok key0 d'"
proof -
  have m: "list_ex (ow_match (DIR_MASK_TAG (key_word key0 2)) (entry 2)) (contents full 0 0 [1, 2, 3]) \<and> dir_offset (entry 9) \<noteq> 0"
    by code_simp
  then show ?thesis using dir_overwrite_refines[OF full_ok(2)[of key0], of "entry 9" "entry 2"] unfolding full_ok(7) by auto
qed

text \<open>C12: \<^verbatim>\<open>dir_delete\<close> removes the first entry of the bucket with the tag of the key and the given
  offset, tells whether there was one, and keeps every other bucket and the invariant.\<close>

theorem dir_delete_refines:
  assumes "key_ok key d"
  shows "\<exists>d'. dir_delete key x d = Some (list_ex (del_match key x) (key_entries key d), d') \<and> key_ok key d' \<and>
    others_kept key d d' \<and> key_entries key d' = remove_first (del_match key x) (key_entries key d)"
  by (rule dir_delete_ok[OF assms])

theorem dir_delete_refines_witness: "\<exists>d'. dir_delete key0 (entry 2) full = Some (True, d') \<and> key_ok key0 d'"
proof -
  have "list_ex (del_match key0 (entry 2)) (contents full 0 0 [1, 2, 3])" by code_simp
  then show ?thesis using dir_delete_refines[OF full_ok(2)[of key0], of "entry 2"] unfolding full_ok(7) by auto
qed

text \<open>C16: \<^verbatim>\<open>dir_clean_segment\<close> returns, leaves in each bucket exactly its valid entries, in order,
  keeps the invariant and the other segments, and keeps the statistic in step.\<close>

theorem dir_clean_segment_refines:
  assumes "seg_inv d s"
  shows "\<exists>d'. dir_clean_segment s d = Some d' \<and> seg_inv d' s \<and> frame s d d' \<and>
    (\<forall>b<buckets d. bucket_entries d' s b = filter (dir_valid d) (bucket_entries d s b)) \<and>
    direntries_used d' - int (seg_used d' s) = direntries_used d - int (seg_used d s)"
  by (rule dir_clean_segment_inv[OF assms])

theorem dir_clean_segment_refines_witness:
  "\<exists>d'. dir_clean_segment 0 headed = Some d' \<and> seg_inv d' 0 \<and> length (bucket_entries d' 0 0) = 4"
proof -
  have "length (filter (dir_valid headed) (contents headed 0 0 [1, 2, 3])) = 4" by code_simp
  then show ?thesis using dir_clean_segment_refines[OF seg_rep_inv[OF headed_ok(1)]] headed_rows(3)
    unfolding headed_ok(6)[symmetric] by auto
qed

text \<open>C30: \<^verbatim>\<open>dir_init_segment\<close> establishes the invariant from any contents of the segment: every
  bucket is empty and the \<^verbatim>\<open>(DIR_DEPTH - 1) * buckets\<close> other rows are free.\<close>

theorem dir_init_segment_establishes:
  assumes "geom d" "s < segments d"
  shows "seg_inv (dir_init_segment s d) s \<and> frame s d (dir_init_segment s d) \<and>
    (\<forall>b<buckets d. bucket_entries (dir_init_segment s d) s b = []) \<and>
    length (seg_free (dir_init_segment s d) s) = (DIR_DEPTH - 1) * buckets d"
  by (rule dir_init_segment_inv[OF assms])

theorem dir_init_segment_establishes_witness:
  "seg_inv (dir_init_segment 0 headed) 0 \<and> length (seg_free (dir_init_segment 0 headed) 0) = 3"
proof -
  have "geom headed" "0 < segments headed" using headed_rows(3) by (simp_all add: geom_def)
  from dir_init_segment_establishes[OF this] show ?thesis using headed_rows(3) by (simp add: DIR_DEPTH_def)
qed

text \<open>C26: \<^verbatim>\<open>dir_bucket_loop_check\<close> returns on every state, and returns 1 exactly when following
  the links of the bucket reaches the end.\<close>

theorem dir_bucket_loop_check_correct:
  "dir_bucket_loop_check (Some e) s d = Some (\<exists>n. (next_opt d s ^^ n) (Some e) = None)"
  by (rule loop_check_correct)

text \<open>On a directory whose segments satisfy the invariant \<^verbatim>\<open>dir_entries_used\<close> repairs nothing
  and returns the exact number of rows in use.\<close>

theorem dir_entries_used_exact:
  assumes "\<And>s. s < segments d \<Longrightarrow> seg_inv d s"
  shows "dir_entries_used d = Some (\<Sum>s < segments d. seg_used d s, d)"
  by (rule dir_entries_used_ok[OF assms])

theorem dir_entries_used_exact_witness: "dir_entries_used full = Some (seg_used full 0, full)"
  using dir_entries_used_exact[of full] full_rows(3) seg_rep_inv[OF full_ok(1)] by simp


end
