(* ===== verification/Io_Buffer.thy ===== *)
theory Io_Buffer
  imports Prelude "HOL-Library.Monad_Syntax"
begin

text \<open>
  The buffers of \<^verbatim>\<open>iocore/eventsystem\<close> (\<^verbatim>\<open>I_IOBuffer.h\<close>, \<^verbatim>\<open>P_IOBuffer.h\<close>, \<^verbatim>\<open>IOBuffer.cc\<close>).
  An \<^verbatim>\<open>IOBufferData\<close> is a piece of memory; an \<^verbatim>\<open>IOBufferBlock\<close> describes the used and the
  free part of one and links to the next block; an \<^verbatim>\<open>IOBufferReader\<close> is a position in a chain
  of blocks, and a \<^verbatim>\<open>MIOBuffer\<close> has one writing position and up to five readers.

  Blocks are shared between readers and data between blocks, so both live in an explicit heap
  and pointers are indices into it (\<open>None\<close> is \<^verbatim>\<open>NULL\<close>). The three \<^verbatim>\<open>char*\<close> of a block are
  offsets from the beginning of its data. Reference counts only decide when memory goes back to
  an allocator; the heap here only grows, so they are left out. \<open>junk\<close> is what freshly
  allocated memory contains. An operation is \<open>None\<close> where the code dereferences \<^verbatim>\<open>NULL\<close>,
  fails an \<^verbatim>\<open>ink_release_assert\<close> or does not return; \<^verbatim>\<open>ink_assert\<close> is empty in a release
  build.
\<close>

section \<open>Sizes\<close>

definition DEFAULT_BUFFER_SIZES :: int where "DEFAULT_BUFFER_SIZES = 10"
definition BUFFER_SIZE_NOT_ALLOCATED :: int where "BUFFER_SIZE_NOT_ALLOCATED = DEFAULT_BUFFER_SIZES"
definition MAX_MIOBUFFER_READERS :: nat where "MAX_MIOBUFFER_READERS = 5"
definition INK64_MAX :: int where "INK64_MAX = 2 ^ 63 - 1"
definition max_iobuffer_size :: int where "max_iobuffer_size = DEFAULT_BUFFER_SIZES - 1"

definition BUFFER_SIZE_FOR_INDEX :: "int \<Rightarrow> int" where
  "BUFFER_SIZE_FOR_INDEX i = 128 * 2 ^ nat i"

definition BUFFER_SIZE_INDEX_IS_XMALLOCED :: "int \<Rightarrow> bool" where
  "BUFFER_SIZE_INDEX_IS_XMALLOCED i \<longleftrightarrow> i < 0"

definition BUFFER_SIZE_INDEX_IS_FAST_ALLOCATED :: "int \<Rightarrow> bool" where
  "BUFFER_SIZE_INDEX_IS_FAST_ALLOCATED i \<longleftrightarrow> 0 \<le> i \<and> i < DEFAULT_BUFFER_SIZES"

definition BUFFER_SIZE_INDEX_IS_CONSTANT :: "int \<Rightarrow> bool" where
  "BUFFER_SIZE_INDEX_IS_CONSTANT i \<longleftrightarrow> i \<ge> DEFAULT_BUFFER_SIZES"

definition BUFFER_SIZE_ALLOCATED :: "int \<Rightarrow> bool" where
  "BUFFER_SIZE_ALLOCATED i \<longleftrightarrow> BUFFER_SIZE_INDEX_IS_FAST_ALLOCATED i \<or> BUFFER_SIZE_INDEX_IS_XMALLOCED i"

primrec size_to_index_loop :: "int \<Rightarrow> nat \<Rightarrow> nat" where
  "size_to_index_loop n 0 = 0"
| "size_to_index_loop n (Suc r) =
     (if BUFFER_SIZE_FOR_INDEX (int r) \<ge> n then size_to_index_loop n r else Suc r)"

definition buffer_size_to_index :: "int \<Rightarrow> int \<Rightarrow> int" where
  "buffer_size_to_index n mx = int (size_to_index_loop n (nat mx))"

definition iobuffer_size_to_index :: "int \<Rightarrow> int \<Rightarrow> int" where
  "iobuffer_size_to_index n mx =
     (if n > BUFFER_SIZE_FOR_INDEX mx then - n else buffer_size_to_index n mx)"

definition index_to_buffer_size :: "int \<Rightarrow> int" where
  "index_to_buffer_size idx =
     (if BUFFER_SIZE_INDEX_IS_FAST_ALLOCATED idx then BUFFER_SIZE_FOR_INDEX idx
      else if BUFFER_SIZE_INDEX_IS_XMALLOCED idx then - idx
      else if BUFFER_SIZE_INDEX_IS_CONSTANT idx then idx - DEFAULT_BUFFER_SIZES
      else 0)"

section \<open>Data, blocks, readers, buffers\<close>

record iodata =
  d_size_index :: int
  d_bytes :: "u8 list"

record ioblock =
  b_data :: "nat option"
  b_start :: int
  b_end :: int
  b_buf_end :: int
  b_next :: "nat option"

record accessor =
  ac_mbuf :: "nat option"
  ac_entry :: "(nat \<times> nat) option"

record ioheap =
  datas :: "iodata list"
  blocks :: "ioblock list"
  accessors :: "accessor list"
  junk :: "nat \<Rightarrow> nat \<Rightarrow> u8"

record reader =
  rd_accessor :: "nat option"
  rd_mbuf :: "nat option"
  rd_block :: "nat option"
  rd_start_offset :: int
  rd_size_limit :: int

record mio =
  m_id :: nat
  m_size_index :: int
  m_water_mark :: int
  m_writer :: "nat option"
  m_readers :: "reader list"

abbreviation blk :: "ioheap \<Rightarrow> nat \<Rightarrow> ioblock" where
  "blk h i \<equiv> blocks h ! i"

definition put_blk :: "nat \<Rightarrow> ioblock \<Rightarrow> ioheap \<Rightarrow> ioheap" where
  "put_blk i b h = h\<lparr>blocks := (blocks h)[i := b]\<rparr>"

definition blk_size :: "ioblock \<Rightarrow> int" where
  "blk_size b = b_end b - b_start b"

definition blk_read_avail :: "ioblock \<Rightarrow> int" where
  "blk_read_avail b = b_end b - b_start b"

definition blk_write_avail :: "ioblock \<Rightarrow> int" where
  "blk_write_avail b = b_buf_end b - b_end b"

text \<open>The bytes between two offsets of a piece of data, and \<^verbatim>\<open>memcpy\<close> into one.\<close>

definition data_slice :: "ioheap \<Rightarrow> nat option \<Rightarrow> int \<Rightarrow> int \<Rightarrow> u8 list" where
  "data_slice h d s n = (case d of None \<Rightarrow> [] | Some k \<Rightarrow> take (nat n) (drop (nat s) (d_bytes (datas h ! k))))"

definition data_store :: "nat option \<Rightarrow> int \<Rightarrow> u8 list \<Rightarrow> ioheap \<Rightarrow> ioheap" where
  "data_store d s bs h = (case d of None \<Rightarrow> h | Some k \<Rightarrow>
     let old = d_bytes (datas h ! k)
     in h\<lparr>datas := (datas h)[k := (datas h ! k)\<lparr>d_bytes := take (nat s) old @ bs @ drop (nat s + length bs) old\<rparr>]\<rparr>)"

section \<open>Data and blocks\<close>

definition new_IOBufferData :: "int \<Rightarrow> ioheap \<Rightarrow> nat \<times> ioheap" where
  "new_IOBufferData i h =
     (let k = length (datas h); n = (if BUFFER_SIZE_ALLOCATED i then nat (index_to_buffer_size i) else 0)
      in (k, h\<lparr>datas := datas h @ [\<lparr>d_size_index = i, d_bytes = map (junk h k) [0..<n]\<rparr>]\<rparr>))"

definition data_block_size :: "ioheap \<Rightarrow> nat \<Rightarrow> int" where
  "data_block_size h k = index_to_buffer_size (d_size_index (datas h ! k))"

definition new_IOBufferBlock :: "ioheap \<Rightarrow> nat \<times> ioheap" where
  "new_IOBufferBlock h =
     (length (blocks h), h\<lparr>blocks := blocks h @ [\<lparr>b_data = None, b_start = 0, b_end = 0, b_buf_end = 0, b_next = None\<rparr>]\<rparr>)"

definition blk_consume :: "int \<Rightarrow> ioblock \<Rightarrow> ioblock" where
  "blk_consume n b = b\<lparr>b_start := b_start b + n\<rparr>"

definition blk_fill :: "int \<Rightarrow> ioblock \<Rightarrow> ioblock" where
  "blk_fill n b = b\<lparr>b_end := b_end b + n\<rparr>"

text \<open>\<^verbatim>\<open>reset\<close>, \<^verbatim>\<open>alloc\<close>, \<^verbatim>\<open>set\<close> and \<^verbatim>\<open>set_internal\<close> of the block at index \<open>i\<close>.\<close>

definition blk_reset :: "nat \<Rightarrow> ioheap \<Rightarrow> ioheap option" where
  "blk_reset i h = (case b_data (blk h i) of
     None \<Rightarrow> None
   | Some k \<Rightarrow> Some (put_blk i ((blk h i)\<lparr>b_start := 0, b_end := 0, b_buf_end := data_block_size h k\<rparr>) h))"

definition blk_alloc :: "nat \<Rightarrow> int \<Rightarrow> ioheap \<Rightarrow> ioheap option" where
  "blk_alloc i sz h =
     (let (k, h1) = new_IOBufferData sz h
      in blk_reset i (put_blk i ((blk h1 i)\<lparr>b_data := Some k\<rparr>) h1))"

definition blk_set :: "nat \<Rightarrow> nat \<Rightarrow> int \<Rightarrow> int \<Rightarrow> ioheap \<Rightarrow> ioheap" where
  "blk_set i d len offset h =
     put_blk i ((blk h i)\<lparr>b_data := Some d, b_start := offset, b_end := offset + len,
                          b_buf_end := offset + data_block_size h d\<rparr>) h"

definition blk_set_internal :: "nat \<Rightarrow> u8 list \<Rightarrow> int \<Rightarrow> int \<Rightarrow> ioheap \<Rightarrow> ioheap option" where
  "blk_set_internal i mem len sz h =
     (let (k, h1) = new_IOBufferData BUFFER_SIZE_NOT_ALLOCATED h;
          h2 = put_blk i ((blk h1 i)\<lparr>b_data := Some k\<rparr>) h1;
          h3 = h2\<lparr>datas := (datas h2)[k := \<lparr>d_size_index = sz, d_bytes = mem\<rparr>]\<rparr>
      in do {
        h4 \<leftarrow> blk_reset i h3;
        Some (put_blk i ((blk h4 i)\<lparr>b_end := b_start (blk h4 i) + len\<rparr>) h4)
      })"

definition blk_clear :: "nat \<Rightarrow> ioheap \<Rightarrow> ioheap" where
  "blk_clear i h = put_blk i \<lparr>b_data = None, b_start = 0, b_end = 0, b_buf_end = 0, b_next = None\<rparr> h"

definition blk_clone :: "nat \<Rightarrow> ioheap \<Rightarrow> nat \<times> ioheap" where
  "blk_clone i h =
     (let (j, h1) = new_IOBufferBlock h; b = blk h1 i
      in (j, put_blk j ((blk h1 j)\<lparr>b_data := b_data b, b_start := b_start b, b_end := b_end b, b_buf_end := b_end b\<rparr>) h1))"

text \<open>\<^verbatim>\<open>realloc_set_internal\<close>: the used bytes are copied to the front of the new memory.\<close>

definition blk_realloc_set_internal :: "nat \<Rightarrow> u8 list \<Rightarrow> int \<Rightarrow> int \<Rightarrow> ioheap \<Rightarrow> ioheap option" where
  "blk_realloc_set_internal i mem buf_size sz h =
     (let b = blk h i; n = blk_size b;
          used = data_slice h (b_data b) (b_start b) n;
          mem' = used @ drop (length used) mem
      in do {
        h1 \<leftarrow> blk_set_internal i mem' buf_size sz (blk_clear i h);
        Some (put_blk i ((blk h1 i)\<lparr>b_end := b_start (blk h1 i) + n\<rparr>) h1)
      })"

definition blk_realloc :: "nat \<Rightarrow> u8 list \<Rightarrow> int \<Rightarrow> ioheap \<Rightarrow> ioheap option" where
  "blk_realloc i mem buf_size h = blk_realloc_set_internal i mem buf_size BUFFER_SIZE_NOT_ALLOCATED h"

definition blk_realloc_xmalloc :: "nat \<Rightarrow> u8 list \<Rightarrow> int \<Rightarrow> ioheap \<Rightarrow> ioheap option" where
  "blk_realloc_xmalloc i mem buf_size h = blk_realloc_set_internal i mem buf_size (- buf_size) h"

text \<open>\<^verbatim>\<open>realloc(ink64)\<close>; \<open>allocs\<close> is \<^verbatim>\<open>sizeof(ioBufAllocator)\<close>, a number of bytes.\<close>

definition blk_realloc_index :: "int \<Rightarrow> nat \<Rightarrow> int \<Rightarrow> ioheap \<Rightarrow> ioheap option" where
  "blk_realloc_index allocs i sz h = (case b_data (blk h i) of
     None \<Rightarrow> None
   | Some k \<Rightarrow>
       if sz = d_size_index (datas h ! k) then Some h
       else if sz \<ge> allocs then Some h
       else if sz > d_size_index (datas h ! k) \<and> sz \<noteq> BUFFER_SIZE_NOT_ALLOCATED
       then blk_realloc_set_internal i (map (junk h (length (datas h))) [0..<nat (BUFFER_SIZE_FOR_INDEX sz)]) (BUFFER_SIZE_FOR_INDEX sz) sz h
       else None)"

section \<open>Chains of blocks\<close>

text \<open>\<^verbatim>\<open>while (b) { ...; b = b->next; }\<close> with an accumulator.\<close>

partial_function (option) block_walk :: "(ioblock \<Rightarrow> 'a \<Rightarrow> 'a) \<Rightarrow> ioheap \<Rightarrow> nat option \<Rightarrow> 'a \<Rightarrow> 'a option" where
  "block_walk f h p acc =
     (case p of None \<Rightarrow> Some acc | Some i \<Rightarrow> block_walk f h (b_next (blk h i)) (f (blk h i) acc))"

text \<open>The loop of \<^verbatim>\<open>iobufferblock_clone\<close>; \<open>cur\<close> is \<^verbatim>\<open>current_buf\<close>, \<open>st\<close> is \<^verbatim>\<open>start_buf\<close>.\<close>

partial_function (option) clone_loop ::
  "nat option \<Rightarrow> int \<Rightarrow> int \<Rightarrow> nat option \<Rightarrow> nat option \<Rightarrow> ioheap \<Rightarrow> (nat option \<times> ioheap) option" where
  "clone_loop p offset len st cur h =
     (case p of
        None \<Rightarrow> Some (st, h)
      | Some i \<Rightarrow>
          if len < 0 then Some (st, h)
          else
            let b = blk h i; max_bytes = (b_end b - b_start b) - offset
            in if max_bytes \<le> 0 then clone_loop (b_next b) (- max_bytes) len st cur h
               else
                 let bytes = (if len \<ge> max_bytes then max_bytes else len);
                     (j, h1) = blk_clone i h;
                     s = b_start (blk h1 j) + offset;
                     h2 = put_blk j ((blk h1 j)\<lparr>b_start := s, b_end := s + bytes, b_buf_end := s + bytes\<rparr>) h1;
                     h3 = (case cur of None \<Rightarrow> h2 | Some c \<Rightarrow> put_blk c ((blk h2 c)\<lparr>b_next := Some j\<rparr>) h2)
                 in clone_loop (b_next (blk h3 i)) 0 (len - bytes) (if st = None then Some j else st) (Some j) h3)"

definition iobufferblock_clone :: "nat option \<Rightarrow> int \<Rightarrow> int \<Rightarrow> ioheap \<Rightarrow> (nat option \<times> ioheap) option" where
  "iobufferblock_clone b offset len h = clone_loop b offset len None None h"

partial_function (option) skip_loop :: "ioheap \<Rightarrow> nat option \<Rightarrow> int \<Rightarrow> int \<Rightarrow> (nat option \<times> int) option" where
  "skip_loop h p offset len =
     (case p of
        None \<Rightarrow> Some (None, offset)
      | Some i \<Rightarrow>
          if len < 0 then Some (Some i, offset)
          else
            let max_bytes = blk_read_avail (blk h i) - offset
            in if max_bytes \<le> 0 then skip_loop h (b_next (blk h i)) (- max_bytes) len
               else if len \<ge> max_bytes then skip_loop h (b_next (blk h i)) 0 (len - max_bytes)
               else Some (Some i, offset + len))"

text \<open>The result: the block, \<^verbatim>\<open>*poffset\<close> and \<^verbatim>\<open>*plen\<close>.\<close>

definition iobufferblock_skip :: "ioheap \<Rightarrow> nat option \<Rightarrow> int \<Rightarrow> int \<Rightarrow> int \<Rightarrow> (nat option \<times> int \<times> int) option" where
  "iobufferblock_skip h b offset len write = do {
     (b', offset') \<leftarrow> skip_loop h b offset write;
     Some (b', offset', len - write)
   }"

section \<open>Readers\<close>

partial_function (option) skip_empty_blocks :: "ioheap \<Rightarrow> reader \<Rightarrow> reader option" where
  "skip_empty_blocks h r =
     (case rd_block r of
        None \<Rightarrow> None
      | Some i \<Rightarrow>
          case b_next (blk h i) of
            None \<Rightarrow> Some r
          | Some n \<Rightarrow>
              if blk_read_avail (blk h n) \<noteq> 0 \<and> rd_start_offset r \<ge> blk_size (blk h i)
              then skip_empty_blocks h (r\<lparr>rd_start_offset := rd_start_offset r - blk_size (blk h i), rd_block := Some n\<rparr>)
              else Some r)"

text \<open>\<^verbatim>\<open>start\<close> and \<^verbatim>\<open>end\<close>: the data and the offset in it, and the reader moved past empty blocks.\<close>

definition reader_start :: "ioheap \<Rightarrow> reader \<Rightarrow> ((nat option \<times> int) option \<times> reader) option" where
  "reader_start h r =
     (if rd_block r = None then Some (None, r)
      else do {
        r' \<leftarrow> skip_empty_blocks h r;
        let b = blk h (the (rd_block r'));
        Some (Some (b_data b, b_start b + rd_start_offset r'), r')
      })"

definition reader_end :: "ioheap \<Rightarrow> reader \<Rightarrow> ((nat option \<times> int) option \<times> reader) option" where
  "reader_end h r =
     (if rd_block r = None then Some (None, r)
      else do {
        r' \<leftarrow> skip_empty_blocks h r;
        let b = blk h (the (rd_block r'));
        Some (Some (b_data b, b_end b), r')
      })"

definition reader_block_read_avail :: "ioheap \<Rightarrow> reader \<Rightarrow> (int \<times> reader) option" where
  "reader_block_read_avail h r =
     (if rd_block r = None then Some (0, r)
      else do {
        r' \<leftarrow> skip_empty_blocks h r;
        let b = blk h (the (rd_block r'));
        Some (b_end b - (b_start b + rd_start_offset r'), r')
      })"

definition reader_block_count :: "ioheap \<Rightarrow> reader \<Rightarrow> nat option" where
  "reader_block_count h r = block_walk (\<lambda>_ n. n + 1) h (rd_block r) 0"

definition reader_read_avail :: "ioheap \<Rightarrow> reader \<Rightarrow> int option" where
  "reader_read_avail h r = do {
     t \<leftarrow> block_walk (\<lambda>b t. t + blk_read_avail b) h (rd_block r) 0;
     let t' = t - rd_start_offset r;
     Some (if rd_size_limit r \<noteq> INK64_MAX \<and> t' > rd_size_limit r then rd_size_limit r else t')
   }"

text \<open>The loop of \<^verbatim>\<open>consume\<close>; the reader's \<^verbatim>\<open>start_offset\<close> is \<^verbatim>\<open>s\<close> whenever the test is made.\<close>

partial_function (option) consume_loop :: "ioheap \<Rightarrow> nat \<Rightarrow> int \<Rightarrow> (nat \<times> int) option" where
  "consume_loop h i s =
     (let rd = blk_read_avail (blk h i)
      in case b_next (blk h i) of
           None \<Rightarrow> Some (i, s)
         | Some n \<Rightarrow>
             if rd \<le> s \<and> blk_read_avail (blk h n) \<noteq> 0 then consume_loop h n (s - rd) else Some (i, s))"

definition reader_consume :: "ioheap \<Rightarrow> reader \<Rightarrow> int \<Rightarrow> reader option" where
  "reader_consume h r n =
     (let r1 = r\<lparr>rd_start_offset := rd_start_offset r + n,
                 rd_size_limit := (if rd_size_limit r \<noteq> INK64_MAX then rd_size_limit r - n else rd_size_limit r)\<rparr>
      in case rd_block r1 of
           None \<Rightarrow> Some r1
         | Some i \<Rightarrow> do {
             (i', s) \<leftarrow> consume_loop h i (rd_start_offset r1);
             Some (r1\<lparr>rd_block := Some i', rd_start_offset := s\<rparr>)
           })"

text \<open>\<^verbatim>\<open>operator[]\<close>: the static \<^verbatim>\<open>_error\<close> byte, here 0, when out of range.\<close>

partial_function (option) at_loop :: "ioheap \<Rightarrow> nat option \<Rightarrow> int \<Rightarrow> u8 option" where
  "at_loop h p i =
     (case p of
        None \<Rightarrow> Some 0
      | Some k \<Rightarrow>
          let bytes = blk_read_avail (blk h k)
          in if bytes > i then Some (hd (data_slice h (b_data (blk h k)) (b_start (blk h k) + i) 1))
             else at_loop h (b_next (blk h k)) (i - bytes))"

definition reader_at :: "ioheap \<Rightarrow> reader \<Rightarrow> int \<Rightarrow> u8 option" where
  "reader_at h r i = at_loop h (rd_block r) (i + rd_start_offset r)"

definition reader_clear :: "reader \<Rightarrow> reader" where
  "reader_clear r = \<lparr>rd_accessor = None, rd_mbuf = None, rd_block = None, rd_start_offset = 0, rd_size_limit = INK64_MAX\<rparr>"

definition reader_reset :: "nat option \<Rightarrow> reader \<Rightarrow> reader" where
  "reader_reset writer r = r\<lparr>rd_block := writer, rd_start_offset := 0, rd_size_limit := INK64_MAX\<rparr>"

partial_function (option) read_loop :: "ioheap \<Rightarrow> reader \<Rightarrow> int \<Rightarrow> u8 list \<Rightarrow> (u8 list \<times> reader) option" where
  "read_loop h r n acc =
     (if n = 0 then Some (acc, r)
      else do {
        (l0, r1) \<leftarrow> reader_block_read_avail h r;
        let l = (if n < l0 then n else l0);
        (p, r2) \<leftarrow> reader_start h r1;
        let bs = (case p of None \<Rightarrow> [] | Some (d, s) \<Rightarrow> data_slice h d s l);
        r3 \<leftarrow> reader_consume h r2 l;
        read_loop h r3 (n - l) (acc @ bs)
      })"

text \<open>\<^verbatim>\<open>read\<close>: the bytes copied, the reader after it and the count it returns.\<close>

definition reader_read :: "ioheap \<Rightarrow> reader \<Rightarrow> int \<Rightarrow> (u8 list \<times> reader \<times> int) option" where
  "reader_read h r len = do {
     max_bytes \<leftarrow> reader_read_avail h r;
     let bytes = (if len \<le> max_bytes then len else max_bytes);
     (bs, r') \<leftarrow> read_loop h r bytes [];
     Some (bs, r', bytes)
   }"

definition ink_memchr :: "u8 \<Rightarrow> u8 list \<Rightarrow> nat option" where
  "ink_memchr c bs = (let k = length (takeWhile (\<lambda>x. x \<noteq> c) bs) in if k < length bs then Some k else None)"

partial_function (option) memchr_loop ::
  "ioheap \<Rightarrow> u8 \<Rightarrow> int \<Rightarrow> nat option \<Rightarrow> int \<Rightarrow> int \<Rightarrow> int \<Rightarrow> int option" where
  "memchr_loop h c st p len offset pos =
     (case p of
        None \<Rightarrow> Some (-1)
      | Some i \<Rightarrow>
          if len = 0 then Some (-1)
          else
            let b = blk h i; max_bytes = blk_read_avail b - offset
            in if max_bytes \<le> 0 then memchr_loop h c st (b_next b) len (- max_bytes) pos
               else
                 let bytes = (if len < 0 \<or> len \<ge> max_bytes then max_bytes else len)
                 in case ink_memchr c (data_slice h (b_data b) (b_start b + offset) bytes) of
                      Some k \<Rightarrow> Some (pos - st + int k)
                    | None \<Rightarrow> memchr_loop h c st (b_next b) (len - bytes) 0 (pos + bytes))"

definition reader_memchr :: "ioheap \<Rightarrow> reader \<Rightarrow> u8 \<Rightarrow> int \<Rightarrow> int \<Rightarrow> int option" where
  "reader_memchr h r c len offset =
     (let pos = offset + rd_start_offset r in memchr_loop h c (rd_start_offset r) (rd_block r) len pos pos)"

partial_function (option) memcpy_loop :: "ioheap \<Rightarrow> nat option \<Rightarrow> int \<Rightarrow> int \<Rightarrow> u8 list \<Rightarrow> u8 list option" where
  "memcpy_loop h p len offset acc =
     (case p of
        None \<Rightarrow> Some acc
      | Some i \<Rightarrow>
          if len = 0 then Some acc
          else
            let b = blk h i; max_bytes = blk_read_avail b - offset
            in if max_bytes \<le> 0 then memcpy_loop h (b_next b) len (- max_bytes) acc
               else
                 let bytes = (if len < 0 \<or> len \<ge> max_bytes then max_bytes else len)
                 in memcpy_loop h (b_next b) (len - bytes) 0
                      (acc @ data_slice h (b_data b) (b_start b + offset) bytes))"

definition reader_memcpy :: "ioheap \<Rightarrow> reader \<Rightarrow> int \<Rightarrow> int \<Rightarrow> u8 list option" where
  "reader_memcpy h r len offset = memcpy_loop h (rd_block r) len (offset + rd_start_offset r) []"

section \<open>Buffers\<close>

definition init_readers :: "mio \<Rightarrow> mio" where
  "init_readers m = m\<lparr>m_readers := map (\<lambda>r. if rd_mbuf r \<noteq> None \<and> rd_block r = None then r\<lparr>rd_block := m_writer m\<rparr> else r) (m_readers m)\<rparr>"

definition first_write_block :: "ioheap \<Rightarrow> mio \<Rightarrow> nat option" where
  "first_write_block h m = (case m_writer m of
     None \<Rightarrow> None
   | Some w \<Rightarrow> if b_next (blk h w) \<noteq> None \<and> blk_write_avail (blk h w) = 0 then b_next (blk h w) else Some w)"

definition block_write_avail :: "ioheap \<Rightarrow> mio \<Rightarrow> int" where
  "block_write_avail h m = (case first_write_block h m of None \<Rightarrow> 0 | Some b \<Rightarrow> blk_write_avail (blk h b))"

text \<open>The first loop of \<^verbatim>\<open>append_block_internal\<close> moves the writer to the last block in use of
  the appended chain, the second one past full blocks.\<close>

partial_function (option) append_advance :: "ioheap \<Rightarrow> nat \<Rightarrow> nat \<Rightarrow> nat option" where
  "append_advance h w b =
     (if blk_read_avail (blk h b) = 0 then Some w
      else case b_next (blk h b) of None \<Rightarrow> Some b | Some n \<Rightarrow> append_advance h b n)"

partial_function (option) writer_advance :: "ioheap \<Rightarrow> nat \<Rightarrow> nat option" where
  "writer_advance h w =
     (case b_next (blk h w) of
        None \<Rightarrow> Some w
      | Some n \<Rightarrow>
          if blk_write_avail (blk h w) = 0 \<and> blk_read_avail (blk h n) \<noteq> 0 then writer_advance h n else Some w)"

definition append_block_internal :: "nat \<Rightarrow> ioheap \<times> mio \<Rightarrow> (ioheap \<times> mio) option" where
  "append_block_internal b = (\<lambda>(h, m). do {
     (h1, m1) \<leftarrow> (case m_writer m of
        None \<Rightarrow> Some (h, init_readers (m\<lparr>m_writer := Some b\<rparr>))
      | Some w \<Rightarrow>
          let h' = put_blk w ((blk h w)\<lparr>b_next := Some b\<rparr>) h
          in do { w' \<leftarrow> append_advance h' w b; Some (h', m\<lparr>m_writer := Some w'\<rparr>) });
     w2 \<leftarrow> writer_advance h1 (the (m_writer m1));
     Some (h1, m1\<lparr>m_writer := Some w2\<rparr>)
   })"

definition append_block_size :: "int \<Rightarrow> ioheap \<times> mio \<Rightarrow> (ioheap \<times> mio) option" where
  "append_block_size sz = (\<lambda>(h, m). do {
     let (b, h1) = new_IOBufferBlock h;
     h2 \<leftarrow> blk_alloc b sz h1;
     append_block_internal b (h2, m)
   })"

definition add_block :: "ioheap \<times> mio \<Rightarrow> (ioheap \<times> mio) option" where
  "add_block = (\<lambda>(h, m). append_block_size (m_size_index m) (h, m))"

definition current_write_avail :: "ioheap \<Rightarrow> mio \<Rightarrow> int option" where
  "current_write_avail h m = block_walk (\<lambda>b t. t + blk_write_avail b) h (m_writer m) 0"

fun max_avail_loop :: "ioheap \<Rightarrow> reader list \<Rightarrow> int \<Rightarrow> bool \<Rightarrow> (int \<times> bool) option" where
  "max_avail_loop h [] s found = Some (s, found)"
| "max_avail_loop h (r # rs) s found =
     (if rd_mbuf r \<noteq> None then do {
        ss \<leftarrow> reader_read_avail h r;
        max_avail_loop h rs (if ss > s then ss else s) True
      } else max_avail_loop h rs s found)"

definition max_read_avail :: "ioheap \<Rightarrow> mio \<Rightarrow> int option" where
  "max_read_avail h m = do {
     (s, found) \<leftarrow> max_avail_loop h (m_readers m) 0 False;
     Some (case m_writer m of None \<Rightarrow> s | Some w \<Rightarrow> if \<not> found then blk_read_avail (blk h w) else s)
   }"

fun max_count_loop :: "ioheap \<Rightarrow> reader list \<Rightarrow> nat \<Rightarrow> nat option" where
  "max_count_loop h [] maxb = Some maxb"
| "max_count_loop h (r # rs) maxb =
     (if rd_mbuf r \<noteq> None then do {
        c \<leftarrow> reader_block_count h r;
        max_count_loop h rs (if c > maxb then c else maxb)
      } else max_count_loop h rs maxb)"

definition max_block_count :: "ioheap \<Rightarrow> mio \<Rightarrow> nat option" where
  "max_block_count h m = max_count_loop h (m_readers m) 0"

definition high_water :: "ioheap \<Rightarrow> mio \<Rightarrow> bool option" where
  "high_water h m = do { a \<leftarrow> max_read_avail h m; Some (a > m_water_mark m) }"

definition current_low_water :: "ioheap \<Rightarrow> mio \<Rightarrow> bool option" where
  "current_low_water h m = do { a \<leftarrow> current_write_avail h m; Some (a \<le> m_water_mark m) }"

definition check_add_block :: "ioheap \<times> mio \<Rightarrow> (ioheap \<times> mio) option" where
  "check_add_block = (\<lambda>(h, m). do {
     hw \<leftarrow> high_water h m;
     if hw then Some (h, m)
     else do {
       lw \<leftarrow> current_low_water h m;
       if lw then add_block (h, m) else Some (h, m)
     }
   })"

definition mio_write_avail :: "ioheap \<times> mio \<Rightarrow> (int \<times> ioheap \<times> mio) option" where
  "mio_write_avail s = do {
     (h, m) \<leftarrow> check_add_block s;
     n \<leftarrow> current_write_avail h m;
     Some (n, h, m)
   }"

definition low_water :: "ioheap \<times> mio \<Rightarrow> (bool \<times> ioheap \<times> mio) option" where
  "low_water s = do { (n, h, m) \<leftarrow> mio_write_avail s; Some (n \<le> m_water_mark m, h, m) }"

definition reader_high_water :: "ioheap \<Rightarrow> mio \<Rightarrow> reader \<Rightarrow> bool option" where
  "reader_high_water h m r = do { n \<leftarrow> reader_read_avail h r; Some (n \<ge> m_water_mark m) }"

text \<open>\<^verbatim>\<open>fill\<close>: the loop and the last \<^verbatim>\<open>fill\<close>; \<open>w\<close> is \<^verbatim>\<open>_writer\<close>.\<close>

partial_function (option) fill_loop :: "nat \<Rightarrow> int \<Rightarrow> ioheap \<Rightarrow> (nat \<times> ioheap) option" where
  "fill_loop w len h =
     (let f = blk_write_avail (blk h w)
      in if f < len then
           let h1 = put_blk w (blk_fill f (blk h w)) h; len' = len - f
           in if len' > 0 then
                case b_next (blk h1 w) of None \<Rightarrow> None | Some n \<Rightarrow> fill_loop n len' h1
              else fill_loop w len' h1
         else Some (w, put_blk w (blk_fill len (blk h w)) h))"

definition mio_fill :: "int \<Rightarrow> ioheap \<times> mio \<Rightarrow> (ioheap \<times> mio) option" where
  "mio_fill len = (\<lambda>(h, m). case m_writer m of
     None \<Rightarrow> None
   | Some w \<Rightarrow> do { (w', h') \<leftarrow> fill_loop w len h; Some (h', m\<lparr>m_writer := Some w'\<rparr>) })"

text \<open>\<^verbatim>\<open>write(const void*, ink64)\<close>.\<close>

partial_function (option) write_loop :: "u8 list \<Rightarrow> ioheap \<times> mio \<Rightarrow> (ioheap \<times> mio) option" where
  "write_loop buf s =
     (if buf = [] then Some s
      else do {
        (h, m) \<leftarrow> (if m_writer (snd s) = None then add_block s else Some s);
        let w = the (m_writer m);
        let a = blk_write_avail (blk h w);
        let f = (if a < int (length buf) then a else int (length buf));
        let (h1, buf1) = (if f > 0
            then (let h' = data_store (b_data (blk h w)) (b_end (blk h w)) (take (nat f) buf) h
                  in (put_blk w (blk_fill f (blk h' w)) h', drop (nat f) buf))
            else (h, buf));
        if buf1 = [] then Some (h1, m)
        else case b_next (blk h1 w) of
            None \<Rightarrow> do { s2 \<leftarrow> add_block (h1, m); write_loop buf1 s2 }
          | Some n \<Rightarrow> write_loop buf1 (h1, m\<lparr>m_writer := Some n\<rparr>)
      })"

definition mio_write :: "u8 list \<Rightarrow> ioheap \<times> mio \<Rightarrow> (int \<times> ioheap \<times> mio) option" where
  "mio_write buf s = do { s' \<leftarrow> write_loop buf s; Some (int (length buf), s') }"

text \<open>\<^verbatim>\<open>write(IOBufferReader*, ink64, ink64)\<close>: blocks of the reader are shared, not copied.\<close>

partial_function (option) write_reader_loop ::
  "nat option \<Rightarrow> int \<Rightarrow> int \<Rightarrow> ioheap \<times> mio \<Rightarrow> (int \<times> ioheap \<times> mio) option" where
  "write_reader_loop p len offset s =
     (case p of
        None \<Rightarrow> Some (len, s)
      | Some i \<Rightarrow>
          if len \<le> 0 then Some (len, s)
          else
            let b = blk (fst s) i; max_bytes = blk_read_avail b - offset
            in if max_bytes \<le> 0 then write_reader_loop (b_next b) len (- max_bytes) s
               else
                 let bytes = (if len < 0 \<or> len \<ge> max_bytes then max_bytes else len);
                     (j, h1) = blk_clone i (fst s);
                     st = b_start (blk h1 j) + offset;
                     h2 = put_blk j ((blk h1 j)\<lparr>b_start := st, b_end := st + bytes, b_buf_end := st + bytes\<rparr>) h1
                 in do {
                   s' \<leftarrow> append_block_internal j (h2, snd s);
                   write_reader_loop (b_next (blk (fst s') i)) (len - bytes) 0 s'
                 })"

definition mio_write_reader :: "reader \<Rightarrow> int \<Rightarrow> int \<Rightarrow> ioheap \<times> mio \<Rightarrow> (int \<times> ioheap \<times> mio) option" where
  "mio_write_reader r alen offset s = do {
     (len, s') \<leftarrow> write_reader_loop (rd_block r) alen (offset + rd_start_offset r) s;
     Some (alen - len, s')
   }"

text \<open>\<^verbatim>\<open>remove_append\<close>: the loop; afterwards the writer of the buffer of \<open>r\<close> is \<^verbatim>\<open>NULL\<close>.\<close>

partial_function (option) remove_append_loop ::
  "int \<Rightarrow> reader \<Rightarrow> ioheap \<times> mio \<Rightarrow> (int \<times> reader \<times> ioheap \<times> mio) option" where
  "remove_append_loop l r s =
     (case rd_block r of
        None \<Rightarrow> Some (l, r, s)
      | Some i \<Rightarrow>
          let r1 = r\<lparr>rd_block := b_next (blk (fst s) i)\<rparr>;
              h1 = put_blk i (blk_consume (rd_start_offset r) (blk (fst s) i)) (fst s)
          in if b_start (blk h1 i) \<ge> b_end (blk h1 i)
             then remove_append_loop l (r1\<lparr>rd_start_offset := - rd_start_offset r1\<rparr>) (h1, snd s)
             else do {
               s' \<leftarrow> append_block_internal i (h1, snd s);
               remove_append_loop (l + blk_read_avail (blk h1 i)) (r1\<lparr>rd_start_offset := 0\<rparr>) s'
             })"

definition remove_append :: "reader \<Rightarrow> mio \<Rightarrow> ioheap \<times> mio \<Rightarrow> (int \<times> reader \<times> mio \<times> ioheap \<times> mio) option" where
  "remove_append r src s = do {
     (l, r', s') \<leftarrow> remove_append_loop 0 r s;
     Some (l, r', src\<lparr>m_writer := None\<rparr>, s')
   }"

text \<open>\<^verbatim>\<open>puts\<close>: \<open>s\<close> is the memory from the pointer on; \<open>pc\<close> counts from \<^verbatim>\<open>end()\<close>, \<open>room\<close> is what is
  left to \<^verbatim>\<open>buf_end()\<close>. The terminating 0 is stored one past the bytes; \<open>data_store\<close> past the end
  of the data lengthens it, which stands for a write behind the allocated memory.\<close>

fun puts_scan :: "u8 list \<Rightarrow> nat \<Rightarrow> nat \<Rightarrow> int \<Rightarrow> int" where
  "puts_scan s n 0 len = 0"
| "puts_scan s n (Suc room) len =
     (if len \<le> 0 then -1
      else if n < length s \<and> (s ! n = 0 \<or> s ! n = 10) then int n + 1
      else puts_scan s (Suc n) room (len - 1))"

definition mio_puts :: "u8 list \<Rightarrow> int \<Rightarrow> ioheap \<times> mio \<Rightarrow> (int \<times> ioheap \<times> mio) option" where
  "mio_puts s len = (\<lambda>(h, m). case first_write_block h m of
     None \<Rightarrow> None
   | Some b \<Rightarrow>
       let n = puts_scan s 0 (nat (blk_write_avail (blk h b))) len
       in if n \<le> 0 then Some (n, h, m)
          else
            let h1 = data_store (b_data (blk h b)) (b_end (blk h b)) (take (nat n) s @ [0]) h
            in do { s' \<leftarrow> mio_fill n (h1, m); Some (n, s') })"

section \<open>Allocating buffers and readers\<close>

definition free_reader :: "mio \<Rightarrow> nat option" where
  "free_reader m = find (\<lambda>i. rd_mbuf (m_readers m ! i) = None) [0..<MAX_MIOBUFFER_READERS]"

definition put_reader :: "nat \<Rightarrow> reader \<Rightarrow> mio \<Rightarrow> mio" where
  "put_reader i r m = m\<lparr>m_readers := (m_readers m)[i := r]\<rparr>"

definition alloc_accessor :: "nat \<Rightarrow> mio \<Rightarrow> (nat \<times> mio) option" where
  "alloc_accessor a m = (case free_reader m of
     None \<Rightarrow> None
   | Some i \<Rightarrow> Some (i, put_reader i
       ((reader_reset (m_writer m) ((m_readers m ! i)\<lparr>rd_mbuf := Some (m_id m)\<rparr>))\<lparr>rd_accessor := Some a\<rparr>) m))"

definition alloc_reader :: "mio \<Rightarrow> (nat \<times> mio) option" where
  "alloc_reader m = (case free_reader m of
     None \<Rightarrow> None
   | Some i \<Rightarrow> Some (i, put_reader i
       ((reader_reset (m_writer m) ((m_readers m ! i)\<lparr>rd_mbuf := Some (m_id m)\<rparr>))\<lparr>rd_accessor := None\<rparr>) m))"

definition clone_reader :: "reader \<Rightarrow> mio \<Rightarrow> (nat \<times> mio) option" where
  "clone_reader r m = (case free_reader m of
     None \<Rightarrow> None
   | Some i \<Rightarrow> Some (i, put_reader i
       ((m_readers m ! i)\<lparr>rd_mbuf := Some (m_id m), rd_accessor := None, rd_block := rd_block r,
          rd_start_offset := rd_start_offset r, rd_size_limit := rd_size_limit r\<rparr>) m))"

definition dealloc_reader :: "nat \<Rightarrow> ioheap \<times> mio \<Rightarrow> ioheap \<times> mio" where
  "dealloc_reader i = (\<lambda>(h, m).
     let e = m_readers m ! i;
         h' = (case rd_accessor e of
                 None \<Rightarrow> h
               | Some a \<Rightarrow> h\<lparr>accessors := (accessors h)[a := \<lparr>ac_mbuf = None, ac_entry = None\<rparr>]\<rparr>)
     in (h', put_reader i (reader_clear e) m))"

definition dealloc_all_readers :: "ioheap \<times> mio \<Rightarrow> ioheap \<times> mio" where
  "dealloc_all_readers s =
     fold (\<lambda>i s. if rd_mbuf (m_readers (snd s) ! i) \<noteq> None then dealloc_reader i s else s) [0..<MAX_MIOBUFFER_READERS] s"

definition mio_dealloc :: "ioheap \<times> mio \<Rightarrow> ioheap \<times> mio" where
  "mio_dealloc = (\<lambda>(h, m). dealloc_all_readers (h, m\<lparr>m_writer := None\<rparr>))"

definition mio_clear :: "ioheap \<times> mio \<Rightarrow> ioheap \<times> mio" where
  "mio_clear s = (let (h, m) = mio_dealloc s
     in (h, m\<lparr>m_size_index := BUFFER_SIZE_NOT_ALLOCATED, m_water_mark := 0\<rparr>))"

definition mio_reset :: "ioheap \<times> mio \<Rightarrow> (ioheap \<times> mio) option" where
  "mio_reset = (\<lambda>(h, m). do {
     h' \<leftarrow> (case m_writer m of None \<Rightarrow> Some h | Some w \<Rightarrow> blk_reset w h);
     Some (h', m\<lparr>m_readers := map (\<lambda>r. if rd_mbuf r \<noteq> None then reader_reset (m_writer m) r else r) (m_readers m)\<rparr>)
   })"

definition mio_set_mem :: "u8 list \<Rightarrow> int \<Rightarrow> int \<Rightarrow> ioheap \<times> mio \<Rightarrow> (ioheap \<times> mio) option" where
  "mio_set_mem mem len sz = (\<lambda>(h, m). do {
     let (b, h1) = new_IOBufferBlock h;
     h2 \<leftarrow> blk_set_internal b mem len sz h1;
     Some (h2, init_readers (m\<lparr>m_writer := Some b\<rparr>))
   })"

definition mio_set :: "u8 list \<Rightarrow> int \<Rightarrow> ioheap \<times> mio \<Rightarrow> (ioheap \<times> mio) option" where
  "mio_set mem len = mio_set_mem mem len (len + DEFAULT_BUFFER_SIZES)"

definition mio_set_xmalloced :: "u8 list \<Rightarrow> int \<Rightarrow> ioheap \<times> mio \<Rightarrow> (ioheap \<times> mio) option" where
  "mio_set_xmalloced mem len = mio_set_mem mem len (- len)"

definition append_mem :: "u8 list \<Rightarrow> int \<Rightarrow> int \<Rightarrow> ioheap \<times> mio \<Rightarrow> (ioheap \<times> mio) option" where
  "append_mem mem len sz = (\<lambda>(h, m). do {
     let (b, h1) = new_IOBufferBlock h;
     h2 \<leftarrow> blk_set_internal b mem len sz h1;
     append_block_internal b (h2, m)
   })"

definition append_xmalloced :: "u8 list \<Rightarrow> int \<Rightarrow> ioheap \<times> mio \<Rightarrow> (ioheap \<times> mio) option" where
  "append_xmalloced mem len = append_mem mem len (- len)"

definition append_fast_allocated :: "u8 list \<Rightarrow> int \<Rightarrow> int \<Rightarrow> ioheap \<times> mio \<Rightarrow> (ioheap \<times> mio) option" where
  "append_fast_allocated mem len sz = append_mem mem len sz"

definition mio_alloc :: "int \<Rightarrow> ioheap \<times> mio \<Rightarrow> (ioheap \<times> mio) option" where
  "mio_alloc sz = (\<lambda>(h, m). do {
     let (b, h1) = new_IOBufferBlock h;
     h2 \<leftarrow> blk_alloc b sz h1;
     Some (h2, init_readers (m\<lparr>m_writer := Some b, m_size_index := sz\<rparr>))
   })"

definition new_empty_MIOBuffer :: "nat \<Rightarrow> int \<Rightarrow> mio" where
  "new_empty_MIOBuffer k sz = \<lparr>m_id = k, m_size_index = sz, m_water_mark = 0, m_writer = None,
     m_readers = replicate MAX_MIOBUFFER_READERS
       \<lparr>rd_accessor = None, rd_mbuf = None, rd_block = None, rd_start_offset = 0, rd_size_limit = INK64_MAX\<rparr>\<rparr>"

definition new_MIOBuffer :: "nat \<Rightarrow> int \<Rightarrow> ioheap \<Rightarrow> (ioheap \<times> mio) option" where
  "new_MIOBuffer k sz h = mio_alloc sz (h, new_empty_MIOBuffer k BUFFER_SIZE_NOT_ALLOCATED)"

definition set_size_index :: "int \<Rightarrow> mio \<Rightarrow> mio" where
  "set_size_index n m = m\<lparr>m_size_index := iobuffer_size_to_index n max_iobuffer_size\<rparr>"

section \<open>Accessors\<close>

definition put_accessor :: "nat \<Rightarrow> accessor \<Rightarrow> ioheap \<Rightarrow> ioheap" where
  "put_accessor a x h = h\<lparr>accessors := (accessors h)[a := x]\<rparr>"

definition reader_for_mio :: "nat \<Rightarrow> ioheap \<times> mio \<Rightarrow> (ioheap \<times> mio) option" where
  "reader_for_mio a = (\<lambda>(h, m). do {
     (i, m') \<leftarrow> alloc_accessor a m;
     Some (put_accessor a \<lparr>ac_mbuf = Some (m_id m), ac_entry = Some (m_id m, i)\<rparr> h, m')
   })"

definition reader_for_reader :: "nat \<Rightarrow> mio \<Rightarrow> nat \<Rightarrow> ioheap \<Rightarrow> ioheap" where
  "reader_for_reader a m i h =
     (if ac_entry (accessors h ! a) = Some (m_id m, i) then h
      else put_accessor a \<lparr>ac_mbuf = rd_mbuf (m_readers m ! i), ac_entry = Some (m_id m, i)\<rparr> h)"

definition writer_for :: "nat \<Rightarrow> mio \<Rightarrow> ioheap \<Rightarrow> ioheap" where
  "writer_for a m h = put_accessor a \<lparr>ac_mbuf = Some (m_id m), ac_entry = None\<rparr> h"

definition accessor_clear :: "nat \<Rightarrow> ioheap \<Rightarrow> ioheap" where
  "accessor_clear a h = put_accessor a \<lparr>ac_mbuf = None, ac_entry = None\<rparr> h"

end
