(* ===== verification/Io_Buffer_Reader.thy ===== *)
theory Io_Buffer_Reader
  imports Io_Buffer
begin

text \<open>
  Chains of blocks as lists of bytes, and the readers over them. \<open>path\<close> relates a pointer to
  the blocks reached from it; \<open>chain_bytes\<close> is the data they hold. Every loop over a chain
  returns, and computes what its name says of the byte list.
\<close>

section \<open>Definitions\<close>

primrec path :: "ioblock list \<Rightarrow> nat option \<Rightarrow> nat list \<Rightarrow> bool" where
  "path bl p [] \<longleftrightarrow> p = None"
| "path bl p (x # xs) \<longleftrightarrow> p = Some x \<and> x < length bl \<and> path bl (b_next (bl ! x)) xs"

definition blk_ok :: "ioheap \<Rightarrow> ioblock \<Rightarrow> bool" where
  "blk_ok h b \<longleftrightarrow> 0 \<le> b_start b \<and> b_start b \<le> b_end b \<and> b_end b \<le> b_buf_end b \<and>
     (case b_data b of None \<Rightarrow> b_buf_end b = 0
      | Some k \<Rightarrow> k < length (datas h) \<and> b_buf_end b \<le> int (length (d_bytes (datas h ! k))))"

definition blk_bytes :: "ioheap \<Rightarrow> nat \<Rightarrow> u8 list" where
  "blk_bytes h i = data_slice h (b_data (blk h i)) (b_start (blk h i)) (blk_read_avail (blk h i))"

definition chain_bytes :: "ioheap \<Rightarrow> nat list \<Rightarrow> u8 list" where
  "chain_bytes h xs = concat (map (blk_bytes h) xs)"

definition chain_ok :: "ioheap \<Rightarrow> nat option \<Rightarrow> nat list \<Rightarrow> bool" where
  "chain_ok h p xs \<longleftrightarrow> path (blocks h) p xs \<and> (\<forall>i\<in>set xs. blk_ok h (blk h i))"

text \<open>Blocks in use come first, blocks without data last.\<close>

definition packed :: "ioheap \<Rightarrow> nat list \<Rightarrow> bool" where
  "packed h xs \<longleftrightarrow> (\<exists>ps zs. xs = ps @ zs \<and> (\<forall>i\<in>set ps. blk_read_avail (blk h i) > 0) \<and> (\<forall>i\<in>set zs. blk_read_avail (blk h i) = 0))"

primrec follow_next :: "nat \<Rightarrow> ioblock list \<Rightarrow> nat option \<Rightarrow> nat list" where
  "follow_next 0 bl p = []"
| "follow_next (Suc n) bl p = (case p of None \<Rightarrow> [] | Some i \<Rightarrow> i # follow_next n bl (b_next (bl ! i)))"

definition chain_of :: "ioheap \<Rightarrow> nat option \<Rightarrow> nat list" where
  "chain_of h p = follow_next (length (blocks h)) (blocks h) p"

text \<open>What a reader has still to read: all bytes from its position on, up to its size limit.\<close>

definition unread :: "ioheap \<Rightarrow> reader \<Rightarrow> u8 list" where
  "unread h r = drop (nat (rd_start_offset r)) (chain_bytes h (chain_of h (rd_block r)))"

definition readable :: "ioheap \<Rightarrow> reader \<Rightarrow> u8 list" where
  "readable h r = (if rd_size_limit r = INK64_MAX then unread h r else take (nat (rd_size_limit r)) (unread h r))"

text \<open>A reader that moves forward stays on its chain and stops at a block in use.\<close>

definition moves :: "ioheap \<Rightarrow> reader \<Rightarrow> reader \<Rightarrow> bool" where
  "moves h r r' \<longleftrightarrow> rd_block r' = rd_block r \<or> (\<exists>us i ys. chain_of h (rd_block r) = us @ i # ys \<and> rd_block r' = Some i \<and>
     chain_of h (Some i) = i # ys \<and> blk_read_avail (blk h i) \<noteq> 0)"

definition reader_ok :: "ioheap \<Rightarrow> reader \<Rightarrow> bool" where
  "reader_ok h r \<longleftrightarrow> chain_ok h (rd_block r) (chain_of h (rd_block r)) \<and> packed h (tl (chain_of h (rd_block r))) \<and>
     0 \<le> rd_start_offset r \<and> rd_start_offset r \<le> int (length (chain_bytes h (chain_of h (rd_block r)))) \<and>
     0 \<le> rd_size_limit r \<and> rd_size_limit r \<le> INK64_MAX"

text \<open>The part of a byte list that \<^verbatim>\<open>memchr\<close> and \<^verbatim>\<open>memcpy\<close> look at: a negative length means no bound.\<close>

definition window :: "int \<Rightarrow> int \<Rightarrow> u8 list \<Rightarrow> u8 list" where
  "window len offset bs = (if len < 0 then drop (nat offset) bs else take (nat len) (drop (nat offset) bs))"

section \<open>Paths\<close>

lemma path_unique: "path bl p xs \<Longrightarrow> path bl p ys \<Longrightarrow> xs = ys"
proof (induction xs arbitrary: p ys)
  case Nil
  then show ?case by (cases ys) auto
next
  case (Cons x xs)
  then show ?case by (cases ys) auto
qed

lemma path_suffix: "path bl p (us @ x # vs) \<Longrightarrow> path bl (b_next (bl ! x)) vs \<and> x < length bl"
  by (induction us arbitrary: p) auto

lemma path_tail: "path bl p (us @ x # vs) \<Longrightarrow> path bl (Some x) (x # vs)"
  using path_suffix by auto

lemma path_distinct: "path bl p xs \<Longrightarrow> distinct xs"
proof (induction xs arbitrary: p)
  case (Cons x xs)
  have "x \<notin> set xs"
  proof
    assume "x \<in> set xs"
    then obtain us vs where xs: "xs = us @ x # vs" by (auto simp: in_set_conv_decomp)
    from Cons.prems have "path bl (b_next (bl ! x)) xs" by simp
    moreover have "path bl (b_next (bl ! x)) vs" using path_suffix calculation unfolding xs by blast
    ultimately have "xs = vs" by (rule path_unique)
    with xs show False by simp
  qed
  with Cons show ?case by auto
qed simp

lemma path_bound: "path bl p xs \<Longrightarrow> set xs \<subseteq> {..<length bl}"
  by (induction xs arbitrary: p) auto

lemma path_length: "path bl p xs \<Longrightarrow> length xs \<le> length bl"
  using path_distinct[of bl p xs] path_bound[of bl p xs] card_mono[of "{..<length bl}" "set xs"]
  by (simp add: distinct_card)

lemma path_cong:
  "path bl p xs \<Longrightarrow> length bl \<le> length bl' \<Longrightarrow> (\<And>i. i \<in> set xs \<Longrightarrow> b_next (bl' ! i) = b_next (bl ! i)) \<Longrightarrow> path bl' p xs"
  by (induction xs arbitrary: p) auto

lemma follow_path: "path bl p xs \<Longrightarrow> length xs \<le> n \<Longrightarrow> follow_next n bl p = xs"
proof (induction n arbitrary: p xs)
  case (Suc n)
  then show ?case by (cases xs) auto
qed simp

lemma chain_of_path: "path (blocks h) p xs \<Longrightarrow> chain_of h p = xs"
  unfolding chain_of_def by (rule follow_path[OF _ path_length])

lemma chain_ok_of: "chain_ok h p xs \<Longrightarrow> chain_of h p = xs"
  by (rule chain_of_path) (simp add: chain_ok_def)

lemma chain_of_None [simp]: "chain_of h None = []"
  by (rule chain_of_path) simp

lemma chain_ok_simps [simp]:
  "chain_ok h p [] \<longleftrightarrow> p = None"
  "chain_ok h p (x # xs) \<longleftrightarrow> p = Some x \<and> x < length (blocks h) \<and> blk_ok h (blk h x) \<and> chain_ok h (b_next (blk h x)) xs"
  by (auto simp: chain_ok_def)

lemma chain_ok_suffix: "chain_ok h p (us @ x # vs) \<Longrightarrow> chain_ok h (Some x) (x # vs)"
  by (induction us arbitrary: p) auto

section \<open>Bytes\<close>

lemma chain_bytes_simps [simp]:
  "chain_bytes h [] = []" "chain_bytes h (x # xs) = blk_bytes h x @ chain_bytes h xs"
  "chain_bytes h (xs @ ys) = chain_bytes h xs @ chain_bytes h ys"
  by (simp_all add: chain_bytes_def)

lemma length_slice:
  "k < length (datas h) \<Longrightarrow> 0 \<le> s \<Longrightarrow> 0 \<le> n \<Longrightarrow> s + n \<le> int (length (d_bytes (datas h ! k))) \<Longrightarrow>
   int (length (data_slice h (Some k) s n)) = n"
  by (simp add: data_slice_def)

lemma blk_avail: "blk_ok h b \<Longrightarrow> 0 \<le> blk_read_avail b" "blk_ok h b \<Longrightarrow> 0 \<le> blk_write_avail b" "blk_size b = blk_read_avail b"
  by (simp_all add: blk_ok_def blk_read_avail_def blk_write_avail_def blk_size_def)

lemma length_blk_bytes: "blk_ok h (blk h i) \<Longrightarrow> int (length (blk_bytes h i)) = blk_read_avail (blk h i)"
  unfolding blk_bytes_def blk_ok_def blk_read_avail_def
  by (cases "b_data (blk h i)") (auto simp: data_slice_def)

lemma slice_blk_bytes:
  assumes "blk_ok h (blk h i)" "0 \<le> off" "0 \<le> n" "off + n \<le> blk_read_avail (blk h i)"
  shows "data_slice h (b_data (blk h i)) (b_start (blk h i) + off) n = take (nat n) (drop (nat off) (blk_bytes h i))"
proof (cases "b_data (blk h i)")
  case None
  then show ?thesis by (simp add: data_slice_def blk_bytes_def)
next
  case (Some k)
  have "nat (b_start (blk h i) + off) = nat off + nat (b_start (blk h i))"
    using assms by (simp add: blk_ok_def nat_add_distrib)
  moreover have "nat n \<le> nat (blk_read_avail (blk h i)) - nat off" using assms by simp
  ultimately show ?thesis using Some by (simp add: data_slice_def blk_bytes_def drop_take min_def)
qed

lemma chain_bytes_zero: "(\<And>i. i \<in> set xs \<Longrightarrow> blk_ok h (blk h i) \<and> blk_read_avail (blk h i) = 0) \<Longrightarrow> chain_bytes h xs = []"
proof (induction xs)
  case (Cons x xs)
  have "blk_bytes h x = []" using length_blk_bytes[of h x] Cons.prems[of x] by simp
  then show ?case using Cons by simp
qed simp

section \<open>Loops over a chain\<close>

lemma block_walk_path: "path (blocks h) p xs \<Longrightarrow> block_walk f h p acc = Some (fold f (map (blk h) xs) acc)"
  by (induction xs arbitrary: p acc) (subst block_walk.simps, simp)+

lemma fold_read_avail:
  "chain_ok h p xs \<Longrightarrow> fold (\<lambda>b t. t + blk_read_avail b) (map (blk h) xs) n = n + int (length (chain_bytes h xs))"
  by (induction xs arbitrary: p n) (auto simp: length_blk_bytes)

lemma consume_loop_ok:
  assumes "chain_ok h (Some i) (i # xs)" "0 \<le> s"
  shows "\<exists>us i' ys s'. consume_loop h i s = Some (i', s') \<and> i # xs = us @ i' # ys \<and> 0 \<le> s' \<and>
    s = s' + int (length (chain_bytes h us)) \<and> (us = [] \<or> blk_read_avail (blk h i') \<noteq> 0)"
  using assms
proof (induction xs arbitrary: i s)
  case Nil
  then show ?case by (intro exI[of _ "[]"] exI[of _ i] exI[of _ s]) (subst consume_loop.simps, simp)
next
  case (Cons n xs)
  show ?case
  proof (cases "blk_read_avail (blk h i) \<le> s \<and> blk_read_avail (blk h n) \<noteq> 0")
    case True
    have cn: "chain_ok h (Some n) (n # xs)" and sn: "0 \<le> s - blk_read_avail (blk h i)" using Cons.prems True by auto
    obtain us i' ys s' where R: "consume_loop h n (s - blk_read_avail (blk h i)) = Some (i', s')" "n # xs = us @ i' # ys" "0 \<le> s'"
      "s - blk_read_avail (blk h i) = s' + int (length (chain_bytes h us))" "us = [] \<or> blk_read_avail (blk h i') \<noteq> 0"
      using Cons.IH[of n "s - blk_read_avail (blk h i)", OF cn sn] by (elim exE conjE) (rule that)
    have nx: "b_next (blk h i) = Some n" and ok: "blk_ok h (blk h i)" using Cons.prems by auto
    have "consume_loop h i s = Some (i', s')" using True R(1) nx by (subst consume_loop.simps) (simp add: Let_def)
    moreover have "i # n # xs = (i # us) @ i' # ys" using R(2) by simp
    moreover have "s = s' + int (length (chain_bytes h (i # us)))" using R(4) length_blk_bytes[OF ok] by simp
    moreover have "blk_read_avail (blk h i') \<noteq> 0" using R(2,5) True by (cases us) auto
    ultimately show ?thesis using R(3) by blast
  next
    case False
    then show ?thesis using Cons.prems
      by (intro exI[of _ "[]"] exI[of _ i] exI[of _ "n # xs"] exI[of _ s]) (subst consume_loop.simps, auto simp: Let_def)
  qed
qed

lemma at_loop_ok:
  assumes "chain_ok h p xs" "0 \<le> i"
  shows "at_loop h p i = Some (if i < int (length (chain_bytes h xs)) then chain_bytes h xs ! nat i else 0)"
  using assms
proof (induction xs arbitrary: p i)
  case Nil
  then show ?case by (subst at_loop.simps) simp
next
  case (Cons x xs)
  then have ok: "blk_ok h (blk h x)" and p: "p = Some x" and c: "chain_ok h (b_next (blk h x)) xs" by auto
  note L = length_blk_bytes[OF ok]
  show ?case
  proof (cases "blk_read_avail (blk h x) > i")
    case True
    have ln: "nat i < length (blk_bytes h x)" using True L Cons.prems by linarith
    have "data_slice h (b_data (blk h x)) (b_start (blk h x) + i) 1 = take 1 (drop (nat i) (blk_bytes h x))"
      using slice_blk_bytes[OF ok, of i 1] True Cons.prems by simp
    then have "hd (data_slice h (b_data (blk h x)) (b_start (blk h x) + i) 1) = blk_bytes h x ! nat i"
      using ln by (simp add: hd_drop_conv_nth take_Suc)
    then show ?thesis unfolding p using ln True by (subst at_loop.simps) (auto simp: nth_append Let_def)
  next
    case False
    have "nat (blk_read_avail (blk h x)) = length (blk_bytes h x)" using L by linarith
    with False show ?thesis unfolding p using Cons.IH[OF c, of "i - blk_read_avail (blk h x)"] L Cons.prems
      by (subst at_loop.simps) (auto simp: nth_append Let_def nat_diff_distrib)
  qed
qed

lemma window_skip:
  "int (length b) \<le> offset \<Longrightarrow> window len offset (b @ bs) = window len (offset - int (length b)) bs"
  by (simp add: window_def nat_diff_distrib)

lemma window_part:
  assumes "0 \<le> offset" "offset < int (length b)" "len \<noteq> 0"
    "n = (if len < 0 \<or> len \<ge> int (length b) - offset then int (length b) - offset else len)"
  shows "window len offset (b @ bs) = take (nat n) (drop (nat offset) b) @ window (len - n) 0 bs"
proof -
  have n: "n \<le> int (length b) - offset" "0 < n" using assms by auto
  show ?thesis
  proof (cases "len < 0 \<or> len \<ge> int (length b) - offset")
    case True
    then have e: "n = int (length b) - offset" using assms(4) by simp
    then have "nat n = length b - nat offset" using assms by (simp add: nat_diff_distrib)
    then show ?thesis using assms True e by (auto simp: window_def nat_diff_distrib)
  next
    case False
    then have "n = len" using assms(4) by simp
    then show ?thesis using assms False by (auto simp: window_def nat_diff_distrib)
  qed
qed

lemma memcpy_loop_ok:
  assumes "chain_ok h p xs" "0 \<le> offset"
  shows "memcpy_loop h p len offset acc = Some (acc @ window len offset (chain_bytes h xs))"
  using assms
proof (induction xs arbitrary: p len offset acc)
  case Nil
  then show ?case by (subst memcpy_loop.simps) (simp add: window_def)
next
  case (Cons x xs)
  then have ok: "blk_ok h (blk h x)" and p: "p = Some x" and c: "chain_ok h (b_next (blk h x)) xs" by auto
  note L = length_blk_bytes[OF ok]
  let ?n = "if len < 0 \<or> len \<ge> blk_read_avail (blk h x) - offset then blk_read_avail (blk h x) - offset else len"
  consider "len = 0" | "len \<noteq> 0" "blk_read_avail (blk h x) \<le> offset" | "len \<noteq> 0" "offset < blk_read_avail (blk h x)" by linarith
  then show ?case
  proof cases
    case 1
    then show ?thesis unfolding p by (subst memcpy_loop.simps) (simp add: window_def)
  next
    case 2
    then show ?thesis unfolding p using Cons.IH[OF c, of "offset - blk_read_avail (blk h x)"] L
      by (subst memcpy_loop.simps) (simp add: Let_def window_skip)
  next
    case 3
    have "data_slice h (b_data (blk h x)) (b_start (blk h x) + offset) ?n = take (nat ?n) (drop (nat offset) (blk_bytes h x))"
      using 3 Cons.prems by (intro slice_blk_bytes[OF ok]) auto
    then show ?thesis unfolding p using Cons.IH[OF c, of 0] 3 Cons.prems window_part[of offset "blk_bytes h x" len ?n "chain_bytes h xs"] L
      by (subst memcpy_loop.simps) (simp add: Let_def)
  qed
qed

lemma ink_memchr_append:
  "ink_memchr c (as @ bs) = (case ink_memchr c as of Some k \<Rightarrow> Some k | None \<Rightarrow> map_option (\<lambda>k. length as + k) (ink_memchr c bs))"
  by (induction as) (auto simp: ink_memchr_def Let_def split: option.splits if_splits)

lemma memchr_loop_ok:
  assumes "chain_ok h p xs" "0 \<le> offset"
  shows "memchr_loop h c st p len offset pos =
    Some (case ink_memchr c (window len offset (chain_bytes h xs)) of Some k \<Rightarrow> pos - st + int k | None \<Rightarrow> -1)"
  using assms
proof (induction xs arbitrary: p len offset pos)
  case Nil
  then show ?case by (subst memchr_loop.simps) (simp add: window_def ink_memchr_def)
next
  case (Cons x xs)
  then have ok: "blk_ok h (blk h x)" and p: "p = Some x" and c: "chain_ok h (b_next (blk h x)) xs" by auto
  note L = length_blk_bytes[OF ok]
  let ?n = "if len < 0 \<or> len \<ge> blk_read_avail (blk h x) - offset then blk_read_avail (blk h x) - offset else len"
  consider "len = 0" | "len \<noteq> 0" "blk_read_avail (blk h x) \<le> offset" | "len \<noteq> 0" "offset < blk_read_avail (blk h x)" by linarith
  then show ?case
  proof cases
    case 1
    then show ?thesis unfolding p by (subst memchr_loop.simps) (simp add: window_def ink_memchr_def)
  next
    case 2
    then show ?thesis unfolding p using Cons.IH[OF c, of "offset - blk_read_avail (blk h x)"] L
      by (subst memchr_loop.simps) (simp add: Let_def window_skip)
  next
    case 3
    define n where "n = ?n"
    define u where "u = take (nat n) (drop (nat offset) (blk_bytes h x))"
    have n: "0 \<le> n" "offset + n \<le> blk_read_avail (blk h x)" using 3 Cons.prems unfolding n_def by auto
    have s: "data_slice h (b_data (blk h x)) (b_start (blk h x) + offset) n = u"
      unfolding u_def by (rule slice_blk_bytes[OF ok Cons.prems(2) n])
    have l: "int (length u) = n" using n Cons.prems L by (simp add: u_def)
    have W: "window len offset (chain_bytes h (x # xs)) = u @ window (len - n) 0 (chain_bytes h xs)"
      using window_part[of offset "blk_bytes h x" len ?n "chain_bytes h xs", unfolded L, OF Cons.prems(2) 3(2,1) refl]
      unfolding u_def n_def by simp
    have "memchr_loop h c st p len offset pos = (case ink_memchr c u of Some k \<Rightarrow> Some (pos - st + int k)
        | None \<Rightarrow> memchr_loop h c st (b_next (blk h x)) (len - n) 0 (pos + n))"
      unfolding p using 3 s by (subst memchr_loop.simps) (simp add: Let_def n_def[symmetric])
    then show ?thesis unfolding W ink_memchr_append using Cons.IH[OF c, of 0 "len - n" "pos + n"] l
      by (cases "ink_memchr c u"; cases "ink_memchr c (window (len - n) 0 (chain_bytes h xs))") simp_all
  qed
qed

section \<open>Readers\<close>

lemma packed_suffix: "packed h (us @ xs) \<Longrightarrow> packed h xs"
proof -
  assume "packed h (us @ xs)"
  then obtain ps zs where p: "us @ xs = ps @ zs" "\<forall>i\<in>set ps. blk_read_avail (blk h i) > 0" "\<forall>i\<in>set zs. blk_read_avail (blk h i) = 0"
    by (auto simp: packed_def)
  from p(1) obtain ws where "us = ps @ ws \<and> ws @ xs = zs \<or> us @ ws = ps \<and> xs = ws @ zs"
    by (auto simp: append_eq_append_conv2)
  then show "packed h xs"
  proof
    assume "us = ps @ ws \<and> ws @ xs = zs"
    then show ?thesis using p(3) unfolding packed_def by (intro exI[of _ "[]"] exI[of _ xs]) auto
  next
    assume "us @ ws = ps \<and> xs = ws @ zs"
    then show ?thesis using p(2,3) unfolding packed_def by (intro exI[of _ ws] exI[of _ zs]) auto
  qed
qed

lemma packed_zero: "packed h (n # ys) \<Longrightarrow> blk_read_avail (blk h n) = 0 \<Longrightarrow> i \<in> set ys \<Longrightarrow> blk_read_avail (blk h i) = 0"
  by (auto simp: packed_def Cons_eq_append_conv)

lemma moves_trans:
  assumes a: "moves h r r1" and b: "moves h r1 r2"
  shows "moves h r r2"
proof (cases "rd_block r1 = rd_block r \<or> rd_block r2 = rd_block r1")
  case True
  then show ?thesis using a b by (auto simp: moves_def)
next
  case False
  obtain us i ys where A: "chain_of h (rd_block r) = us @ i # ys" "rd_block r1 = Some i" "chain_of h (Some i) = i # ys"
    using a False by (auto simp: moves_def)
  obtain vs j zs where B: "chain_of h (rd_block r1) = vs @ j # zs" "rd_block r2 = Some j" "chain_of h (Some j) = j # zs" "blk_read_avail (blk h j) \<noteq> 0"
    using b False by (auto simp: moves_def)
  have "chain_of h (rd_block r) = (us @ vs) @ j # zs" using A B by simp
  then show ?thesis using B unfolding moves_def by blast
qed

lemma moves_refl [simp]: "moves h r r"
  by (simp add: moves_def)

text \<open>A reader whose block and offset move forward together keeps what is unread.\<close>

lemma moved_ok:
  assumes ok: "reader_ok h r" and xs: "chain_of h (rd_block r) = us @ i # ys"
    and r': "rd_block r' = Some i" "rd_size_limit r' = rd_size_limit r"
    and s: "0 \<le> rd_start_offset r'" "rd_start_offset r = rd_start_offset r' + int (length (chain_bytes h us))"
  shows "reader_ok h r'" "unread h r' = unread h r" "chain_of h (rd_block r') = i # ys"
proof -
  have c: "chain_ok h (Some i) (i # ys)" using ok xs chain_ok_suffix by (metis reader_ok_def)
  show e: "chain_of h (rd_block r') = i # ys" unfolding r' by (rule chain_ok_of[OF c])
  have "packed h ys" using ok xs packed_suffix[of h "tl us @ [i]" ys] packed_suffix[of h "[]"]
    by (cases us) (auto simp: reader_ok_def)
  then show "reader_ok h r'" unfolding reader_ok_def e using ok c s r' xs by (simp add: reader_ok_def)
  have "nat (rd_start_offset r) = length (chain_bytes h us) + nat (rd_start_offset r')" using s by (simp add: nat_add_distrib)
  then show "unread h r' = unread h r" unfolding unread_def e xs by (simp add: drop_append)
qed

lemma reader_read_avail_ok:
  assumes "reader_ok h r"
  shows "reader_read_avail h r = Some (int (length (readable h r)))"
proof -
  let ?xs = "chain_of h (rd_block r)"
  have c: "chain_ok h (rd_block r) ?xs" using assms by (simp add: reader_ok_def)
  then have p: "path (blocks h) (rd_block r) ?xs" by (simp add: chain_ok_def)
  have "block_walk (\<lambda>b t. t + blk_read_avail b) h (rd_block r) 0 = Some (int (length (chain_bytes h ?xs)))"
    unfolding block_walk_path[OF p] fold_read_avail[OF c] by simp
  then show ?thesis using assms by (auto simp: reader_read_avail_def readable_def unread_def reader_ok_def Let_def)
qed

lemma reader_consume_ok:
  assumes ok: "reader_ok h r" and n: "0 \<le> n" "n \<le> int (length (readable h r))"
  shows "\<exists>r'. reader_consume h r n = Some r' \<and> reader_ok h r' \<and> readable h r' = drop (nat n) (readable h r) \<and>
    unread h r' = drop (nat n) (unread h r) \<and> rd_mbuf r' = rd_mbuf r \<and> rd_accessor r' = rd_accessor r \<and>
    (rd_size_limit r = INK64_MAX \<longrightarrow> rd_size_limit r' = INK64_MAX) \<and> moves h r r'"
proof -
  let ?lim = "if rd_size_limit r \<noteq> INK64_MAX then rd_size_limit r - n else rd_size_limit r"
  define r1 where "r1 = r\<lparr>rd_start_offset := rd_start_offset r + n, rd_size_limit := ?lim\<rparr>"
  have lr: "length (readable h r) \<le> length (unread h r)" by (simp add: readable_def)
  have lu: "int (length (unread h r)) = int (length (chain_bytes h (chain_of h (rd_block r)))) - rd_start_offset r"
    using ok by (auto simp: unread_def reader_ok_def of_nat_diff nat_le_iff)
  have lim: "rd_size_limit r \<noteq> INK64_MAX \<Longrightarrow> n \<le> rd_size_limit r" using ok n by (auto simp: readable_def reader_ok_def)
  have ok1: "reader_ok h r1" using ok n lr lu lim by (auto simp: reader_ok_def r1_def)
  have u1: "unread h r1 = drop (nat n) (unread h r)" using ok n by (simp add: unread_def r1_def reader_ok_def nat_add_distrib add.commute)
  have R1: "readable h r1 = drop (nat n) (readable h r)"
    using ok n lim unfolding readable_def u1 by (auto simp: r1_def drop_take nat_diff_distrib reader_ok_def)
  have E: "reader_consume h r n = (case rd_block r1 of None \<Rightarrow> Some r1 | Some i \<Rightarrow> do {
             (i', s) \<leftarrow> consume_loop h i (rd_start_offset r1); Some (r1\<lparr>rd_block := Some i', rd_start_offset := s\<rparr>) })"
    unfolding reader_consume_def Let_def r1_def by (rule refl)
  have F: "rd_mbuf r1 = rd_mbuf r" "rd_accessor r1 = rd_accessor r" "rd_size_limit r = INK64_MAX \<longrightarrow> rd_size_limit r1 = INK64_MAX"
    and b1: "rd_block r1 = rd_block r" by (simp_all add: r1_def)
  show ?thesis
  proof (cases "rd_block r1")
    case None
    then show ?thesis unfolding E using ok1 R1 u1 F b1 by (simp add: moves_def)
  next
    case (Some i)
    obtain xs where xs: "chain_of h (rd_block r1) = i # xs" using ok1 Some by (cases "chain_of h (rd_block r1)") (auto simp: reader_ok_def)
    have ci: "chain_ok h (Some i) (i # xs)" and si: "0 \<le> rd_start_offset r1" using ok1 xs Some by (auto simp: reader_ok_def)
    obtain us i' ys s' where L: "consume_loop h i (rd_start_offset r1) = Some (i', s')" "i # xs = us @ i' # ys" "0 \<le> s'"
      "rd_start_offset r1 = s' + int (length (chain_bytes h us))" "us = [] \<or> blk_read_avail (blk h i') \<noteq> 0"
      using consume_loop_ok[of h i xs "rd_start_offset r1", OF ci si] by (elim exE conjE) (rule that)
    note M = moved_ok[OF ok1 xs[unfolded L(2)], of "r1\<lparr>rd_block := Some i', rd_start_offset := s'\<rparr>"]
    have "reader_consume h r n = Some (r1\<lparr>rd_block := Some i', rd_start_offset := s'\<rparr>)" using E Some L(1) by simp
    moreover have "readable h (r1\<lparr>rd_block := Some i', rd_start_offset := s'\<rparr>) = readable h r1"
      using M(2) L(3,4) by (simp add: readable_def)
    moreover have "moves h r (r1\<lparr>rd_block := Some i', rd_start_offset := s'\<rparr>)"
      using L(2,5) M(3) L(3,4) xs b1 Some unfolding moves_def by (cases us) auto
    ultimately show ?thesis using M(1,2) L(3,4) R1 u1 F by simp
  qed
qed

lemma skip_empty_ok:
  assumes "reader_ok h r" "rd_block r \<noteq> None"
  shows "\<exists>r' i ys. skip_empty_blocks h r = Some r' \<and> reader_ok h r' \<and> unread h r' = unread h r \<and> rd_block r' = Some i \<and>
    chain_of h (Some i) = i # ys \<and> r' = r\<lparr>rd_block := Some i, rd_start_offset := rd_start_offset r'\<rparr> \<and>
    (ys = [] \<or> blk_read_avail (blk h (hd ys)) = 0 \<or> rd_start_offset r' < blk_size (blk h i)) \<and> skip_empty_blocks h r' = Some r' \<and> moves h r r'"
  using assms
proof (induction "length (chain_of h (rd_block r))" arbitrary: r rule: less_induct)
  case less
  then obtain i where i: "rd_block r = Some i" by auto
  obtain xs where xs: "chain_of h (Some i) = i # xs" using less.prems i by (cases "chain_of h (Some i)") (auto simp: reader_ok_def)
  have c: "chain_ok h (Some i) (i # xs)" using less.prems i xs by (simp add: reader_ok_def)
  show ?case
  proof (cases "xs \<noteq> [] \<and> blk_read_avail (blk h (hd xs)) \<noteq> 0 \<and> rd_start_offset r \<ge> blk_size (blk h i)")
    case True
    then obtain n zs where n: "xs = n # zs" by (cases xs) auto
    then have nx: "b_next (blk h i) = Some n" and ok: "blk_ok h (blk h i)" using c by auto
    define r1 where "r1 = r\<lparr>rd_start_offset := rd_start_offset r - blk_size (blk h i), rd_block := Some n\<rparr>"
    have E: "skip_empty_blocks h r = skip_empty_blocks h r1" using i nx True n by (subst skip_empty_blocks.simps) (simp add: r1_def)
    have "chain_of h (rd_block r) = [i] @ n # zs" using i xs n by simp
    moreover have "rd_block r1 = Some n" "rd_size_limit r1 = rd_size_limit r" by (simp_all add: r1_def)
    moreover have "0 \<le> rd_start_offset r1" "rd_start_offset r = rd_start_offset r1 + int (length (chain_bytes h [i]))"
      using True length_blk_bytes[OF ok] by (simp_all add: r1_def blk_avail(3))
    ultimately have M': "reader_ok h r1" "unread h r1 = unread h r" "chain_of h (rd_block r1) = n # zs"
      by (blast intro: moved_ok[OF less.prems(1)])+
    obtain r' j ys where S: "skip_empty_blocks h r1 = Some r'" "reader_ok h r'" "unread h r' = unread h r1" "rd_block r' = Some j"
      "chain_of h (Some j) = j # ys" "r' = r1\<lparr>rd_block := Some j, rd_start_offset := rd_start_offset r'\<rparr>"
      "ys = [] \<or> blk_read_avail (blk h (hd ys)) = 0 \<or> rd_start_offset r' < blk_size (blk h j)" "skip_empty_blocks h r' = Some r'" "moves h r1 r'"
      using less.hyps[of r1] M' i xs n by (auto simp: r1_def)
    have "moves h r r1" using i xs n M'(3) True by (auto simp: moves_def r1_def intro!: exI[of _ "[i]"])
    then have "moves h r r'" using S(9) by (rule moves_trans)
    moreover have "r' = r\<lparr>rd_block := Some j, rd_start_offset := rd_start_offset r'\<rparr>"
      by (subst S(6)) (simp add: r1_def)
    ultimately show ?thesis unfolding E
      by (intro exI[of _ r'] exI[of _ j] exI[of _ ys]) (use S M'(2) in simp)
  next
    case False
    have "skip_empty_blocks h r = Some r"
    proof (cases xs)
      case Nil
      then show ?thesis using i c by (subst skip_empty_blocks.simps) simp
    next
      case (Cons n zs)
      then show ?thesis using i c False by (subst skip_empty_blocks.simps) auto
    qed
    moreover have "r = r\<lparr>rd_block := Some i, rd_start_offset := rd_start_offset r\<rparr>" using i by simp
    ultimately show ?thesis using less.prems i xs False by (intro exI[of _ r] exI[of _ i] exI[of _ xs]) auto
  qed
qed

text \<open>The first run of bytes: \<^verbatim>\<open>block_read_avail\<close> and \<^verbatim>\<open>start\<close> give a prefix of what is unread, which is
  empty only when nothing is unread.\<close>

lemma reader_run_ok:
  assumes ok: "reader_ok h r" and ne: "rd_block r \<noteq> None"
  shows "\<exists>r' d st l. reader_block_read_avail h r = Some (l, r') \<and> reader_start h r' = Some (Some (d, st), r') \<and>
    reader_ok h r' \<and> unread h r' = unread h r \<and> readable h r' = readable h r \<and> l \<le> int (length (unread h r)) \<and>
    (unread h r \<noteq> [] \<longrightarrow> 0 < l) \<and> (\<forall>n. 0 \<le> n \<longrightarrow> n \<le> l \<longrightarrow> data_slice h d st n = take (nat n) (unread h r)) \<and>
    rd_mbuf r' = rd_mbuf r \<and> rd_accessor r' = rd_accessor r \<and> rd_size_limit r' = rd_size_limit r \<and> rd_block r' \<noteq> None \<and> moves h r r' \<and>
    0 \<le> l \<and> reader_start h r = Some (Some (d, st), r') \<and> reader_block_read_avail h r' = Some (l, r')"
proof -
  obtain r' i ys where S: "skip_empty_blocks h r = Some r'" and ok': "reader_ok h r'" and u: "unread h r' = unread h r"
    and b: "rd_block r' = Some i" and ch: "chain_of h (Some i) = i # ys"
    and r': "r' = r\<lparr>rd_block := Some i, rd_start_offset := rd_start_offset r'\<rparr>"
    and fin: "ys = [] \<or> blk_read_avail (blk h (hd ys)) = 0 \<or> rd_start_offset r' < blk_size (blk h i)" and S': "skip_empty_blocks h r' = Some r'" and mv: "moves h r r'"
    using skip_empty_ok[OF assms] by (elim exE conjE) (rule that)
  let ?b = "blk h i" and ?s = "rd_start_offset r'"
  have c: "chain_ok h (Some i) (i # ys)" and s0: "0 \<le> ?s" and pk: "packed h ys" using ok' b ch by (simp_all add: reader_ok_def)
  then have bok: "blk_ok h ?b" by simp
  note L = length_blk_bytes[OF bok]
  define l where "l = b_end ?b - (b_start ?b + ?s)"
  have l: "l = blk_read_avail ?b - ?s" by (simp add: l_def blk_read_avail_def)
  have un: "unread h r = drop (nat ?s) (blk_bytes h i @ chain_bytes h ys)" using u by (simp add: unread_def b ch)
  have len: "int (length (unread h r)) = blk_read_avail ?b + int (length (chain_bytes h ys)) - ?s"
    using ok' L unfolding un by (auto simp: reader_ok_def b ch of_nat_diff nat_le_iff)
  have pos: "0 \<le> l \<and> (unread h r \<noteq> [] \<longrightarrow> 0 < l)"
  proof (cases "?s < blk_size ?b")
    case False
    then have z: "ys = [] \<or> blk_read_avail (blk h (hd ys)) = 0" using fin by auto
    have "chain_bytes h ys = []"
    proof (rule chain_bytes_zero)
      fix j assume j: "j \<in> set ys"
      then have "blk_read_avail (blk h j) = 0" using z pk packed_zero[of h "hd ys" "tl ys" j] by (cases ys) auto
      then show "blk_ok h (blk h j) \<and> blk_read_avail (blk h j) = 0" using c j by (auto simp: chain_ok_def)
    qed
    then have "int (length (unread h r)) = l" using len l by simp
    then show ?thesis by (metis length_greater_0_conv of_nat_0_le_iff of_nat_0_less_iff)
  qed (use l in \<open>simp add: blk_avail(3)\<close>)
  have sl: "data_slice h (b_data ?b) (b_start ?b + ?s) n = take (nat n) (unread h r)" if "0 \<le> n" "n \<le> l" for n
  proof -
    have "nat n \<le> length (blk_bytes h i) - nat ?s" using that l L s0 by linarith
    then show ?thesis using slice_blk_bytes[OF bok s0 that(1)] that(2) l unfolding un by simp
  qed
  have "reader_block_read_avail h r = Some (l, r')" "reader_start h r' = Some (Some (b_data ?b, b_start ?b + ?s), r')"
    "reader_start h r = Some (Some (b_data ?b, b_start ?b + ?s), r')" "reader_block_read_avail h r' = Some (l, r')"
    using ne S S' b by (auto simp: reader_block_read_avail_def reader_start_def l_def Let_def)
  moreover have "l \<le> int (length (unread h r))" using len l by simp
  moreover have k: "rd_mbuf r' = rd_mbuf r" "rd_accessor r' = rd_accessor r" "rd_size_limit r' = rd_size_limit r"
    by (subst r', simp)+
  moreover have "readable h r' = readable h r" using u k by (simp add: readable_def)
  ultimately show ?thesis using ok' u pos sl b mv by blast
qed

lemma read_loop_ok:
  assumes "reader_ok h r" "0 \<le> n" "n \<le> int (length (readable h r))"
  shows "\<exists>r'. read_loop h r n acc = Some (acc @ take (nat n) (readable h r), r') \<and> reader_ok h r' \<and>
    readable h r' = drop (nat n) (readable h r) \<and> moves h r r' \<and> rd_mbuf r' = rd_mbuf r \<and> rd_accessor r' = rd_accessor r \<and>
    (rd_size_limit r = INK64_MAX \<longrightarrow> rd_size_limit r' = INK64_MAX)"
  using assms
proof (induction "nat n" arbitrary: n r acc rule: less_induct)
  case less
  show ?case
  proof (cases "n = 0")
    case True
    then show ?thesis using less.prems by (subst read_loop.simps) simp
  next
    case False
    then have n: "0 < n" using less.prems by simp
    have pre: "\<exists>zs. unread h r = readable h r @ zs" unfolding readable_def by (cases "rd_size_limit r = INK64_MAX") (auto intro: append_take_drop_id[symmetric])
    then have un: "unread h r \<noteq> []" using n less.prems by auto
    then have ne: "rd_block r \<noteq> None" by (rule contrapos_nn) (simp add: unread_def)
    obtain r' d st l where R: "reader_block_read_avail h r = Some (l, r')" "reader_start h r' = Some (Some (d, st), r')"
      "reader_ok h r'" "readable h r' = readable h r" "0 < l" "\<And>k. 0 \<le> k \<Longrightarrow> k \<le> l \<Longrightarrow> data_slice h d st k = take (nat k) (unread h r)"
      and K: "rd_mbuf r' = rd_mbuf r" "rd_accessor r' = rd_accessor r" "rd_size_limit r' = rd_size_limit r" "moves h r r'"
      using reader_run_ok[OF less.prems(1) ne] un by blast
    define k where "k = (if n < l then n else l)"
    have k: "0 < k" "k \<le> n" "k \<le> l" "k \<le> int (length (readable h r'))" using n R less.prems by (auto simp: k_def)
    obtain r3 where C: "reader_consume h r' k = Some r3" "reader_ok h r3" "readable h r3 = drop (nat k) (readable h r)"
      and K3: "rd_mbuf r3 = rd_mbuf r" "rd_accessor r3 = rd_accessor r" "rd_size_limit r = INK64_MAX \<longrightarrow> rd_size_limit r3 = INK64_MAX" "moves h r r3"
      using reader_consume_ok[OF R(3), of k] k R(4) K moves_trans[of h r r'] by auto
    have take: "take (nat k) (unread h r) = take (nat k) (readable h r)" using pre k less.prems by auto
    have step: "read_loop h r n acc = read_loop h r3 (n - k) (acc @ take (nat k) (readable h r))"
      using False R(1,2) C(1) R(6)[of k] k take by (subst read_loop.simps) (simp add: k_def[symmetric] Let_def)
    have "n - k \<le> int (length (readable h r3))" using less.prems C(3) k by simp
    then obtain r4 where E: "read_loop h r3 (n - k) (acc @ take (nat k) (readable h r)) =
        Some ((acc @ take (nat k) (readable h r)) @ take (nat (n - k)) (readable h r3), r4)"
      "reader_ok h r4" "readable h r4 = drop (nat (n - k)) (readable h r3)"
      and K4: "moves h r3 r4" "rd_mbuf r4 = rd_mbuf r3" "rd_accessor r4 = rd_accessor r3" "rd_size_limit r3 = INK64_MAX \<longrightarrow> rd_size_limit r4 = INK64_MAX"
      using less.hyps[of "n - k" r3 "acc @ take (nat k) (readable h r)"] C(2) k by auto
    have sum: "nat n = nat k + nat (n - k)" using k by linarith
    have "take (nat k) (readable h r) @ take (nat (n - k)) (readable h r3) = take (nat n) (readable h r)"
      unfolding C(3) sum by (simp add: take_add)
    moreover have "readable h r4 = drop (nat n) (readable h r)" unfolding E(3) C(3) sum by (simp add: add.commute)
    ultimately show ?thesis unfolding step E(1) using E(2) K3 K4 moves_trans[OF K3(4) K4(1)] by simp
  qed
qed

lemma reader_read_ok:
  assumes "reader_ok h r" "0 \<le> len"
  shows "\<exists>r'. reader_read h r len = Some (take (nat len) (readable h r), r', min len (int (length (readable h r)))) \<and>
    reader_ok h r' \<and> readable h r' = drop (nat len) (readable h r) \<and> moves h r r' \<and> rd_mbuf r' = rd_mbuf r \<and>
    rd_accessor r' = rd_accessor r \<and> (rd_size_limit r = INK64_MAX \<longrightarrow> rd_size_limit r' = INK64_MAX)"
proof -
  let ?n = "if len \<le> int (length (readable h r)) then len else int (length (readable h r))"
  have n: "0 \<le> ?n" "?n \<le> int (length (readable h r))" using assms by auto
  obtain r' where R: "read_loop h r ?n [] = Some (take (nat ?n) (readable h r), r')" "reader_ok h r'"
    "readable h r' = drop (nat ?n) (readable h r)" "moves h r r'" "rd_mbuf r' = rd_mbuf r" "rd_accessor r' = rd_accessor r"
    "rd_size_limit r = INK64_MAX \<longrightarrow> rd_size_limit r' = INK64_MAX" using read_loop_ok[OF assms(1) n, of "[]"] by auto
  have t: "take (nat ?n) (readable h r) = take (nat len) (readable h r)" "drop (nat ?n) (readable h r) = drop (nat len) (readable h r)"
    "?n = min len (int (length (readable h r)))" by auto
  show ?thesis using R reader_read_avail_ok[OF assms(1)] unfolding t by (simp add: reader_read_def Let_def min_def)
qed

lemma reader_memchr_ok:
  assumes "reader_ok h r" "0 \<le> offset"
  shows "reader_memchr h r c len offset =
    Some (case ink_memchr c (window len offset (unread h r)) of Some k \<Rightarrow> offset + int k | None \<Rightarrow> -1)"
proof -
  have s: "0 \<le> rd_start_offset r" using assms by (simp add: reader_ok_def)
  have "window len (offset + rd_start_offset r) bs = window len offset (drop (nat (rd_start_offset r)) bs)" for bs
    using assms s by (simp add: window_def nat_add_distrib)
  then show ?thesis using memchr_loop_ok[of h "rd_block r" "chain_of h (rd_block r)" "offset + rd_start_offset r" c "rd_start_offset r" len] assms s
    unfolding reader_memchr_def Let_def unread_def by (simp add: reader_ok_def split: option.split)
qed

lemma reader_memcpy_ok:
  assumes "reader_ok h r" "0 \<le> offset"
  shows "reader_memcpy h r len offset = Some (window len offset (unread h r))"
proof -
  have s: "0 \<le> rd_start_offset r" using assms by (simp add: reader_ok_def)
  have "window len (offset + rd_start_offset r) bs = window len offset (drop (nat (rd_start_offset r)) bs)" for bs
    using assms s by (simp add: window_def nat_add_distrib)
  then show ?thesis using memcpy_loop_ok[of h "rd_block r" "chain_of h (rd_block r)" "offset + rd_start_offset r" len "[]"] assms s
    unfolding reader_memcpy_def unread_def by (simp add: reader_ok_def)
qed

lemma reader_at_ok:
  assumes "reader_ok h r" "0 \<le> i" "i < int (length (unread h r))"
  shows "reader_at h r i = Some (unread h r ! nat i)"
proof -
  have s: "0 \<le> rd_start_offset r" "chain_ok h (rd_block r) (chain_of h (rd_block r))" using assms by (simp_all add: reader_ok_def)
  have "i + rd_start_offset r < int (length (chain_bytes h (chain_of h (rd_block r))))" using assms s by (auto simp: unread_def of_nat_diff)
  then show ?thesis using at_loop_ok[OF s(2), of "i + rd_start_offset r"] assms s
    unfolding reader_at_def unread_def by (simp add: nat_add_distrib add.commute)
qed

end
