(* ===== verification/Io_Buffer_Writer.thy ===== *)
theory Io_Buffer_Writer
  imports Io_Buffer_Reader
begin

text \<open>
  Writing into a buffer. The heap invariant says that at most one block may write to a piece of
  data, behind everything any other block reads of it; the buffer invariant that the writing
  position lies on the chain of every reader and that only empty blocks follow it. Under these,
  \<^verbatim>\<open>write\<close> returns and appends its bytes to what every reader of the buffer still has to read,
  and changes no block outside the buffer.
\<close>

section \<open>Invariants\<close>

definition heap_ok :: "ioheap \<Rightarrow> bool" where
  "heap_ok h \<longleftrightarrow> (\<forall>i<length (blocks h). blk_ok h (blk h i)) \<and>
     (\<forall>i<length (blocks h). \<forall>j<length (blocks h). i \<noteq> j \<longrightarrow> b_data (blk h i) = b_data (blk h j) \<longrightarrow>
        b_end (blk h i) < b_buf_end (blk h i) \<longrightarrow> b_end (blk h j) \<le> b_end (blk h i) \<and> b_buf_end (blk h j) = b_end (blk h j))"

definition mio_ok :: "ioheap \<Rightarrow> mio \<Rightarrow> bool" where
  "mio_ok h m \<longleftrightarrow> BUFFER_SIZE_ALLOCATED (m_size_index m) \<and>
     (case m_writer m of None \<Rightarrow> True
      | Some w \<Rightarrow> \<exists>vs. path (blocks h) (Some w) (w # vs) \<and> b_start (blk h w) < b_buf_end (blk h w) \<and>
          (\<forall>v\<in>set vs. blk_read_avail (blk h v) = 0 \<and> 0 < blk_write_avail (blk h v)))"

definition attached :: "ioheap \<Rightarrow> mio \<Rightarrow> reader \<Rightarrow> bool" where
  "attached h m r \<longleftrightarrow> 0 \<le> rd_start_offset r \<and> 0 \<le> rd_size_limit r \<and> rd_size_limit r \<le> INK64_MAX \<and>
     (case m_writer m of None \<Rightarrow> rd_block r = None \<and> rd_start_offset r = 0
      | Some w \<Rightarrow> \<exists>us vs. path (blocks h) (rd_block r) (us @ w # vs) \<and> (\<forall>i\<in>set (tl us). 0 < blk_read_avail (blk h i)) \<and>
          rd_start_offset r \<le> int (length (chain_bytes h (us @ w # vs))))"

definition mio_inv :: "ioheap \<times> mio \<Rightarrow> bool" where
  "mio_inv s \<longleftrightarrow> heap_ok (fst s) \<and> mio_ok (fst s) (snd s) \<and> length (m_readers (snd s)) = MAX_MIOBUFFER_READERS \<and>
     (\<forall>r\<in>set (m_readers (snd s)). rd_mbuf r \<noteq> None \<longrightarrow> attached (fst s) (snd s) r)"

text \<open>No block outside \<open>S\<close> changes.\<close>

definition same_blocks :: "nat set \<Rightarrow> ioheap \<Rightarrow> ioheap \<Rightarrow> bool" where
  "same_blocks S h h' \<longleftrightarrow> length (blocks h) \<le> length (blocks h') \<and>
     (\<forall>i<length (blocks h). i \<notin> S \<longrightarrow> blk h' i = blk h i \<and> blk_bytes h' i = blk_bytes h i)"

text \<open>From \<open>s\<close> to \<open>s'\<close> every reader of the buffer gains exactly the bytes \<open>bs\<close>.\<close>

definition grows :: "u8 list \<Rightarrow> ioheap \<times> mio \<Rightarrow> ioheap \<times> mio \<Rightarrow> bool" where
  "grows bs s s' \<longleftrightarrow> mio_inv s' \<and>
     same_blocks (set (chain_of (fst s) (m_writer (snd s)))) (fst s) (fst s') \<and>
     set (chain_of (fst s') (m_writer (snd s'))) \<subseteq> set (chain_of (fst s) (m_writer (snd s))) \<union> {length (blocks (fst s))..} \<and>
     m_id (snd s') = m_id (snd s) \<and> m_size_index (snd s') = m_size_index (snd s) \<and> m_water_mark (snd s') = m_water_mark (snd s) \<and>
     (\<forall>i<MAX_MIOBUFFER_READERS. rd_mbuf (m_readers (snd s') ! i) = rd_mbuf (m_readers (snd s) ! i) \<and>
        rd_accessor (m_readers (snd s') ! i) = rd_accessor (m_readers (snd s) ! i) \<and>
        rd_size_limit (m_readers (snd s') ! i) = rd_size_limit (m_readers (snd s) ! i) \<and>
        (rd_mbuf (m_readers (snd s) ! i) \<noteq> None \<longrightarrow>
           unread (fst s') (m_readers (snd s') ! i) = unread (fst s) (m_readers (snd s) ! i) @ bs))"

section \<open>Consequences\<close>

lemma drop_within: "n \<le> length xs \<Longrightarrow> drop n (xs @ ys) = drop n xs @ ys"
  by simp

lemma heap_okD: "heap_ok h \<Longrightarrow> i < length (blocks h) \<Longrightarrow> blk_ok h (blk h i)"
  by (simp add: heap_ok_def)

lemma heap_ok_alone:
  "heap_ok h \<Longrightarrow> i < length (blocks h) \<Longrightarrow> j < length (blocks h) \<Longrightarrow> i \<noteq> j \<Longrightarrow> b_data (blk h i) = b_data (blk h j) \<Longrightarrow>
   b_end (blk h i) < b_buf_end (blk h i) \<Longrightarrow> b_end (blk h j) \<le> b_end (blk h i) \<and> b_buf_end (blk h j) = b_end (blk h j)"
  by (simp add: heap_ok_def)

lemma heap_ok_chain: "heap_ok h \<Longrightarrow> path (blocks h) p xs \<Longrightarrow> chain_ok h p xs"
  using path_bound[of "blocks h" p xs] by (auto simp: chain_ok_def heap_ok_def)

lemma same_blocks_path:
  assumes "same_blocks S h h'" "path (blocks h) p xs" "set xs \<inter> S = {}"
  shows "path (blocks h') p xs" "chain_bytes h' xs = chain_bytes h xs"
proof -
  have e: "blk h' i = blk h i \<and> blk_bytes h' i = blk_bytes h i" if "i \<in> set xs" for i
    using assms that path_bound[OF assms(2)] by (auto simp: same_blocks_def)
  show "path (blocks h') p xs" by (rule path_cong[OF assms(2)]) (use assms e in \<open>auto simp: same_blocks_def\<close>)
  show "chain_bytes h' xs = chain_bytes h xs" unfolding chain_bytes_def using e by (intro arg_cong[where f = concat] map_cong) auto
qed

lemma same_blocks_trans:
  assumes "same_blocks S h h1" "same_blocks T h1 h2" "T \<subseteq> S \<union> {length (blocks h)..}"
  shows "same_blocks S h h2"
  unfolding same_blocks_def
proof (intro conjI allI impI)
  show "length (blocks h) \<le> length (blocks h2)" using assms by (simp add: same_blocks_def)
  fix i assume i: "i < length (blocks h)" "i \<notin> S"
  then have "i \<notin> T" "i < length (blocks h1)" using assms by (auto simp: same_blocks_def)
  then show "blk h2 i = blk h i" "blk_bytes h2 i = blk_bytes h i" using assms i by (simp_all add: same_blocks_def)
qed

lemma growsD:
  assumes "grows bs s s'"
  shows "mio_inv s'" "same_blocks (set (chain_of (fst s) (m_writer (snd s)))) (fst s) (fst s')"
    "set (chain_of (fst s') (m_writer (snd s'))) \<subseteq> set (chain_of (fst s) (m_writer (snd s))) \<union> {length (blocks (fst s))..}"
    "m_id (snd s') = m_id (snd s)" "m_size_index (snd s') = m_size_index (snd s)" "m_water_mark (snd s') = m_water_mark (snd s)"
    "\<forall>i<MAX_MIOBUFFER_READERS. rd_mbuf (m_readers (snd s') ! i) = rd_mbuf (m_readers (snd s) ! i) \<and>
        rd_accessor (m_readers (snd s') ! i) = rd_accessor (m_readers (snd s) ! i) \<and>
        rd_size_limit (m_readers (snd s') ! i) = rd_size_limit (m_readers (snd s) ! i) \<and>
        (rd_mbuf (m_readers (snd s) ! i) \<noteq> None \<longrightarrow>
           unread (fst s') (m_readers (snd s') ! i) = unread (fst s) (m_readers (snd s) ! i) @ bs)"
  using assms unfolding grows_def by blast+

lemma grows_trans:
  assumes a: "grows as s s1" and b: "grows bs s1 s2"
  shows "grows (as @ bs) s s2"
  unfolding grows_def
proof (intro conjI allI impI)
  note A = growsD[OF a] and B = growsD[OF b]
  show "mio_inv s2" by (rule B(1))
  show "same_blocks (set (chain_of (fst s) (m_writer (snd s)))) (fst s) (fst s2)" by (rule same_blocks_trans[OF A(2) B(2) A(3)])
  have "length (blocks (fst s)) \<le> length (blocks (fst s1))" using A(2) by (simp add: same_blocks_def)
  then show "set (chain_of (fst s2) (m_writer (snd s2))) \<subseteq> set (chain_of (fst s) (m_writer (snd s))) \<union> {length (blocks (fst s))..}"
    using A(3) B(3) by fastforce
  show "m_id (snd s2) = m_id (snd s)" "m_size_index (snd s2) = m_size_index (snd s)" "m_water_mark (snd s2) = m_water_mark (snd s)"
    using A(4-6) B(4-6) by simp_all
  fix i assume i: "i < MAX_MIOBUFFER_READERS"
  note A7 = A(7)[rule_format, OF i] and B7 = B(7)[rule_format, OF i]
  show "rd_mbuf (m_readers (snd s2) ! i) = rd_mbuf (m_readers (snd s) ! i)" "rd_accessor (m_readers (snd s2) ! i) = rd_accessor (m_readers (snd s) ! i)"
    "rd_size_limit (m_readers (snd s2) ! i) = rd_size_limit (m_readers (snd s) ! i)" using A7 B7 by simp_all
  show "rd_mbuf (m_readers (snd s) ! i) \<noteq> None \<Longrightarrow> unread (fst s2) (m_readers (snd s2) ! i) = unread (fst s) (m_readers (snd s) ! i) @ as @ bs"
    using A7 B7 by simp
qed

lemma grows_refl: "mio_inv s \<Longrightarrow> grows [] s s"
  by (auto simp: grows_def same_blocks_def)

text \<open>How a step that keeps the writer's chain except for its bytes acts on the readers.\<close>

lemma attached_reader_ok:
  assumes "mio_inv (h, m)" "attached h m r"
  shows "reader_ok h r"
proof (cases "m_writer m")
  case None
  then show ?thesis using assms by (auto simp: reader_ok_def attached_def packed_def)
next
  case (Some w)
  obtain us vs where p: "path (blocks h) (rd_block r) (us @ w # vs)" and u: "\<forall>i\<in>set (tl us). 0 < blk_read_avail (blk h i)"
    and o: "rd_start_offset r \<le> int (length (chain_bytes h (us @ w # vs)))" using assms(2) Some by (auto simp: attached_def)
  obtain vs' where v: "path (blocks h) (Some w) (w # vs')" "\<forall>v\<in>set vs'. blk_read_avail (blk h v) = 0"
    using assms(1) Some by (auto simp: mio_inv_def mio_ok_def)
  have "vs = vs'" using path_unique[OF path_tail[OF p] v(1)] by simp
  then have "packed h (tl (us @ w # vs))"
  proof (cases "us = [] \<or> blk_read_avail (blk h w) = 0")
    case True
    then show ?thesis using u v(2) \<open>vs = vs'\<close> unfolding packed_def
      by (intro exI[of _ "tl us"] exI[of _ "if us = [] then vs else w # vs"]) (cases us; auto)
  next
    case False
    moreover have "0 \<le> blk_read_avail (blk h w)" using assms(1) path_suffix[OF p] blk_avail(1) heap_okD by (auto simp: mio_inv_def)
    ultimately show ?thesis using u v(2) \<open>vs = vs'\<close> unfolding packed_def
      by (intro exI[of _ "tl us @ [w]"] exI[of _ vs]) (cases us; auto)
  qed
  moreover have "chain_ok h (rd_block r) (us @ w # vs)" using heap_ok_chain[OF _ p] assms(1) by (simp add: mio_inv_def)
  ultimately show ?thesis using assms(2) o chain_ok_of[of h "rd_block r" "us @ w # vs"] by (simp add: reader_ok_def attached_def)
qed

section \<open>Storing bytes in the writer's block\<close>

lemma data_store_sel [simp]:
  "blocks (data_store d s bs h) = blocks h" "length (datas (data_store d s bs h)) = length (datas h)"
  "accessors (data_store d s bs h) = accessors h" "junk (data_store d s bs h) = junk h"
  by (simp_all add: data_store_def Let_def split: option.split)

lemma put_blk_sel [simp]:
  "datas (put_blk i b h) = datas h" "blocks (put_blk i b h) = (blocks h)[i := b]" "data_slice (put_blk i b h) = data_slice h"
  "accessors (put_blk i b h) = accessors h" "junk (put_blk i b h) = junk h"
  by (simp_all add: put_blk_def fun_eq_iff data_slice_def split: option.split)

lemma store_bytes:
  assumes "0 \<le> s" "s + int (length bs) \<le> int (length (d_bytes (datas h ! k)))" "k < length (datas h)"
  shows "length (d_bytes (datas (data_store (Some k) s bs h) ! j)) = length (d_bytes (datas h ! j))"
    "0 \<le> a \<Longrightarrow> 0 \<le> n \<Longrightarrow> a + n \<le> s \<Longrightarrow> data_slice (data_store (Some k) s bs h) d a n = data_slice h d a n"
    "d \<noteq> Some k \<Longrightarrow> data_slice (data_store (Some k) s bs h) d a n = data_slice h d a n"
    "0 \<le> a \<Longrightarrow> a \<le> s \<Longrightarrow> data_slice (data_store (Some k) s bs h) (Some k) a (s - a + int (length bs)) = data_slice h (Some k) a (s - a) @ bs"
proof -
  let ?o = "d_bytes (datas h ! k)"
  have l: "nat s + length bs \<le> length ?o" using assms by linarith
  show "length (d_bytes (datas (data_store (Some k) s bs h) ! j)) = length (d_bytes (datas h ! j))"
    using l assms by (cases "j = k") (auto simp: data_store_def Let_def)
  show ne: "data_slice (data_store (Some k) s bs h) d a n = data_slice h d a n" if "d \<noteq> Some k" for d
    using that by (cases d) (simp_all add: data_store_def data_slice_def Let_def)
  show "data_slice (data_store (Some k) s bs h) d a n = data_slice h d a n" if "0 \<le> a" "0 \<le> n" "a + n \<le> s"
  proof (cases "d = Some k")
    case True
    have "nat n + nat a \<le> nat s" using that by linarith
    then show ?thesis using True assms l by (simp add: data_store_def data_slice_def Let_def take_drop min_def)
  qed (rule ne)
  show "data_slice (data_store (Some k) s bs h) (Some k) a (s - a + int (length bs)) = data_slice h (Some k) a (s - a) @ bs"
    if "0 \<le> a" "a \<le> s"
  proof -
    have n: "nat (s - a + int (length bs)) = nat s - nat a + length bs" "nat (s - a) = nat s - nat a" "nat a \<le> nat s" using that assms by linarith+
    have "take (nat s - nat a) (drop (nat a) ?o) = drop (nat a) (take (nat s) ?o)" by (simp add: drop_take)
    moreover have "nat s - nat a \<le> nat s + length bs - nat a" "min (length ?o) (nat s) = nat s" using l by linarith+
    ultimately show ?thesis using assms l n by (simp add: data_store_def data_slice_def Let_def)
  qed
qed

lemma store_fill_ok:
  assumes h: "heap_ok h" and w: "w < length (blocks h)" and f: "bs \<noteq> []" "int (length bs) \<le> blk_write_avail (blk h w)"
  defines "h1 \<equiv> put_blk w (blk_fill (int (length bs)) (blk h w)) (data_store (b_data (blk h w)) (b_end (blk h w)) bs h)"
  shows "heap_ok h1" "same_blocks {w} h h1" "blk_bytes h1 w = blk_bytes h w @ bs" "blocks h1 = (blocks h)[w := blk_fill (int (length bs)) (blk h w)]"
proof -
  let ?b = "blk h w" and ?n = "int (length bs)"
  have bok: "blk_ok h ?b" by (rule heap_okD[OF h w])
  obtain k where k: "b_data ?b = Some k" "k < length (datas h)" "b_buf_end ?b \<le> int (length (d_bytes (datas h ! k)))"
    using bok f by (cases bs; cases "b_data ?b") (auto simp: blk_ok_def blk_write_avail_def)
  have e: "0 \<le> b_end ?b" "b_end ?b + ?n \<le> int (length (d_bytes (datas h ! k)))" "0 \<le> b_start ?b" "b_start ?b \<le> b_end ?b"
    and room: "b_end ?b < b_buf_end ?b" "b_end ?b + ?n \<le> b_buf_end ?b"
    using bok k f by (auto simp: blk_ok_def blk_write_avail_def) (cases bs; simp)
  note S = store_bytes[OF e(1,2) k(2)]
  show B: "blocks h1 = (blocks h)[w := blk_fill ?n ?b]" by (simp add: h1_def)
  have D: "length (datas h1) = length (datas h)" "length (d_bytes (datas h1 ! j)) = length (d_bytes (datas h ! j))" for j
    using S(1) k(1) by (simp_all add: h1_def)
  have sl: "data_slice h1 = data_slice (data_store (Some k) (b_end ?b) bs h)" by (simp add: h1_def k(1))
  have ok1: "blk_ok h1 b" if "blk_ok h b" for b using that D by (auto simp: blk_ok_def split: option.split)
  have "blk_ok h1 (blk_fill ?n ?b)" using bok room D k by (auto simp: blk_ok_def blk_fill_def)
  then have all: "\<forall>i<length (blocks h1). blk_ok h1 (blk h1 i)" using ok1 heap_okD[OF h] w unfolding B by (simp add: nth_list_update)
  have "b_end (blk h1 j) \<le> b_end (blk h1 i) \<and> b_buf_end (blk h1 j) = b_end (blk h1 j)"
    if i: "i < length (blocks h1)" "j < length (blocks h1)" "i \<noteq> j" "b_data (blk h1 i) = b_data (blk h1 j)" "b_end (blk h1 i) < b_buf_end (blk h1 i)" for i j
  proof -
    have d: "b_data (blk h i) = b_data (blk h j)" "i < length (blocks h)" "j < length (blocks h)" "b_end (blk h i) < b_buf_end (blk h i)"
      using i w room unfolding B by (auto simp: nth_list_update blk_fill_def split: if_splits)
    then show ?thesis using heap_ok_alone[OF h d(2,3) i(3) d(1,4)] heap_ok_alone[OF h w d(2)] i w room unfolding B
      by (auto simp: nth_list_update blk_fill_def split: if_splits)
  qed
  then show "heap_ok h1" using all unfolding heap_ok_def by blast
  have oth: "blk_bytes h1 i = blk_bytes h i" if i: "i < length (blocks h)" "i \<noteq> w" for i
  proof (cases "b_data (blk h i) = Some k")
    case True
    have "b_end (blk h i) \<le> b_end ?b" using heap_ok_alone[OF h w i(1)] i(2) True k(1) room by simp
    then show ?thesis using S(2) heap_okD[OF h i(1)] i unfolding blk_bytes_def sl B
      by (simp add: blk_read_avail_def blk_ok_def)
  next
    case False
    then show ?thesis using S(3) i unfolding blk_bytes_def sl B by (simp add: blk_read_avail_def)
  qed
  then show "same_blocks {w} h h1" unfolding same_blocks_def B by simp
  show "blk_bytes h1 w = blk_bytes h w @ bs"
    using S(4)[OF e(3,4)] w k(1) unfolding blk_bytes_def sl B by (simp add: blk_read_avail_def blk_fill_def algebra_simps)
qed

section \<open>Steps of a writer\<close>

lemma mio_inv_writer:
  assumes "mio_inv (h, m)" "m_writer m = Some w"
  obtains vs where "path (blocks h) (Some w) (w # vs)" "b_start (blk h w) < b_buf_end (blk h w)"
    "\<forall>v\<in>set vs. blk_read_avail (blk h v) = 0 \<and> 0 < blk_write_avail (blk h v)" "chain_bytes h vs = []"
    "chain_of h (Some w) = w # vs" "w < length (blocks h)" "w \<notin> set vs"
proof -
  obtain vs where v: "path (blocks h) (Some w) (w # vs)" "b_start (blk h w) < b_buf_end (blk h w)"
    "\<forall>v\<in>set vs. blk_read_avail (blk h v) = 0 \<and> 0 < blk_write_avail (blk h v)"
    using assms by (auto simp: mio_inv_def mio_ok_def)
  have "chain_ok h (Some w) (w # vs)" using heap_ok_chain[OF _ v(1)] assms by (simp add: mio_inv_def)
  then have "\<forall>v\<in>set vs. blk_ok h (blk h v)" by (auto simp: chain_ok_def)
  then have "chain_bytes h vs = []" using v(3) by (intro chain_bytes_zero) auto
  moreover have "w \<notin> set vs" using path_distinct[OF v(1)] by simp
  ultimately show ?thesis using that[OF v] chain_of_path[OF v(1)] v(1) by simp
qed

lemma attached_writer:
  assumes "mio_inv (h, m)" "attached h m r" "m_writer m = Some w"
  obtains us where "path (blocks h) (rd_block r) (us @ chain_of h (Some w))" "\<forall>i\<in>set (tl us). 0 < blk_read_avail (blk h i)"
    "rd_start_offset r \<le> int (length (chain_bytes h (us @ chain_of h (Some w))))" "set us \<inter> set (chain_of h (Some w)) = {}"
    "unread h r = drop (nat (rd_start_offset r)) (chain_bytes h (us @ chain_of h (Some w)))"
proof -
  obtain us vs where p: "path (blocks h) (rd_block r) (us @ w # vs)" "\<forall>i\<in>set (tl us). 0 < blk_read_avail (blk h i)"
    "rd_start_offset r \<le> int (length (chain_bytes h (us @ w # vs)))" using assms by (auto simp: attached_def)
  have "chain_of h (Some w) = w # vs" by (rule chain_of_path[OF path_tail[OF p(1)]])
  then show ?thesis using that[of us] p path_distinct[OF p(1)] chain_of_path[OF p(1)] by (auto simp: unread_def)
qed

lemma attachedI:
  assumes "m_writer m = Some w" "path (blocks h) (rd_block r) (us @ w # vs)" "\<And>i. i \<in> set (tl us) \<Longrightarrow> 0 < blk_read_avail (blk h i)"
    "rd_start_offset r \<le> int (length (chain_bytes h (us @ w # vs)))" "0 \<le> rd_start_offset r" "0 \<le> rd_size_limit r" "rd_size_limit r \<le> INK64_MAX"
  shows "attached h m r"
  unfolding attached_def assms(1) option.case using assms(2-) by blast

lemma attachedD: "attached h m r \<Longrightarrow> 0 \<le> rd_start_offset r \<and> 0 \<le> rd_size_limit r \<and> rd_size_limit r \<le> INK64_MAX"
  by (simp add: attached_def)

text \<open>Appending bytes to the writer's block.\<close>

lemma store_grows:
  assumes I: "mio_inv (h, m)" and w: "m_writer m = Some w" and f: "bs \<noteq> []" "int (length bs) \<le> blk_write_avail (blk h w)"
  defines "h1 \<equiv> put_blk w (blk_fill (int (length bs)) (blk h w)) (data_store (b_data (blk h w)) (b_end (blk h w)) bs h)"
  shows "grows bs (h, m) (h1, m)"
proof -
  obtain vs where v: "path (blocks h) (Some w) (w # vs)" "b_start (blk h w) < b_buf_end (blk h w)"
    "\<forall>v\<in>set vs. blk_read_avail (blk h v) = 0 \<and> 0 < blk_write_avail (blk h v)" "chain_bytes h vs = []"
    "chain_of h (Some w) = w # vs" "w < length (blocks h)" "w \<notin> set vs" by (rule mio_inv_writer[OF I w])
  have h: "heap_ok h" using I by (simp add: mio_inv_def)
  note S = store_fill_ok[OF h v(6) f, folded h1_def]
  have P: "path (blocks h1) p xs" if "path (blocks h) p xs" for p xs
    by (rule path_cong[OF that]) (use v(6) in \<open>auto simp: S(4) nth_list_update blk_fill_def\<close>)
  have same: "blk h1 i = blk h i" if "i \<noteq> w" for i using that by (simp add: S(4))
  have cb: "chain_bytes h1 (us @ w # vs) = chain_bytes h (us @ w # vs) @ bs" if "path (blocks h) p (us @ w # vs)" for p us
  proof -
    have "path (blocks h) p (us @ w # vs)" "w \<notin> set us" using that path_distinct[OF that] by auto
    then have "chain_bytes h1 us = chain_bytes h us" "chain_bytes h1 vs = chain_bytes h vs"
      using S(2) path_bound[OF that] v(7) by (auto simp: chain_bytes_def same_blocks_def intro!: arg_cong[where f = concat] map_cong)
    then show ?thesis using S(3) v(4) by simp
  qed
  have ok: "mio_ok h1 m" using I w P[OF v(1)] v(2,3,6,7) same
    by (auto simp: mio_inv_def mio_ok_def S(4) blk_fill_def intro!: exI[of _ vs]) (metis nth_list_update_neq)+
  have R: "attached h1 m r \<and> unread h1 r = unread h r @ bs" if r: "attached h m r" for r
  proof -
    obtain us where u: "path (blocks h) (rd_block r) (us @ w # vs)" "\<forall>i\<in>set (tl us). 0 < blk_read_avail (blk h i)"
      "rd_start_offset r \<le> int (length (chain_bytes h (us @ w # vs)))" "set us \<inter> set (w # vs) = {}"
      "unread h r = drop (nat (rd_start_offset r)) (chain_bytes h (us @ w # vs))"
      by (rule attached_writer[OF I r w, unfolded v(5)])
    have "attached h1 m r"
    proof (rule attachedI[OF w P[OF u(1)]])
      fix i assume i: "i \<in> set (tl us)"
      then have "i \<noteq> w" using u(4) by (cases us) auto
      then show "0 < blk_read_avail (blk h1 i)" using same u(2) i by simp
    qed (use attachedD[OF r] cb[OF u(1)] u(3) in simp_all)
    moreover have "unread h1 r = unread h r @ bs"
      unfolding u(5) using chain_of_path[OF P[OF u(1)]] cb[OF u(1)] u(3) by (simp add: unread_def nat_le_iff)
    ultimately show ?thesis by simp
  qed
  have ch1: "chain_of h1 (Some w) = w # vs" by (rule chain_of_path[OF P[OF v(1)]])
  have "same_blocks (set (w # vs)) h h1" using S(2) by (auto simp: same_blocks_def)
  moreover have "mio_inv (h1, m)" using S(1) ok R I by (auto simp: mio_inv_def)
  ultimately show ?thesis using R I w v(5) ch1 by (auto simp: grows_def mio_inv_def)
qed

text \<open>Moving on to the next block once the writer's block is full.\<close>

lemma move_grows:
  assumes I: "mio_inv (h, m)" and w: "m_writer m = Some w" and full: "blk_write_avail (blk h w) = 0" and n: "b_next (blk h w) = Some n"
  shows "grows [] (h, m) (h, m\<lparr>m_writer := Some n\<rparr>)" "0 < blk_write_avail (blk h n)"
proof -
  obtain vs where v: "path (blocks h) (Some w) (w # vs)" "b_start (blk h w) < b_buf_end (blk h w)"
    "\<forall>v\<in>set vs. blk_read_avail (blk h v) = 0 \<and> 0 < blk_write_avail (blk h v)" "chain_bytes h vs = []"
    "chain_of h (Some w) = w # vs" "w < length (blocks h)" "w \<notin> set vs" by (rule mio_inv_writer[OF I w])
  obtain ys where vs: "vs = n # ys" and p: "path (blocks h) (Some n) (n # ys)" using v(1) n by (cases vs) auto
  show "0 < blk_write_avail (blk h n)" using v(3) vs by simp
  have nw: "0 < blk_read_avail (blk h w)" using full v(2) by (simp add: blk_write_avail_def blk_read_avail_def)
  have nok: "blk_ok h (blk h n)" using I p heap_okD by (simp add: mio_inv_def)
  have ok: "mio_ok h (m\<lparr>m_writer := Some n\<rparr>)" using I p v(3) vs nok unfolding mio_inv_def mio_ok_def
    by (auto simp: blk_read_avail_def blk_write_avail_def intro!: exI[of _ ys])
  have R: "attached h (m\<lparr>m_writer := Some n\<rparr>) r" if r: "attached h m r" for r
  proof -
    obtain us where u: "path (blocks h) (rd_block r) (us @ w # vs)" "\<forall>i\<in>set (tl us). 0 < blk_read_avail (blk h i)"
      "rd_start_offset r \<le> int (length (chain_bytes h (us @ w # vs)))" by (rule attached_writer[OF I r w, unfolded v(5)])
    have "path (blocks h) (rd_block r) ((us @ [w]) @ n # ys)" using u(1) vs by simp
    then show ?thesis
    proof (rule attachedI[rotated])
      fix i assume "i \<in> set (tl (us @ [w]))"
      then show "0 < blk_read_avail (blk h i)" using u(2) nw by (cases us) auto
    qed (use attachedD[OF r] u(3) vs in simp_all)
  qed
  have "chain_of h (Some n) = n # ys" by (rule chain_of_path[OF p])
  moreover have "mio_inv (h, m\<lparr>m_writer := Some n\<rparr>)" using I ok R by (auto simp: mio_inv_def)
  ultimately show "grows [] (h, m) (h, m\<lparr>m_writer := Some n\<rparr>)" using I w v(5) vs by (auto simp: grows_def same_blocks_def)
qed

section \<open>Linking a new block\<close>

lemma slice_more: "blk_ok h b \<Longrightarrow> datas h1 = datas h @ ds \<Longrightarrow> data_slice h1 (b_data b) s n = data_slice h (b_data b) s n"
  by (auto simp: data_slice_def blk_ok_def nth_append split: option.splits)

lemma blk_ok_more: "blk_ok h b \<Longrightarrow> datas h1 = datas h @ ds \<Longrightarrow> blk_ok h1 b"
  by (auto simp: blk_ok_def nth_append split: option.splits)

lemma new_block_ok:
  assumes h: "heap_ok h" and b: "blocks h1 = blocks h @ [nb]" and d: "datas h1 = datas h @ ds" and ok: "blk_ok h1 nb"
    and alone: "\<And>i. i < length (blocks h) \<Longrightarrow> b_data (blk h i) = b_data nb \<Longrightarrow>
      (b_end (blk h i) < b_buf_end (blk h i) \<longrightarrow> b_end nb \<le> b_end (blk h i)) \<and> b_buf_end nb = b_end nb"
  shows "heap_ok h1" "same_blocks {} h h1"
proof -
  have at: "blk h1 i = (if i < length (blocks h) then blk h i else nb)" if "i < length (blocks h1)" for i
    using that by (simp add: b nth_append)
  have "\<forall>i<length (blocks h1). blk_ok h1 (blk h1 i)" using at ok heap_okD[OF h] blk_ok_more[OF _ d] by auto
  moreover have "b_end (blk h1 j) \<le> b_end (blk h1 i) \<and> b_buf_end (blk h1 j) = b_end (blk h1 j)"
    if i: "i < length (blocks h1)" "j < length (blocks h1)" "i \<noteq> j" "b_data (blk h1 i) = b_data (blk h1 j)" "b_end (blk h1 i) < b_buf_end (blk h1 i)" for i j
  proof -
    have "i = length (blocks h) \<and> j < length (blocks h) \<or> j = length (blocks h) \<and> i < length (blocks h) \<or> i < length (blocks h) \<and> j < length (blocks h)"
      using i(1-3) b by auto
    then show ?thesis using i at[of i] at[of j] alone[of i] alone[of j] heap_ok_alone[OF h, of i j] by auto
  qed
  ultimately show "heap_ok h1" unfolding heap_ok_def by blast
  show "same_blocks {} h h1" unfolding same_blocks_def blk_bytes_def using b slice_more[OF heap_okD[OF h] d] by (auto simp: nth_append)
qed

lemma link_new_block:
  assumes I: "mio_inv (h, m)" and w: "m_writer m = Some w" and b: "blocks h1 = blocks h @ [nb]" and h1: "heap_ok h1"
    and s1: "same_blocks {} h h1" and nx: "b_next nb = None"
  defines "j \<equiv> length (blocks h)"
  defines "h2 \<equiv> put_blk w ((blk h1 w)\<lparr>b_next := Some j\<rparr>) h1"
  shows "heap_ok h2" "same_blocks (set (chain_of h (m_writer m))) h h2" "chain_of h2 (Some w) = [w, j]"
    "path (blocks h2) (Some w) [w, j]" "path (blocks h2) (Some j) [j]" "blk h2 j = nb"
    "\<And>i. i < length (blocks h) \<Longrightarrow> blk_read_avail (blk h2 i) = blk_read_avail (blk h i)" "b_buf_end (blk h2 w) = b_buf_end (blk h w)" "b_start (blk h2 w) = b_start (blk h w)"
    "\<And>r. attached h m r \<Longrightarrow> \<exists>us. path (blocks h2) (rd_block r) (us @ [w, j]) \<and> (\<forall>i\<in>set (tl us). 0 < blk_read_avail (blk h2 i)) \<and>
       rd_start_offset r \<le> int (length (chain_bytes h2 (us @ [w, j]))) \<and> unread h2 r = unread h r @ blk_bytes h2 j \<and> (us \<noteq> [] \<longrightarrow> rd_block r \<noteq> Some w)"
proof -
  obtain vs where v: "path (blocks h) (Some w) (w # vs)" "b_start (blk h w) < b_buf_end (blk h w)"
    "\<forall>v\<in>set vs. blk_read_avail (blk h v) = 0 \<and> 0 < blk_write_avail (blk h v)" "chain_bytes h vs = []"
    "chain_of h (Some w) = w # vs" "w < length (blocks h)" "w \<notin> set vs" by (rule mio_inv_writer[OF I w])
  have B: "blocks h2 = (blocks h @ [nb])[w := (blk h w)\<lparr>b_next := Some j\<rparr>]" using v(6) by (simp add: h2_def b nth_append)
  have at: "blk h2 i = (if i = w then (blk h w)\<lparr>b_next := Some j\<rparr> else blk h i)" if "i < length (blocks h)" for i
    using that v(6) by (simp add: B nth_append nth_list_update)
  show bj: "blk h2 j = nb" using v(6) by (simp add: B j_def nth_append nth_list_update)
  have sel: "b_data (blk h2 i) = b_data (blk h1 i) \<and> b_start (blk h2 i) = b_start (blk h1 i) \<and> b_end (blk h2 i) = b_end (blk h1 i) \<and> b_buf_end (blk h2 i) = b_buf_end (blk h1 i)"
    if "i < length (blocks h1)" for i using that v(6) b by (simp add: h2_def nth_list_update)
  have d2: "datas h2 = datas h1" by (simp add: h2_def)
  have l2: "length (blocks h2) = length (blocks h1)" by (simp add: h2_def)
  have "blk_ok h2 (blk h2 i)" if "i < length (blocks h1)" for i
    using heap_okD[OF h1 that] sel[OF that] d2 by (simp add: blk_ok_def split: option.splits)
  then show "heap_ok h2" using h1 sel l2 unfolding heap_ok_def by simp
  have bytes: "blk_bytes h2 i = blk_bytes h i" if "i < length (blocks h)" for i
  proof -
    have i1: "i < length (blocks h1)" using that b by simp
    have "blk_bytes h2 i = blk_bytes h1 i" unfolding blk_bytes_def blk_read_avail_def using sel[OF i1] by (simp add: h2_def)
    then show ?thesis using s1 that by (simp add: same_blocks_def)
  qed
  then show "same_blocks (set (chain_of h (m_writer m))) h h2" using at v(5) w l2 b by (auto simp: same_blocks_def)
  show "blk_read_avail (blk h2 i) = blk_read_avail (blk h i)" if "i < length (blocks h)" for i using at[OF that] by (simp add: blk_read_avail_def)
  show "b_buf_end (blk h2 w) = b_buf_end (blk h w)" "b_start (blk h2 w) = b_start (blk h w)" using at[OF v(6)] by simp_all
  have lj: "j < length (blocks h2)" "w < length (blocks h2)" using l2 b v(6) by (simp_all add: j_def)
  show pj: "path (blocks h2) (Some j) [j]" using lj bj nx by simp
  show pw: "path (blocks h2) (Some w) [w, j]" using lj pj at[OF v(6)] by simp
  then show "chain_of h2 (Some w) = [w, j]" by (rule chain_of_path)
  fix r assume r: "attached h m r"
  obtain us where u: "path (blocks h) (rd_block r) (us @ w # vs)" "\<forall>i\<in>set (tl us). 0 < blk_read_avail (blk h i)"
    "rd_start_offset r \<le> int (length (chain_bytes h (us @ w # vs)))" "set us \<inter> set (w # vs) = {}"
    "unread h r = drop (nat (rd_start_offset r)) (chain_bytes h (us @ w # vs))" by (rule attached_writer[OF I r w, unfolded v(5)])
  have bnd: "set (us @ w # vs) \<subseteq> {..<length (blocks h)}" by (rule path_bound[OF u(1)])
  have P: "path (blocks h2) (rd_block r) (us @ [w, j])"
  proof -
    have "path (blocks h2) q (us' @ [w, j])" if "path (blocks h) q (us' @ w # vs)" "set us' \<inter> {w} = {}" for q us'
      using that
    proof (induction us' arbitrary: q)
      case Nil
      then show ?case using pw by simp
    next
      case (Cons a us')
      then show ?case using at[of a] l2 b by auto
    qed
    then show ?thesis using u(1,4) by auto
  qed
  have cu: "chain_bytes h2 us = chain_bytes h us" unfolding chain_bytes_def
    using bytes bnd by (intro arg_cong[where f = concat] map_cong) auto
  have cb: "chain_bytes h2 (us @ [w, j]) = chain_bytes h (us @ w # vs) @ blk_bytes h2 j"
    using cu bytes[OF v(6)] v(4) by simp
  have "\<forall>i\<in>set (tl us). 0 < blk_read_avail (blk h2 i)"
  proof
    fix i assume i: "i \<in> set (tl us)"
    then have "i < length (blocks h)" "i \<noteq> w" using bnd u(4) by (cases us; auto)+
    then show "0 < blk_read_avail (blk h2 i)" using u(2) i at by simp
  qed
  moreover have "unread h2 r = unread h r @ blk_bytes h2 j"
    unfolding unread_def chain_of_path[OF P] chain_of_path[OF u(1)] cb by (rule drop_within) (use u(3) in \<open>simp only: nat_le_iff\<close>)
  moreover have "us \<noteq> [] \<longrightarrow> rd_block r \<noteq> Some w" using u(1,4) by (cases us) auto
  moreover have "rd_start_offset r \<le> int (length (chain_bytes h2 (us @ [w, j])))" using u(3) unfolding cb length_append of_nat_add by linarith
  ultimately show "\<exists>us. path (blocks h2) (rd_block r) (us @ [w, j]) \<and> (\<forall>i\<in>set (tl us). 0 < blk_read_avail (blk h2 i)) \<and>
       rd_start_offset r \<le> int (length (chain_bytes h2 (us @ [w, j]))) \<and> unread h2 r = unread h r @ blk_bytes h2 j \<and> (us \<noteq> [] \<longrightarrow> rd_block r \<noteq> Some w)"
    using P by blast
qed

section \<open>Adding a block\<close>

lemma index_to_buffer_size_pos: "BUFFER_SIZE_ALLOCATED i \<Longrightarrow> 0 < index_to_buffer_size i"
  by (auto simp: BUFFER_SIZE_ALLOCATED_def index_to_buffer_size_def BUFFER_SIZE_INDEX_IS_FAST_ALLOCATED_def
      BUFFER_SIZE_INDEX_IS_XMALLOCED_def BUFFER_SIZE_FOR_INDEX_def)

text \<open>The block that \<^verbatim>\<open>new_IOBufferBlock()\<close> and \<^verbatim>\<open>alloc(i)\<close> leave in the heap.\<close>

definition with_block :: "int \<Rightarrow> ioheap \<Rightarrow> ioheap" where
  "with_block sz h = h\<lparr>datas := datas h @ [\<lparr>d_size_index = sz, d_bytes = map (junk h (length (datas h))) [0..<nat (index_to_buffer_size sz)]\<rparr>],
     blocks := blocks h @ [\<lparr>b_data = Some (length (datas h)), b_start = 0, b_end = 0, b_buf_end = index_to_buffer_size sz, b_next = None\<rparr>]\<rparr>"

lemma blk_alloc_new:
  assumes "BUFFER_SIZE_ALLOCATED sz"
  shows "(let (b, h1) = new_IOBufferBlock h in map_option (\<lambda>h'. (b, h')) (blk_alloc b sz h1)) = Some (length (blocks h), with_block sz h)"
  using assms by (simp add: new_IOBufferBlock_def blk_alloc_def new_IOBufferData_def blk_reset_def put_blk_def data_block_size_def with_block_def Let_def)

lemma blk_alloc_new':
  assumes "BUFFER_SIZE_ALLOCATED sz"
  shows "blk_alloc (length (blocks h)) sz (snd (new_IOBufferBlock h)) = Some (with_block sz h)"
  using blk_alloc_new[OF assms, of h] by (auto simp: new_IOBufferBlock_def)

lemma with_block_ok:
  assumes h: "heap_ok h" and sz: "BUFFER_SIZE_ALLOCATED sz"
  shows "heap_ok (with_block sz h)" "same_blocks {} h (with_block sz h)"
proof -
  let ?nb = "\<lparr>b_data = Some (length (datas h)), b_start = 0, b_end = 0, b_buf_end = index_to_buffer_size sz, b_next = None\<rparr>"
  have b: "blocks (with_block sz h) = blocks h @ [?nb]" by (simp add: with_block_def)
  have d: "datas (with_block sz h) = datas h @ [\<lparr>d_size_index = sz, d_bytes = map (junk h (length (datas h))) [0..<nat (index_to_buffer_size sz)]\<rparr>]"
    by (simp add: with_block_def)
  have ok: "blk_ok (with_block sz h) ?nb" using index_to_buffer_size_pos[OF sz] by (simp add: blk_ok_def d)
  have al: "(b_end (blk h i) < b_buf_end (blk h i) \<longrightarrow> b_end ?nb \<le> b_end (blk h i)) \<and> b_buf_end ?nb = b_end ?nb"
    if "i < length (blocks h)" "b_data (blk h i) = b_data ?nb" for i using heap_okD[OF h that(1)] that(2) by (simp add: blk_ok_def)
  show "heap_ok (with_block sz h)" "same_blocks {} h (with_block sz h)" using new_block_ok[OF h b d ok al] by blast+
qed

lemma add_block_Some:
  assumes I: "mio_inv (h, m)" and w: "m_writer m = Some w"
  defines "h2 \<equiv> put_blk w ((blk (with_block (m_size_index m) h) w)\<lparr>b_next := Some (length (blocks h))\<rparr>) (with_block (m_size_index m) h)"
  shows "add_block (h, m) = Some (h2, m)" "grows [] (h, m) (h2, m)" "b_next (blk h2 w) = Some (length (blocks h))"
    "blk_write_avail (blk h2 w) = blk_write_avail (blk h w)"
proof -
  let ?h1 = "with_block (m_size_index m) h" and ?j = "length (blocks h)"
  let ?nb = "\<lparr>b_data = Some (length (datas h)), b_start = 0, b_end = 0, b_buf_end = index_to_buffer_size (m_size_index m), b_next = None\<rparr>"
  have h: "heap_ok h" and sz: "BUFFER_SIZE_ALLOCATED (m_size_index m)" using I by (simp_all add: mio_inv_def mio_ok_def)
  obtain vs where v: "b_start (blk h w) < b_buf_end (blk h w)" "chain_of h (Some w) = w # vs" "w < length (blocks h)" by (rule mio_inv_writer[OF I w])
  have b: "blocks ?h1 = blocks h @ [?nb]" by (simp add: with_block_def)
  have nbn: "b_next ?nb = None" by simp
  note L = link_new_block[OF I w b with_block_ok[OF h sz] nbn, folded h2_def]
  have bw: "blk h2 w = (blk h w)\<lparr>b_next := Some ?j\<rparr>" using v(3) by (simp add: h2_def b nth_append)
  then show nx: "b_next (blk h2 w) = Some ?j" "blk_write_avail (blk h2 w) = blk_write_avail (blk h w)" by (simp_all add: blk_write_avail_def)
  have ra: "blk_read_avail (blk h2 ?j) = 0" "0 < blk_write_avail (blk h2 ?j)"
    using L(6) index_to_buffer_size_pos[OF sz] by (simp_all add: blk_read_avail_def blk_write_avail_def)
  have adv: "append_advance h2 w ?j = Some w" "writer_advance h2 w = Some w"
    using ra nx by (subst append_advance.simps, simp, subst writer_advance.simps, simp)
  have al: "blk_alloc (length (blocks h)) (m_size_index m) (snd (new_IOBufferBlock h)) = Some ?h1" by (rule blk_alloc_new'[OF sz])
  have "append_block_internal ?j (?h1, m) = Some (h2, m\<lparr>m_writer := Some w\<rparr>)"
    using w adv by (simp add: append_block_internal_def h2_def Let_def)
  moreover have "m\<lparr>m_writer := Some w\<rparr> = m" using w by simp
  ultimately show "add_block (h, m) = Some (h2, m)" using al
    by (simp add: add_block_def append_block_size_def new_IOBufferBlock_def)
  have bj: "blk_bytes h2 ?j = []" using ra(1) by (simp add: blk_bytes_def data_slice_def split: option.split)
  have ok: "mio_ok h2 m" unfolding mio_ok_def w using sz L(4) L(8,9) v(1) ra
    by (auto intro!: exI[of _ "[?j]"])
  have R: "attached h2 m r \<and> unread h2 r = unread h r" if r: "attached h m r" for r
  proof -
    obtain us where u: "path (blocks h2) (rd_block r) (us @ w # [?j])" "\<forall>i\<in>set (tl us). 0 < blk_read_avail (blk h2 i)"
      "rd_start_offset r \<le> int (length (chain_bytes h2 (us @ w # [?j])))" "unread h2 r = unread h r @ blk_bytes h2 ?j"
      using L(10)[OF r] by blast
    have "attached h2 m r" by (rule attachedI[OF w u(1) _ u(3)]) (use u(2) attachedD[OF r] in auto)
    then show ?thesis using u(4) bj by simp
  qed
  have "mio_inv (h2, m)" using L(1) ok R I by (auto simp: mio_inv_def)
  then show "grows [] (h, m) (h2, m)" using R I w v(2) L(2,3) by (auto simp: grows_def mio_inv_def)
qed

lemma add_block_None:
  assumes I: "mio_inv (h, m)" and w: "m_writer m = None"
  defines "h1 \<equiv> with_block (m_size_index m) h" and "m1 \<equiv> init_readers (m\<lparr>m_writer := Some (length (blocks h))\<rparr>)"
  shows "add_block (h, m) = Some (h1, m1)" "grows [] (h, m) (h1, m1)" "m_writer m1 = Some (length (blocks h))"
    "0 < blk_write_avail (blk h1 (length (blocks h)))"
proof -
  let ?j = "length (blocks h)"
  let ?nb = "\<lparr>b_data = Some (length (datas h)), b_start = 0, b_end = 0, b_buf_end = index_to_buffer_size (m_size_index m), b_next = None\<rparr>"
  have h: "heap_ok h" and sz: "BUFFER_SIZE_ALLOCATED (m_size_index m)" using I by (simp_all add: mio_inv_def mio_ok_def)
  have b: "blocks h1 = blocks h @ [?nb]" by (simp add: h1_def with_block_def)
  note W = with_block_ok[OF h sz, folded h1_def]
  have bj: "blk h1 ?j = ?nb" by (simp add: b)
  show m1: "m_writer m1 = Some ?j" by (simp add: m1_def init_readers_def)
  show wa: "0 < blk_write_avail (blk h1 ?j)" using bj index_to_buffer_size_pos[OF sz] by (simp add: blk_write_avail_def)
  have adv: "writer_advance h1 ?j = Some ?j" using bj by (subst writer_advance.simps) simp
  have al: "blk_alloc (length (blocks h)) (m_size_index m) (snd (new_IOBufferBlock h)) = Some h1" unfolding h1_def by (rule blk_alloc_new'[OF sz])
  have "m1\<lparr>m_writer := Some ?j\<rparr> = m1" using m1 by simp
  then show "add_block (h, m) = Some (h1, m1)" using al w adv m1
    by (simp add: add_block_def append_block_size_def append_block_internal_def new_IOBufferBlock_def m1_def[symmetric])
  have p: "path (blocks h1) (Some ?j) [?j]" using bj by (simp add: b)
  have bytes: "blk_bytes h1 ?j = []" using bj by (simp add: blk_bytes_def data_slice_def blk_read_avail_def)
  have "m_size_index m1 = m_size_index m" by (simp add: m1_def init_readers_def)
  then have ok: "mio_ok h1 m1" unfolding mio_ok_def m1 option.case using sz p bj index_to_buffer_size_pos[OF sz] by (auto intro!: exI[of _ "[]"])
  have rd: "m_readers m1 ! i = (if rd_mbuf (m_readers m ! i) \<noteq> None \<and> rd_block (m_readers m ! i) = None
       then (m_readers m ! i)\<lparr>rd_block := Some ?j\<rparr> else m_readers m ! i)" if "i < MAX_MIOBUFFER_READERS" for i
    using that I by (simp add: m1_def init_readers_def mio_inv_def)
  have len: "length (m_readers m1) = MAX_MIOBUFFER_READERS" using I by (simp add: m1_def init_readers_def mio_inv_def)
  have att: "rd_block (m_readers m ! i) = None \<and> rd_start_offset (m_readers m ! i) = 0 \<and> 0 \<le> rd_size_limit (m_readers m ! i) \<and> rd_size_limit (m_readers m ! i) \<le> INK64_MAX"
    if "i < MAX_MIOBUFFER_READERS" "rd_mbuf (m_readers m ! i) \<noteq> None" for i
  proof -
    have "attached h m (m_readers m ! i)" using that I unfolding mio_inv_def by (simp only: fst_conv snd_conv) (metis nth_mem)
    then show ?thesis using w by (simp add: attached_def)
  qed
  have R: "attached h1 m1 (m_readers m1 ! i) \<and> unread h1 (m_readers m1 ! i) = unread h (m_readers m ! i)"
    if i: "i < MAX_MIOBUFFER_READERS" "rd_mbuf (m_readers m ! i) \<noteq> None" for i
  proof -
    note A = att[OF i]
    have r1: "m_readers m1 ! i = (m_readers m ! i)\<lparr>rd_block := Some ?j\<rparr>" using rd[OF i(1)] i(2) A by simp
    have "attached h1 m1 (m_readers m1 ! i)" by (rule attachedI[OF m1, of _ _ "[]" "[]"]) (use p A r1 bytes in auto)
    moreover have "unread h1 (m_readers m1 ! i) = []" "unread h (m_readers m ! i) = []"
      using chain_of_path[OF p] A r1 bytes by (simp_all add: unread_def)
    ultimately show ?thesis by simp
  qed
  have mb: "rd_mbuf (m_readers m1 ! i) = rd_mbuf (m_readers m ! i)" if "i < MAX_MIOBUFFER_READERS" for i using rd[OF that] by simp
  have "mio_inv (h1, m1)" unfolding mio_inv_def fst_conv snd_conv
  proof (intro conjI ballI impI)
    fix r assume "r \<in> set (m_readers m1)" "rd_mbuf r \<noteq> None"
    then show "attached h1 m1 r" using R len mb by (metis in_set_conv_nth)
  qed (use W(1) ok len in simp_all)
  moreover have "chain_of h1 (Some ?j) = [?j]" by (rule chain_of_path[OF p])
  moreover have "m_id m1 = m_id m" "m_water_mark m1 = m_water_mark m" "m_size_index m1 = m_size_index m" by (simp_all add: m1_def init_readers_def)
  ultimately show "grows [] (h, m) (h1, m1)" unfolding grows_def fst_conv snd_conv m1 w
    using W(2) R rd by auto
qed

end
