(* ===== verification/Io_Buffer_Main.thy ===== *)
theory Io_Buffer_Main
  imports Io_Buffer_Writer
begin

text \<open>
  The operations of buffers as their callers use them: copying bytes in, sharing the blocks of a
  reader of another buffer, allocating buffers and readers, and the contract \<open>byte_queue\<close> that
  a buffer and its readers fulfil together.
\<close>

definition stage :: "ioheap \<times> mio \<Rightarrow> nat" where
  "stage s = (case m_writer (snd s) of None \<Rightarrow> 0 | Some w \<Rightarrow>
     if 0 < blk_write_avail (blk (fst s) w) then 0 else if b_next (blk (fst s) w) = None then 2 else 1)"

text \<open>The writer's block has data, or every reader stands on it.\<close>

definition settled :: "ioheap \<times> mio \<Rightarrow> bool" where
  "settled s \<longleftrightarrow> (case m_writer (snd s) of None \<Rightarrow> True | Some w \<Rightarrow>
     0 < blk_read_avail (blk (fst s) w) \<or> (\<forall>r\<in>set (m_readers (snd s)). rd_mbuf r \<noteq> None \<longrightarrow> rd_block r = Some w))"

section \<open>Copying bytes in\<close>

lemma write_loop_Nil [simp]: "write_loop [] s = Some s"
  by (subst write_loop.simps) simp

lemma write_loop_None:
  assumes "m_writer (snd s) = None" "buf \<noteq> []" "add_block s = Some s1" "m_writer (snd s1) \<noteq> None"
  shows "write_loop buf s = write_loop buf s1"
  using assms by (subst (1 2) write_loop.simps) auto

lemma grows_pieces:
  assumes "grows (take n buf) s s1" "grows [] s1 s2" "grows (drop n buf) s2 s3"
  shows "grows buf s s3"
  using grows_trans[OF assms(1) grows_trans[OF assms(2,3)]] by simp

lemma grows_then: "grows [] s s1 \<Longrightarrow> grows bs s1 s2 \<Longrightarrow> grows bs s s2"
  using grows_trans[of "[]" s s1 bs s2] by simp

text \<open>One iteration when the block has room, and when it has none.\<close>

lemma write_loop_room:
  assumes "m_writer m = Some w" "buf \<noteq> []" "0 < blk_write_avail (blk h w)" "n = min (nat (blk_write_avail (blk h w))) (length buf)"
  defines "h1 \<equiv> put_blk w (blk_fill (int n) (blk h w)) (data_store (b_data (blk h w)) (b_end (blk h w)) (take n buf) h)"
  shows "write_loop buf (h, m) = (if drop n buf = [] then Some (h1, m)
    else case b_next (blk h1 w) of
        None \<Rightarrow> do { s2 \<leftarrow> add_block (h1, m); write_loop (drop n buf) s2 }
      | Some k \<Rightarrow> write_loop (drop n buf) (h1, m\<lparr>m_writer := Some k\<rparr>))"
proof -
  show ?thesis
  proof (cases "blk_write_avail (blk h w) < int (length buf)")
    case True
    then have n: "int n = blk_write_avail (blk h w)" "n = nat (blk_write_avail (blk h w))" using assms(3,4) by auto
    have "\<not> length buf \<le> nat (blk_write_avail (blk h w))" using True assms(3) by linarith
    then show ?thesis unfolding h1_def n(1) unfolding n(2)
      using assms(1-3) True by (subst write_loop.simps) (simp add: Let_def)
  next
    case False
    then have "n = length buf" using assms(4) by auto
    then show ?thesis using assms(1-3) False unfolding h1_def by (subst write_loop.simps) (simp add: Let_def)
  qed
qed

lemma write_loop_full:
  assumes "m_writer m = Some w" "buf \<noteq> []" "blk_write_avail (blk h w) = 0"
  shows "write_loop buf (h, m) = (case b_next (blk h w) of
        None \<Rightarrow> do { s2 \<leftarrow> add_block (h, m); write_loop buf s2 }
      | Some k \<Rightarrow> write_loop buf (h, m\<lparr>m_writer := Some k\<rparr>))"
  using assms by (subst write_loop.simps) (simp add: Let_def)

lemma write_loop_ok:
  assumes "mio_inv s"
  shows "\<exists>s'. write_loop buf s = Some s' \<and> grows buf s s' \<and> (buf \<noteq> [] \<or> settled s \<longrightarrow> settled s')"
  using assms
proof (induction "3 * length buf + stage s" arbitrary: buf s rule: less_induct)
  case less
  obtain h m where s: "s = (h, m)" by (cases s)
  have I: "mio_inv (h, m)" using less.prems s by simp
  have some: "\<exists>s'. write_loop buf (h, m) = Some s' \<and> grows buf (h, m) s' \<and> settled s'"
    if I: "mio_inv (h, m)" and w: "m_writer m = Some w" and ne: "buf \<noteq> []"
      and IH: "\<And>b t. 3 * length b + stage t < 3 * length buf + stage (h, m) \<Longrightarrow> mio_inv t \<Longrightarrow>
        \<exists>t'. write_loop b t = Some t' \<and> grows b t t' \<and> (b \<noteq> [] \<or> settled t \<longrightarrow> settled t')" for h m w
  proof (cases "0 < blk_write_avail (blk h w)")
    case True
    define n where "n = min (nat (blk_write_avail (blk h w))) (length buf)"
    define h1 where "h1 = put_blk w (blk_fill (int n) (blk h w)) (data_store (b_data (blk h w)) (b_end (blk h w)) (take n buf) h)"
    have n: "0 < n" "n \<le> length buf" "int n \<le> blk_write_avail (blk h w)" using True ne by (auto simp: n_def)
    have wl: "w < length (blocks h)" by (rule mio_inv_writer[OF I w])
    have "grows (take n buf) (h, m) (put_blk w (blk_fill (int (length (take n buf))) (blk h w)) (data_store (b_data (blk h w)) (b_end (blk h w)) (take n buf) h), m)"
      by (rule store_grows[OF I w]) (use n ne in auto)
    moreover have "length (take n buf) = n" using n by simp
    ultimately have G: "grows (take n buf) (h, m) (h1, m)" by (simp only: h1_def)
    have bw: "blk h1 w = blk_fill (int n) (blk h w)" using wl by (simp add: h1_def)
    have "0 \<le> blk_read_avail (blk h w)" using blk_avail(1) heap_okD[OF _ wl] I by (auto simp: mio_inv_def)
    then have S: "settled (h1, m)" using n w bw by (simp add: settled_def blk_fill_def blk_read_avail_def)
    note E = write_loop_room[OF w ne True n_def, folded h1_def]
    show ?thesis
    proof (cases "drop n buf = []")
      case True
      then have "take n buf = buf" by simp
      then show ?thesis using E True G S by auto
    next
      case False
      then have "n = nat (blk_write_avail (blk h w))" by (auto simp: n_def)
      then have full: "blk_write_avail (blk h1 w) = 0" using True bw by (simp add: blk_write_avail_def blk_fill_def)
      have I1: "mio_inv (h1, m)" by (rule growsD(1)[OF G])
      have l: "3 * length (drop n buf) + stage t < 3 * length buf + stage (h, m)" for t
        using n by (auto simp: stage_def split: option.split)
      show ?thesis
      proof (cases "b_next (blk h1 w)")
        case None
        note A = add_block_Some[OF I1 w]
        obtain t' where "write_loop (drop n buf) (put_blk w ((blk (with_block (m_size_index m) h1) w)\<lparr>b_next := Some (length (blocks h1))\<rparr>) (with_block (m_size_index m) h1), m) = Some t'"
          "grows (drop n buf) (put_blk w ((blk (with_block (m_size_index m) h1) w)\<lparr>b_next := Some (length (blocks h1))\<rparr>) (with_block (m_size_index m) h1), m) t'" "settled t'"
          using IH[OF l growsD(1)[OF A(2)]] False by blast
        then show ?thesis using E False None A(1) grows_pieces[OF G A(2)] by auto
      next
        case (Some k)
        note M = move_grows[OF I1 w full Some]
        obtain t' where "write_loop (drop n buf) (h1, m\<lparr>m_writer := Some k\<rparr>) = Some t'" "grows (drop n buf) (h1, m\<lparr>m_writer := Some k\<rparr>) t'" "settled t'"
          using IH[OF l growsD(1)[OF M(1)]] False by blast
        then show ?thesis using E False Some grows_pieces[OF G M(1)] by auto
      qed
    qed
  next
    case False
    have wl: "w < length (blocks h)" by (rule mio_inv_writer[OF I w])
    then have full: "blk_write_avail (blk h w) = 0" using False blk_avail(2)[OF heap_okD[OF _ wl]] I by (fastforce simp: mio_inv_def)
    note E = write_loop_full[OF w ne full]
    show ?thesis
    proof (cases "b_next (blk h w)")
      case None
      note A = add_block_Some[OF I w]
      let ?t = "(put_blk w ((blk (with_block (m_size_index m) h) w)\<lparr>b_next := Some (length (blocks h))\<rparr>) (with_block (m_size_index m) h), m)"
      have "3 * length buf + stage ?t < 3 * length buf + stage (h, m)" using A(3,4) None full w by (simp add: stage_def)
      then obtain t' where "write_loop buf ?t = Some t'" "grows buf ?t t'" "settled t'" using IH[OF _ growsD(1)[OF A(2)]] ne by blast
      then show ?thesis using E None A(1) grows_then[OF A(2)] by auto
    next
      case (Some k)
      note M = move_grows[OF I w full Some]
      have "3 * length buf + stage (h, m\<lparr>m_writer := Some k\<rparr>) < 3 * length buf + stage (h, m)" using M(2) Some full w by (simp add: stage_def)
      then obtain t' where "write_loop buf (h, m\<lparr>m_writer := Some k\<rparr>) = Some t'" "grows buf (h, m\<lparr>m_writer := Some k\<rparr>) t'" "settled t'"
        using IH[OF _ growsD(1)[OF M(1)]] ne by blast
      then show ?thesis using E Some grows_then[OF M(1)] by auto
    qed
  qed
  show ?case
  proof (cases "buf = []")
    case True
    then show ?thesis using grows_refl[OF less.prems] by simp
  next
    case ne: False
    show ?thesis
    proof (cases "m_writer m")
      case (Some w)
      then show ?thesis unfolding s using some[OF I Some ne] less.hyps unfolding s by blast
    next
      case None
      note A = add_block_None[OF I None]
      let ?t = "(with_block (m_size_index m) h, init_readers (m\<lparr>m_writer := Some (length (blocks h))\<rparr>))"
      have st: "stage ?t = stage (h, m)" using A(3,4) None by (simp add: stage_def)
      have "\<exists>s'. write_loop buf ?t = Some s' \<and> grows buf ?t s' \<and> settled s'"
        by (rule some[OF growsD(1)[OF A(2)] A(3) ne]) (use less.hyps st s in auto)
      moreover have "write_loop buf (h, m) = write_loop buf ?t" using write_loop_None[of "(h, m)" buf ?t] None ne A(1,3) by simp
      ultimately show ?thesis unfolding s using grows_then[OF A(2)] by auto
    qed
  qed
qed

section \<open>Sharing the blocks of a reader\<close>

text \<open>The clone of block \<open>i\<close> restricted to the \<open>n\<close> bytes from \<open>off\<close> on.\<close>

definition shared :: "nat \<Rightarrow> int \<Rightarrow> int \<Rightarrow> ioheap \<Rightarrow> ioblock" where
  "shared i off n h = \<lparr>b_data = b_data (blk h i), b_start = b_start (blk h i) + off, b_end = b_start (blk h i) + off + n,
     b_buf_end = b_start (blk h i) + off + n, b_next = None\<rparr>"

definition with_shared :: "nat \<Rightarrow> int \<Rightarrow> int \<Rightarrow> ioheap \<Rightarrow> ioheap" where
  "with_shared i off n h = h\<lparr>blocks := blocks h @ [shared i off n h]\<rparr>"

lemma with_shared_sel [simp]:
  "blocks (with_shared i off n h) = blocks h @ [shared i off n h]" "datas (with_shared i off n h) = datas h"
  by (simp_all add: with_shared_def)

lemma blk_clone_shared:
  assumes "i < length (blocks h)"
  shows "fst (blk_clone i h) = length (blocks h)" "b_start (blk (snd (blk_clone i h)) (length (blocks h))) = b_start (blk h i)"
    "put_blk (length (blocks h)) ((blk (snd (blk_clone i h)) (length (blocks h)))\<lparr>b_start := b_start (blk h i) + off,
        b_end := b_start (blk h i) + off + n, b_buf_end := b_start (blk h i) + off + n\<rparr>) (snd (blk_clone i h)) = with_shared i off n h"
  using assms by (simp_all add: blk_clone_def new_IOBufferBlock_def put_blk_def with_shared_def shared_def nth_append Let_def)

lemma with_shared_ok:
  assumes h: "heap_ok h" and i: "i < length (blocks h)" and o: "0 \<le> off" "0 < n" "off + n \<le> blk_read_avail (blk h i)"
  shows "heap_ok (with_shared i off n h)" "same_blocks {} h (with_shared i off n h)"
    "blk_bytes (with_shared i off n h) (length (blocks h)) = take (nat n) (drop (nat off) (blk_bytes h i))"
proof -
  let ?h1 = "with_shared i off n h" and ?nb = "shared i off n h"
  have bok: "blk_ok h (blk h i)" by (rule heap_okD[OF h i])
  have b: "blocks ?h1 = blocks h @ [?nb]" and d: "datas ?h1 = datas h @ []" by simp_all
  have ok: "blk_ok ?h1 ?nb" using bok o by (auto simp: blk_ok_def shared_def blk_read_avail_def split: option.splits)
  have al: "(b_end (blk h k) < b_buf_end (blk h k) \<longrightarrow> b_end ?nb \<le> b_end (blk h k)) \<and> b_buf_end ?nb = b_end ?nb"
    if "k < length (blocks h)" "b_data (blk h k) = b_data ?nb" for k
    using heap_ok_alone[OF h that(1) i] that(2) o by (cases "k = i") (auto simp: shared_def blk_read_avail_def)
  show "heap_ok ?h1" "same_blocks {} h ?h1" using new_block_ok[OF h b d ok al] by blast+
  have "data_slice ?h1 = data_slice h" by (simp add: fun_eq_iff data_slice_def split: option.split)
  then show "blk_bytes ?h1 (length (blocks h)) = take (nat n) (drop (nat off) (blk_bytes h i))"
    using slice_blk_bytes[OF bok o(1) _ o(3)] o by (simp add: blk_bytes_def shared_def blk_read_avail_def)
qed

text \<open>Appending a block whose bytes are all in use makes it the writer's block.\<close>

lemma append_used_Some:
  assumes I: "mio_inv (h, m)" and st: "settled (h, m)" and w: "m_writer m = Some w" and b: "blocks h1 = blocks h @ [nb]"
    and h1: "heap_ok h1" and s1: "same_blocks {} h h1" and nx: "b_next nb = None" and use: "b_start nb < b_end nb"
  shows "\<exists>s'. append_block_internal (length (blocks h)) (h1, m) = Some s' \<and> grows (blk_bytes h1 (length (blocks h))) (h, m) s' \<and> settled s'"
proof -
  let ?j = "length (blocks h)"
  define h2 where "h2 = put_blk w ((blk h1 w)\<lparr>b_next := Some ?j\<rparr>) h1"
  define m2 where "m2 = m\<lparr>m_writer := Some ?j\<rparr>"
  note L = link_new_block[OF I w b h1 s1 nx, folded h2_def]
  obtain vs where v: "b_start (blk h w) < b_buf_end (blk h w)" "chain_of h (Some w) = w # vs" "w < length (blocks h)" by (rule mio_inv_writer[OF I w])
  have bj: "blk h2 ?j = nb" by (rule L(6))
  have ra: "0 < blk_read_avail (blk h2 ?j)" using use bj by (simp add: blk_read_avail_def)
  have "append_advance h2 w ?j = Some ?j" using ra bj nx by (subst append_advance.simps) simp
  moreover have "writer_advance h2 ?j = Some ?j" using bj nx by (subst writer_advance.simps) simp
  ultimately have A: "append_block_internal ?j (h1, m) = Some (h2, m2)" using w by (simp add: append_block_internal_def h2_def m2_def Let_def)
  have bb: "blk_bytes h2 ?j = blk_bytes h1 ?j"
    using v(3) b by (simp add: blk_bytes_def h2_def nth_append)
  have "b_end nb \<le> b_buf_end nb" using heap_okD[OF h1, of ?j] b by (simp add: blk_ok_def)
  then have ok: "mio_ok h2 m2" using I L(5) bj use unfolding mio_ok_def mio_inv_def m2_def by (auto intro!: exI[of _ "[]"])
  have R: "attached h2 m2 r \<and> unread h2 r = unread h r @ blk_bytes h1 ?j" if r: "attached h m r" "r \<in> set (m_readers m)" "rd_mbuf r \<noteq> None" for r
  proof -
    obtain us where u: "path (blocks h2) (rd_block r) (us @ [w, ?j])" "\<forall>i\<in>set (tl us). 0 < blk_read_avail (blk h2 i)"
      "rd_start_offset r \<le> int (length (chain_bytes h2 (us @ [w, ?j])))" "unread h2 r = unread h r @ blk_bytes h2 ?j" "us \<noteq> [] \<longrightarrow> rd_block r \<noteq> Some w"
      using L(10)[OF r(1)] by blast
    have p: "path (blocks h2) (rd_block r) ((us @ [w]) @ ?j # [])" using u(1) by simp
    have "attached h2 m2 r"
    proof (rule attachedI[OF _ p])
      fix i assume i: "i \<in> set (tl (us @ [w]))"
      have "us \<noteq> [] \<Longrightarrow> 0 < blk_read_avail (blk h2 w)" using st w u(5) r(2,3) L(7)[OF v(3)] by (auto simp: settled_def)
      then show "0 < blk_read_avail (blk h2 i)" using i u(2) by (cases us) auto
    qed (use u(3) attachedD[OF r(1)] m2_def in simp_all)
    then show ?thesis using u(4) bb by simp
  qed
  have "mio_inv (h2, m2)" using L(1) ok R I by (auto simp: mio_inv_def m2_def)
  moreover have "chain_of h2 (Some ?j) = [?j]" by (rule chain_of_path[OF L(5)])
  ultimately have "grows (blk_bytes h1 ?j) (h, m) (h2, m2)" using R I w L(2) by (auto simp: grows_def mio_inv_def m2_def)
  moreover have "settled (h2, m2)" using ra by (simp add: settled_def m2_def)
  ultimately show ?thesis using A by blast
qed

lemma append_used_None:
  assumes I: "mio_inv (h, m)" and w: "m_writer m = None" and b: "blocks h1 = blocks h @ [nb]"
    and h1: "heap_ok h1" and s1: "same_blocks {} h h1" and nx: "b_next nb = None" and use: "b_start nb < b_end nb"
  shows "\<exists>s'. append_block_internal (length (blocks h)) (h1, m) = Some s' \<and> grows (blk_bytes h1 (length (blocks h))) (h, m) s' \<and> settled s'"
proof -
  let ?j = "length (blocks h)"
  define m1 where "m1 = init_readers (m\<lparr>m_writer := Some ?j\<rparr>)"
  have bj: "blk h1 ?j = nb" by (simp add: b)
  have m1: "m_writer m1 = Some ?j" by (simp add: m1_def init_readers_def)
  have adv: "writer_advance h1 ?j = Some ?j" using bj nx by (subst writer_advance.simps) simp
  have "m1\<lparr>m_writer := Some ?j\<rparr> = m1" using m1 by simp
  then have A: "append_block_internal ?j (h1, m) = Some (h1, m1)" using w adv m1 by (simp add: append_block_internal_def m1_def[symmetric])
  have p: "path (blocks h1) (Some ?j) [?j]" using bj nx by (simp add: b)
  have ra: "0 < blk_read_avail (blk h1 ?j)" using use bj by (simp add: blk_read_avail_def)
  have "b_end nb \<le> b_buf_end nb" using heap_okD[OF h1, of ?j] b by (simp add: blk_ok_def)
  moreover have "m_size_index m1 = m_size_index m" by (simp add: m1_def init_readers_def)
  ultimately have ok: "mio_ok h1 m1" unfolding mio_ok_def m1 option.case using I p bj use by (auto simp: mio_inv_def mio_ok_def intro!: exI[of _ "[]"])
  have rd: "m_readers m1 ! i = (if rd_mbuf (m_readers m ! i) \<noteq> None \<and> rd_block (m_readers m ! i) = None
       then (m_readers m ! i)\<lparr>rd_block := Some ?j\<rparr> else m_readers m ! i)" if "i < MAX_MIOBUFFER_READERS" for i
    using that I by (simp add: m1_def init_readers_def mio_inv_def)
  have len: "length (m_readers m1) = MAX_MIOBUFFER_READERS" using I by (simp add: m1_def init_readers_def mio_inv_def)
  have R: "attached h1 m1 (m_readers m1 ! i) \<and> unread h1 (m_readers m1 ! i) = unread h (m_readers m ! i) @ blk_bytes h1 ?j"
    if i: "i < MAX_MIOBUFFER_READERS" "rd_mbuf (m_readers m ! i) \<noteq> None" for i
  proof -
    have at: "attached h m (m_readers m ! i)" using i I unfolding mio_inv_def by (simp only: fst_conv snd_conv) (metis nth_mem)
    then have bl: "rd_block (m_readers m ! i) = None" "rd_start_offset (m_readers m ! i) = 0" using w by (simp_all add: attached_def)
    have r1: "m_readers m1 ! i = (m_readers m ! i)\<lparr>rd_block := Some ?j\<rparr>" using rd[OF i(1)] i(2) bl by simp
    have "attached h1 m1 (m_readers m1 ! i)" by (rule attachedI[OF m1, of _ _ "[]" "[]"]) (use p bl r1 attachedD[OF at] in auto)
    moreover have "unread h1 (m_readers m1 ! i) = blk_bytes h1 ?j" "unread h (m_readers m ! i) = []"
      using chain_of_path[OF p] bl r1 by (simp_all add: unread_def)
    ultimately show ?thesis by simp
  qed
  have mb: "rd_mbuf (m_readers m1 ! i) = rd_mbuf (m_readers m ! i)" if "i < MAX_MIOBUFFER_READERS" for i using rd[OF that] by simp
  have "mio_inv (h1, m1)" unfolding mio_inv_def fst_conv snd_conv
  proof (intro conjI ballI impI)
    fix r assume "r \<in> set (m_readers m1)" "rd_mbuf r \<noteq> None"
    then show "attached h1 m1 r" using R len mb by (metis in_set_conv_nth)
  qed (use h1 ok len in simp_all)
  moreover have "chain_of h1 (Some ?j) = [?j]" by (rule chain_of_path[OF p])
  moreover have "m_id m1 = m_id m" "m_water_mark m1 = m_water_mark m" "m_size_index m1 = m_size_index m" by (simp_all add: m1_def init_readers_def)
  ultimately have "grows (blk_bytes h1 ?j) (h, m) (h1, m1)" unfolding grows_def fst_conv snd_conv m1 w using s1 R rd by auto
  moreover have "settled (h1, m1)" using ra m1 by (simp add: settled_def)
  ultimately show ?thesis using A by blast
qed

lemma share_ok:
  assumes I: "mio_inv (h, m)" and st: "settled (h, m)" and i: "i < length (blocks h)" and o: "0 \<le> off" "0 < n" "off + n \<le> blk_read_avail (blk h i)"
  shows "\<exists>s'. append_block_internal (length (blocks h)) (with_shared i off n h, m) = Some s' \<and>
    grows (take (nat n) (drop (nat off) (blk_bytes h i))) (h, m) s' \<and> settled s'"
proof -
  have h: "heap_ok h" using I by (simp add: mio_inv_def)
  note W = with_shared_ok[OF h i o]
  have b: "blocks (with_shared i off n h) = blocks h @ [shared i off n h]" by simp
  have nb: "b_next (shared i off n h) = None" "b_start (shared i off n h) < b_end (shared i off n h)" using o by (simp_all add: shared_def)
  show ?thesis
  proof (cases "m_writer m")
    case None
    show ?thesis using append_used_None[OF I None b W(1,2) nb] unfolding W(3) .
  next
    case (Some w)
    show ?thesis using append_used_Some[OF I st Some b W(1,2) nb] unfolding W(3) .
  qed
qed

lemma write_reader_loop_ok:
  assumes "mio_inv s" "settled s" "path (blocks (fst s)) p xs" "set xs \<inter> set (chain_of (fst s) (m_writer (snd s))) = {}" "0 \<le> offset" "0 \<le> len"
  shows "\<exists>s'. write_reader_loop p len offset s = Some (len - int (length (window len offset (chain_bytes (fst s) xs))), s') \<and>
    grows (window len offset (chain_bytes (fst s) xs)) s s' \<and> settled s'"
  using assms
proof (induction xs arbitrary: p len offset s)
  case Nil
  then show ?case using grows_refl[OF Nil.prems(1)] by (subst write_reader_loop.simps) (simp add: window_def)
next
  case (Cons x xs)
  obtain h m where s: "s = (h, m)" by (cases s)
  have I: "mio_inv (h, m)" and st: "settled (h, m)" and p: "p = Some x" and x: "x < length (blocks h)" and px: "path (blocks h) (b_next (blk h x)) xs"
    using Cons.prems unfolding s by simp_all
  have dj: "x \<notin> set (chain_of h (m_writer m))" "set xs \<inter> set (chain_of h (m_writer m)) = {}" using Cons.prems(4) unfolding s by auto
  have ok: "blk_ok h (blk h x)" using I x heap_okD by (simp add: mio_inv_def)
  note L = length_blk_bytes[OF ok]
  consider "len = 0" | "0 < len" "blk_read_avail (blk h x) \<le> offset" | "0 < len" "offset < blk_read_avail (blk h x)" using Cons.prems(6) by linarith
  then show ?case
  proof cases
    case 1
    then show ?thesis unfolding p using grows_refl[OF Cons.prems(1)] Cons.prems(2) by (subst write_reader_loop.simps) (simp add: window_def)
  next
    case 2
    have e: "write_reader_loop p len offset s = write_reader_loop (b_next (blk h x)) len (offset - blk_read_avail (blk h x)) s"
      unfolding p s using 2 by (subst write_reader_loop.simps) (simp add: Let_def)
    have "window len offset (chain_bytes h (x # xs)) = window len (offset - blk_read_avail (blk h x)) (chain_bytes h xs)"
      using window_skip[of "blk_bytes h x" offset len "chain_bytes h xs"] 2 L by simp
    then show ?thesis unfolding e using Cons.IH[OF Cons.prems(1,2), of "b_next (blk h x)" "offset - blk_read_avail (blk h x)" len] px dj 2 unfolding s by simp
  next
    case 3
    define n where "n = (if len < 0 \<or> len \<ge> blk_read_avail (blk h x) - offset then blk_read_avail (blk h x) - offset else len)"
    have n: "0 < n" "offset + n \<le> blk_read_avail (blk h x)" "n \<le> len" using 3 by (auto simp: n_def)
    define u where "u = take (nat n) (drop (nat offset) (blk_bytes h x))"
    obtain s' where A: "append_block_internal (length (blocks h)) (with_shared x offset n h, m) = Some s'" and G: "grows u (h, m) s'" and st': "settled s'"
      using share_ok[OF I st x Cons.prems(5) n(1,2)] unfolding u_def by blast
    obtain hc where cl: "blk_clone x h = (length (blocks h), hc)" using blk_clone_shared(1)[OF x] by (metis prod.collapse)
    note C = blk_clone_shared[OF x, unfolded cl snd_conv]
    have same: "same_blocks (set (chain_of h (m_writer m))) h (fst s')" using growsD(2)[OF G] by simp
    have bx: "blk (fst s') x = blk h x" using same x dj(1) by (simp add: same_blocks_def)
    have "write_reader_loop p len offset s = append_block_internal (length (blocks h)) (with_shared x offset n h, m) \<bind>
        (\<lambda>s'. write_reader_loop (b_next (blk (fst s') x)) (len - n) 0 s')"
      unfolding p s using 3 by (subst write_reader_loop.simps) (simp add: Let_def n_def cl C(2,3))
    then have e: "write_reader_loop p len offset s = write_reader_loop (b_next (blk h x)) (len - n) 0 s'" using A bx by simp
    note P = same_blocks_path[OF same px dj(2)]
    have d': "set xs \<inter> set (chain_of (fst s') (m_writer (snd s'))) = {}" using growsD(3)[OF G] dj(2) path_bound[OF px] by fastforce
    have W: "window len offset (chain_bytes h (x # xs)) = u @ window (len - n) 0 (chain_bytes h xs)"
      using window_part[of offset "blk_bytes h x" len n "chain_bytes h xs"] 3 Cons.prems(5) L unfolding n_def u_def by simp
    have lu: "int (length u) = n" using n L Cons.prems(5) by (simp add: u_def)
    obtain s2 where "write_reader_loop (b_next (blk h x)) (len - n) 0 s' = Some (len - n - int (length (window (len - n) 0 (chain_bytes h xs))), s2)"
      "grows (window (len - n) 0 (chain_bytes h xs)) s' s2" "settled s2"
      using Cons.IH[OF growsD(1)[OF G] st' P(1) d', of 0 "len - n"] n unfolding P(2) by auto
    then show ?thesis unfolding e using W lu grows_trans[OF G] unfolding s by (auto simp: algebra_simps)
  qed
qed

section \<open>Readers of a buffer\<close>

lemma moves_attached:
  assumes I: "mio_inv (h, m)" and a: "attached h m r" and mv: "moves h r r'" and ok: "reader_ok h r'"
  shows "attached h m r'"
proof (cases "m_writer m")
  case None
  then have n: "rd_block r = None" using a by (simp add: attached_def)
  then have b: "rd_block r' = None" using mv by (auto simp: moves_def)
  then have "rd_start_offset r' = 0" using ok by (simp add: reader_ok_def)
  then show ?thesis using None b ok by (simp add: attached_def reader_ok_def)
next
  case (Some w)
  obtain vs where v: "\<forall>v\<in>set vs. blk_read_avail (blk h v) = 0 \<and> 0 < blk_write_avail (blk h v)" "chain_of h (Some w) = w # vs"
    by (rule mio_inv_writer[OF I Some])
  obtain us where u: "path (blocks h) (rd_block r) (us @ w # vs)" "\<forall>i\<in>set (tl us). 0 < blk_read_avail (blk h i)"
    by (rule attached_writer[OF I a Some, unfolded v(2)])
  have ch: "chain_of h (rd_block r) = us @ w # vs" by (rule chain_of_path[OF u(1)])
  have lim: "0 \<le> rd_start_offset r'" "0 \<le> rd_size_limit r'" "rd_size_limit r' \<le> INK64_MAX"
    and off: "rd_start_offset r' \<le> int (length (chain_bytes h (chain_of h (rd_block r'))))"
    and pth: "path (blocks h) (rd_block r') (chain_of h (rd_block r'))" using ok by (simp_all add: reader_ok_def chain_ok_def)
  show ?thesis
  proof (cases "rd_block r' = rd_block r")
    case True
    then show ?thesis using attachedI[OF Some u(1)[folded True], of] u(2) off lim unfolding True ch by auto
  next
    case False
    then obtain ps i ys where P: "chain_of h (rd_block r) = ps @ i # ys" "rd_block r' = Some i" "chain_of h (Some i) = i # ys" "blk_read_avail (blk h i) \<noteq> 0"
      using mv by (auto simp: moves_def)
    have "i \<in> set (us @ [w])"
    proof (rule ccontr)
      assume "i \<notin> set (us @ [w])"
      then have "i \<in> set vs" using arg_cong[OF P(1)[unfolded ch], of set] by auto
      then show False using v(1) P(4) by auto
    qed
    then obtain qs zs where q: "us @ [w] = qs @ i # zs" by (auto simp: in_set_conv_decomp)
    have "qs @ i # zs @ vs = (us @ [w]) @ vs" unfolding q by simp
    also have "\<dots> = ps @ i # ys" using P(1) ch by simp
    finally have eq: "qs @ i # zs @ vs = ps @ i # ys" .
    have dist: "distinct (ps @ i # ys)" using path_distinct[OF u(1)] ch P(1) by simp
    have "qs = ps \<and> zs @ vs = ys" using dist eq append_Cons_eq_iff[of i ps ys qs "zs @ vs"] by auto
    then have iy: "i # ys = (i # zs) @ vs" by simp
    obtain us' where us': "i # zs = us' @ [w]" using q by (metis append_butlast_last_id last.simps last_appendR last_snoc list.distinct(1))
    then have c: "i # ys = us' @ w # vs" using iy by simp
    have tl: "0 < blk_read_avail (blk h j)" if "j \<in> set (tl us')" for j
    proof -
      have "us @ [w] = (qs @ us') @ [w]" using q us' by simp
      then have "us = qs @ us'" by simp
      then have "j \<in> set (tl us)" using that by (cases qs; cases us') auto
      then show ?thesis using u(2) by simp
    qed
    have "path (blocks h) (rd_block r') (us' @ w # vs)" using pth P(2,3) c by simp
    then show ?thesis by (rule attachedI[OF Some]) (use tl off lim P(2,3) c in auto)
  qed
qed

lemma mio_inv_put_reader:
  assumes I: "mio_inv (h, m)" and k: "k < MAX_MIOBUFFER_READERS" and a: "rd_mbuf r \<noteq> None \<Longrightarrow> attached h m r"
  shows "mio_inv (h, put_reader k r m)"
proof -
  have w: "m_writer (put_reader k r m) = m_writer m" "m_size_index (put_reader k r m) = m_size_index m" by (simp_all add: put_reader_def)
  have att: "attached h (put_reader k r m) q = attached h m q" for q by (simp add: attached_def w)
  have "attached h m q" if "q \<in> set (m_readers (put_reader k r m))" "rd_mbuf q \<noteq> None" for q
    using that I a set_update_subset_insert[of "m_readers m" k r] by (auto simp: put_reader_def mio_inv_def)
  then show ?thesis using I by (auto simp: mio_inv_def mio_ok_def w att) (simp_all add: put_reader_def)
qed

text \<open>A newly allocated buffer and a reader on it.\<close>

lemma new_MIOBuffer_ok:
  assumes h: "heap_ok h" and sz: "BUFFER_SIZE_ALLOCATED sz"
  shows "\<exists>h' m. new_MIOBuffer k sz h = Some (h', m) \<and> mio_inv (h', m) \<and> settled (h', m) \<and> m_id m = k \<and> m_size_index m = sz \<and>
    same_blocks {} h h' \<and> m_writer m = Some (length (blocks h)) \<and> chain_bytes h' (chain_of h' (m_writer m)) = [] \<and> chain_of h' (m_writer m) = [length (blocks h)] \<and>
    (\<forall>i<MAX_MIOBUFFER_READERS. rd_mbuf (m_readers m ! i) = None)"
proof -
  let ?j = "length (blocks h)" and ?h1 = "with_block sz h"
  let ?m = "init_readers ((new_empty_MIOBuffer k BUFFER_SIZE_NOT_ALLOCATED)\<lparr>m_writer := Some ?j, m_size_index := sz\<rparr>)"
  have al: "blk_alloc (length (blocks h)) sz (snd (new_IOBufferBlock h)) = Some ?h1" by (rule blk_alloc_new'[OF sz])
  have E: "new_MIOBuffer k sz h = Some (?h1, ?m)" using al by (simp add: new_MIOBuffer_def mio_alloc_def new_IOBufferBlock_def)
  note W = with_block_ok[OF h sz]
  have bj: "blk ?h1 ?j = \<lparr>b_data = Some (length (datas h)), b_start = 0, b_end = 0, b_buf_end = index_to_buffer_size sz, b_next = None\<rparr>"
    by (simp add: with_block_def)
  have p: "path (blocks ?h1) (Some ?j) [?j]" using bj by (simp add: with_block_def)
  have ok: "mio_ok ?h1 ?m" using sz p bj index_to_buffer_size_pos[OF sz] unfolding mio_ok_def by (auto simp: init_readers_def intro!: exI[of _ "[]"])
  have rd: "rd_mbuf r = None" if "r \<in> set (m_readers ?m)" for r using that by (auto simp: init_readers_def new_empty_MIOBuffer_def)
  have "mio_inv (?h1, ?m)" using W(1) ok rd by (auto simp: mio_inv_def) (simp add: init_readers_def new_empty_MIOBuffer_def)
  moreover have "settled (?h1, ?m)" using rd by (auto simp: settled_def split: option.split)
  moreover have "chain_bytes ?h1 (chain_of ?h1 (Some ?j)) = []"
    using chain_of_path[OF p] bj by (simp add: blk_bytes_def data_slice_def blk_read_avail_def)
  moreover have "\<forall>i<MAX_MIOBUFFER_READERS. rd_mbuf (m_readers ?m ! i) = None" using rd
    by (auto simp: init_readers_def new_empty_MIOBuffer_def)
  ultimately show ?thesis using E W(2) chain_of_path[OF p] by (intro exI[of _ ?h1] exI[of _ ?m]) (simp add: init_readers_def new_empty_MIOBuffer_def)
qed

end
