(* ===== verification/Io_Buffer_Api.thy ===== *)
theory Io_Buffer_Api
  imports Io_Buffer_Main
begin

text \<open>
  A buffer with its readers as a queue of bytes with several consumers: the contract
  \<open>byte_queue\<close>, its interpretation on \<^verbatim>\<open>MIOBuffer::write\<close> and \<^verbatim>\<open>IOBufferReader::read\<close>, and the
  theorems about buffers. The last section evaluates \<^verbatim>\<open>remove_append\<close> on a reader that has
  consumed its first block and shows that it returns bytes from before the data.
\<close>

definition reader_of :: "ioheap \<times> mio \<Rightarrow> nat \<Rightarrow> reader" where
  "reader_of s k = m_readers (snd s) ! k"

definition queue_ok :: "ioheap \<times> mio \<Rightarrow> nat \<Rightarrow> bool" where
  "queue_ok s k \<longleftrightarrow> mio_inv s \<and> k < MAX_MIOBUFFER_READERS \<and> rd_mbuf (reader_of s k) \<noteq> None \<and> rd_size_limit (reader_of s k) = INK64_MAX"

definition queue_bytes :: "ioheap \<times> mio \<Rightarrow> nat \<Rightarrow> u8 list" where
  "queue_bytes s k = unread (fst s) (reader_of s k)"

definition queue_put :: "u8 list \<Rightarrow> ioheap \<times> mio \<Rightarrow> (ioheap \<times> mio) option" where
  "queue_put bs s = map_option snd (mio_write bs s)"

definition queue_get :: "nat \<Rightarrow> int \<Rightarrow> ioheap \<times> mio \<Rightarrow> (u8 list \<times> ioheap \<times> mio) option" where
  "queue_get k n s = map_option (\<lambda>(bs, r, c). (bs, fst s, put_reader k r (snd s))) (reader_read (fst s) (reader_of s k) n)"

definition empty_heap :: ioheap where
  "empty_heap = \<lparr>datas = [], blocks = [], accessors = [], junk = (\<lambda>k i. 255)\<rparr>"

text \<open>A buffer with blocks of \<open>n\<close> bytes and one reader.\<close>

definition sample_buf :: "nat \<Rightarrow> ioheap \<times> mio" where
  "sample_buf n = (let (h, m) = the (new_MIOBuffer 0 (- int n) empty_heap) in (h, snd (the (alloc_reader m))))"

text \<open>Two readers on it.\<close>

definition sample_buf2 :: "nat \<Rightarrow> ioheap \<times> mio" where
  "sample_buf2 n = (let (h, m) = sample_buf n in (h, snd (the (alloc_reader m))))"

text \<open>The first block has been read, the second holds one byte.\<close>

definition consumed_buf :: "ioheap \<times> mio" where
  "consumed_buf = (case mio_write [1, 2] (sample_buf 2) of Some (_, h, m) \<Rightarrow>
     (case reader_consume h (m_readers m ! 0) 2 of Some r \<Rightarrow> snd (the (mio_write [3] (h, put_reader 0 r m)))))"

declare skip_empty_blocks.simps [code] consume_loop.simps [code] read_loop.simps [code] write_loop.simps [code] block_walk.simps [code]
  append_advance.simps [code] writer_advance.simps [code] remove_append_loop.simps [code] write_reader_loop.simps [code]
  memchr_loop.simps [code] memcpy_loop.simps [code] at_loop.simps [code] clone_loop.simps [code] skip_loop.simps [code] fill_loop.simps [code]

section \<open>The contract\<close>

locale byte_queue =
  fixes ok :: "'s \<Rightarrow> nat \<Rightarrow> bool" and content :: "'s \<Rightarrow> nat \<Rightarrow> u8 list"
    and put :: "u8 list \<Rightarrow> 's \<Rightarrow> 's option" and get :: "nat \<Rightarrow> int \<Rightarrow> 's \<Rightarrow> (u8 list \<times> 's) option"
  assumes put_law: "ok s k \<Longrightarrow> \<exists>s'. put bs s = Some s' \<and> (\<forall>j. ok s j \<longrightarrow> ok s' j \<and> content s' j = content s j @ bs)"
    and get_law: "ok s k \<Longrightarrow> 0 \<le> n \<Longrightarrow> \<exists>s'. get k n s = Some (take (nat n) (content s k), s') \<and>
      (\<forall>j. ok s j \<longrightarrow> ok s' j \<and> content s' j = (if j = k then drop (nat n) (content s j) else content s j))"
begin

fun put_all :: "u8 list list \<Rightarrow> 's \<Rightarrow> 's option" where
  "put_all [] s = Some s"
| "put_all (bs # bss) s = Option.bind (put bs s) (put_all bss)"

lemma put_all_content:
  "ok s k \<Longrightarrow> \<exists>s'. put_all bss s = Some s' \<and> (\<forall>j. ok s j \<longrightarrow> ok s' j \<and> content s' j = content s j @ concat bss)"
proof (induction bss arbitrary: s)
  case (Cons bs bss)
  obtain s1 where s1: "put bs s = Some s1" "\<forall>j. ok s j \<longrightarrow> ok s1 j \<and> content s1 j = content s j @ bs" using put_law[OF Cons.prems] by blast
  obtain s2 where "put_all bss s1 = Some s2" "\<forall>j. ok s1 j \<longrightarrow> ok s2 j \<and> content s2 j = content s1 j @ concat bss"
    using Cons.IH[of s1] s1 Cons.prems by blast
  then show ?case using s1 by auto
qed simp

text \<open>Two consumers each get everything, independently of one another and of how it was put.\<close>

lemma two_readers:
  assumes "ok s j" "ok s k" "j \<noteq> k" "content s j = []" "content s k = []" "n = int (length (concat bss))"
  shows "\<exists>s1 s2 s3. put_all bss s = Some s1 \<and> get j n s1 = Some (concat bss, s2) \<and> get k n s2 = Some (concat bss, s3) \<and>
    content s3 j = [] \<and> content s3 k = []"
proof -
  obtain s1 where s1: "put_all bss s = Some s1" "ok s1 j" "ok s1 k" "content s1 j = concat bss" "content s1 k = concat bss"
    using put_all_content[OF assms(1), of bss] assms by auto
  obtain s2 where s2: "get j n s1 = Some (concat bss, s2)" "ok s2 j" "ok s2 k" "content s2 j = []" "content s2 k = concat bss"
    using get_law[OF s1(2), of n] s1 assms(3,6) by auto
  obtain s3 where "get k n s2 = Some (concat bss, s3)" "content s3 k = []" "content s3 j = []"
    using get_law[OF s2(3), of n] s2 assms(3,6) by auto
  then show ?thesis using s1 s2 by blast
qed

end

lemma mio_write_ok:
  assumes "mio_inv s"
  shows "\<exists>s'. mio_write bs s = Some (int (length bs), s') \<and> grows bs s s' \<and> (settled s \<longrightarrow> settled s')"
  using write_loop_ok[OF assms, of bs] by (auto simp: mio_write_def)

lemma mio_write_reader_ok:
  assumes "mio_inv (h, m)" "settled (h, m)" "reader_ok h r" "set (chain_of h (rd_block r)) \<inter> set (chain_of h (m_writer m)) = {}" "0 \<le> offset" "0 \<le> len"
  shows "\<exists>s'. mio_write_reader r len offset (h, m) = Some (int (length (window len offset (unread h r))), s') \<and>
    grows (window len offset (unread h r)) (h, m) s' \<and> settled s'"
proof -
  have o: "0 \<le> rd_start_offset r" "path (blocks h) (rd_block r) (chain_of h (rd_block r))" using assms(3) by (simp_all add: reader_ok_def chain_ok_def)
  have "window len (offset + rd_start_offset r) (chain_bytes h (chain_of h (rd_block r))) = window len offset (unread h r)"
    using assms(5) o by (simp add: window_def unread_def nat_add_distrib)
  then show ?thesis using write_reader_loop_ok[of "(h, m)" "rd_block r" "chain_of h (rd_block r)" "offset + rd_start_offset r" len] assms o
    by (auto simp: mio_write_reader_def)
qed

lemma queue_reader_ok: "queue_ok s k \<Longrightarrow> attached (fst s) (snd s) (reader_of s k) \<and> reader_ok (fst s) (reader_of s k) \<and> readable (fst s) (reader_of s k) = queue_bytes s k"
proof -
  assume q: "queue_ok s k"
  then have m: "reader_of s k \<in> set (m_readers (snd s))" by (simp add: queue_ok_def mio_inv_def reader_of_def)
  then have a: "attached (fst s) (snd s) (reader_of s k)" using q by (simp add: queue_ok_def mio_inv_def)
  then show ?thesis using attached_reader_ok[of "fst s" "snd s"] q by (simp add: queue_ok_def readable_def queue_bytes_def)
qed

interpretation mioq: byte_queue queue_ok queue_bytes queue_put queue_get
proof (unfold_locales, goal_cases)
  case (1 s k bs)
  then obtain s' where W: "mio_write bs s = Some (int (length bs), s')" and G: "grows bs s s'"
    using mio_write_ok[of s bs] by (auto simp: queue_ok_def)
  have "queue_ok s' j \<and> queue_bytes s' j = queue_bytes s j @ bs" if "queue_ok s j" for j
    using growsD(7)[OF G, rule_format, of j] growsD(1)[OF G] that by (simp add: queue_ok_def queue_bytes_def reader_of_def)
  then show ?case using W by (auto simp: queue_put_def)
next
  case (2 s k n)
  obtain h m where s: "s = (h, m)" by (cases s)
  note Q = queue_reader_ok[OF 2(1)]
  obtain r' where R: "reader_read h (reader_of s k) n = Some (take (nat n) (queue_bytes s k), r', min n (int (length (queue_bytes s k))))"
    and r': "reader_ok h r'" "readable h r' = drop (nat n) (queue_bytes s k)" "moves h (reader_of s k) r'" "rd_mbuf r' = rd_mbuf (reader_of s k)" "rd_size_limit r' = INK64_MAX"
    using reader_read_ok[of h "reader_of s k" n] Q 2 unfolding s by (auto simp: queue_ok_def)
  have at: "attached h m r'" using moves_attached[of h m "reader_of s k" r'] r' Q 2(1) unfolding s by (simp add: queue_ok_def)
  have k: "k < length (m_readers m)" "k < MAX_MIOBUFFER_READERS" using 2(1) by (simp_all add: queue_ok_def mio_inv_def s)
  have I: "mio_inv (h, put_reader k r' m)" using mio_inv_put_reader[of h m k r'] 2(1) at k by (simp add: queue_ok_def s)
  have rd: "reader_of (h, put_reader k r' m) j = (if j = k then r' else reader_of s j)" for j
    using k by (simp add: reader_of_def put_reader_def s nth_list_update)
  have "unread h r' = drop (nat n) (queue_bytes s k)" using r' by (simp add: readable_def)
  then have "queue_ok (h, put_reader k r' m) j \<and> queue_bytes (h, put_reader k r' m) j = (if j = k then drop (nat n) (queue_bytes s j) else queue_bytes s j)"
    if "queue_ok s j" for j
    using that I r' rd[of j] 2(1) unfolding queue_ok_def queue_bytes_def by (auto simp: s)
  then show ?case using R by (auto simp: queue_get_def s)
qed

text \<open>A reader whose blocks a step does not touch is not affected by it.\<close>

lemma reader_frame:
  assumes ok: "reader_ok h r" and sb: "same_blocks S h h'" and h': "heap_ok h'" and d: "set (chain_of h (rd_block r)) \<inter> S = {}"
  shows "reader_ok h' r" "unread h' r = unread h r" "readable h' r = readable h r" "chain_of h' (rd_block r) = chain_of h (rd_block r)"
proof -
  have p: "path (blocks h) (rd_block r) (chain_of h (rd_block r))" using ok by (simp add: reader_ok_def chain_ok_def)
  note P = same_blocks_path[OF sb p d]
  show c: "chain_of h' (rd_block r) = chain_of h (rd_block r)" by (rule chain_of_path[OF P(1)])
  have av: "blk_read_avail (blk h' i) = blk_read_avail (blk h i)" if "i \<in> set (chain_of h (rd_block r))" for i
    using that d path_bound[OF p] sb by (auto simp: same_blocks_def)
  have "\<And>i. i \<in> set (tl (chain_of h (rd_block r))) \<Longrightarrow> blk_read_avail (blk h' i) = blk_read_avail (blk h i)"
    using av by (metis list.sel(2) list.set_sel(2))
  moreover have "packed h (tl (chain_of h (rd_block r)))" using ok by (simp add: reader_ok_def)
  ultimately have "packed h' (tl (chain_of h (rd_block r)))" unfolding packed_def by (metis Un_iff set_append)
  then show "reader_ok h' r" using ok heap_ok_chain[OF h' P(1)] P(2) by (simp add: reader_ok_def c)
  show u: "unread h' r = unread h r" by (simp add: unread_def c P(2))
  show "readable h' r = readable h r" by (simp add: readable_def u)
qed

section \<open>Allocation\<close>

lemma alloc_reader_ok:
  assumes I: "mio_inv (h, m)" and f: "free_reader m = Some i"
  shows "\<exists>m'. alloc_reader m = Some (i, m') \<and> mio_inv (h, m') \<and> i < MAX_MIOBUFFER_READERS \<and> queue_ok (h, m') i \<and>
    queue_bytes (h, m') i = chain_bytes h (chain_of h (m_writer m))"
proof -
  define r where "r = (reader_reset (m_writer m) ((m_readers m ! i)\<lparr>rd_mbuf := Some (m_id m)\<rparr>))\<lparr>rd_accessor := None\<rparr>"
  have i: "i < MAX_MIOBUFFER_READERS" using f by (auto simp: free_reader_def find_Some_iff)
  have r: "rd_block r = m_writer m" "rd_start_offset r = 0" "rd_size_limit r = INK64_MAX" "rd_mbuf r \<noteq> None" by (simp_all add: r_def reader_reset_def)
  have "attached h m r"
  proof (cases "m_writer m")
    case None
    then show ?thesis using r by (simp add: attached_def INK64_MAX_def)
  next
    case (Some w)
    obtain vs where "path (blocks h) (Some w) (w # vs)" by (rule mio_inv_writer[OF I Some])
    then show ?thesis by (intro attachedI[OF Some, of _ _ "[]" vs]) (use r Some in \<open>simp_all add: INK64_MAX_def\<close>)
  qed
  then have I': "mio_inv (h, put_reader i r m)" by (rule mio_inv_put_reader[OF I i])
  have "reader_of (h, put_reader i r m) i = r" using i I by (simp add: reader_of_def put_reader_def mio_inv_def)
  then show ?thesis using f i I' r by (simp add: alloc_reader_def r_def[symmetric] queue_ok_def queue_bytes_def unread_def)
qed

lemma sample_ok:
  assumes "0 < n"
  shows "queue_ok (sample_buf n) 0" "queue_bytes (sample_buf n) 0 = []" "settled (sample_buf n)"
    "m_writer (snd (sample_buf n)) = Some 0" "rd_block (reader_of (sample_buf n) 0) = Some 0" "rd_start_offset (reader_of (sample_buf n) 0) = 0"
    "\<And>i. i < MAX_MIOBUFFER_READERS \<Longrightarrow> 0 < i \<Longrightarrow> rd_mbuf (reader_of (sample_buf n) i) = None"
proof -
  have h: "heap_ok empty_heap" by (simp add: heap_ok_def empty_heap_def)
  have sz: "BUFFER_SIZE_ALLOCATED (- int n)" using assms by (simp add: BUFFER_SIZE_ALLOCATED_def BUFFER_SIZE_INDEX_IS_XMALLOCED_def)
  obtain h' m where N: "new_MIOBuffer 0 (- int n) empty_heap = Some (h', m)" "mio_inv (h', m)" "m_writer m = Some 0"
    "chain_bytes h' (chain_of h' (m_writer m)) = []" "\<forall>i<MAX_MIOBUFFER_READERS. rd_mbuf (m_readers m ! i) = None"
    using new_MIOBuffer_ok[OF h sz, of 0] by (auto simp: empty_heap_def)
  have "[0..<MAX_MIOBUFFER_READERS] = 0 # [1..<MAX_MIOBUFFER_READERS]" by (simp add: upt_rec MAX_MIOBUFFER_READERS_def)
  then have f: "free_reader m = Some 0" using N(5) by (simp add: free_reader_def MAX_MIOBUFFER_READERS_def)
  obtain m' where A: "alloc_reader m = Some (0, m')" "queue_ok (h', m') 0" "queue_bytes (h', m') 0 = []" using alloc_reader_ok[OF N(2) f] N(4) by auto
  have e: "sample_buf n = (h', m')" using N(1) A(1) by (simp add: sample_buf_def)
  show "queue_ok (sample_buf n) 0" "queue_bytes (sample_buf n) 0 = []" using A unfolding e by auto
  have R: "rd_block (m_readers m' ! 0) = Some 0 \<and> rd_start_offset (m_readers m' ! 0) = 0 \<and> m_writer m' = Some 0 \<and> (\<forall>i<MAX_MIOBUFFER_READERS. 0 < i \<longrightarrow> rd_mbuf (m_readers m' ! i) = None)"
    using A(1) N(2,3,5) f by (auto simp: alloc_reader_def put_reader_def reader_reset_def mio_inv_def MAX_MIOBUFFER_READERS_def)
  then show "m_writer (snd (sample_buf n)) = Some 0" "rd_block (reader_of (sample_buf n) 0) = Some 0" "rd_start_offset (reader_of (sample_buf n) 0) = 0"
    "\<And>i. i < MAX_MIOBUFFER_READERS \<Longrightarrow> 0 < i \<Longrightarrow> rd_mbuf (reader_of (sample_buf n) i) = None" unfolding e by (simp_all add: reader_of_def)
  have "length (m_readers m') = MAX_MIOBUFFER_READERS" using A(2) by (simp add: queue_ok_def mio_inv_def)
  then show "settled (sample_buf n)" using R unfolding e by (auto simp: settled_def in_set_conv_nth) (metis gr0I option.distinct(1))
qed

lemma sample2_ok:
  assumes "0 < n"
  shows "queue_ok (sample_buf2 n) 0" "queue_ok (sample_buf2 n) 1" "queue_bytes (sample_buf2 n) 0 = []" "queue_bytes (sample_buf2 n) 1 = []"
proof -
  obtain h m where s: "sample_buf n = (h, m)" by (cases "sample_buf n")
  note S = sample_ok[OF assms, unfolded s]
  have I: "mio_inv (h, m)" and l: "length (m_readers m) = MAX_MIOBUFFER_READERS" using S(1) by (simp_all add: queue_ok_def mio_inv_def)
  have r: "rd_mbuf (m_readers m ! 1) = None \<and> rd_mbuf (m_readers m ! 0) \<noteq> None \<and> m_writer m = Some 0 \<and> rd_block (m_readers m ! 0) = Some 0 \<and> rd_start_offset (m_readers m ! 0) = 0"
    using S(1,4-6) S(7)[of 1] by (simp add: queue_ok_def reader_of_def MAX_MIOBUFFER_READERS_def)
  have f: "free_reader m = Some 1" using r by (simp add: free_reader_def MAX_MIOBUFFER_READERS_def upt_rec)
  obtain m' where A: "alloc_reader m = Some (1, m')" "queue_ok (h, m') 1" "queue_bytes (h, m') 1 = chain_bytes h (chain_of h (m_writer m))"
    using alloc_reader_ok[OF I f] by blast
  have e: "sample_buf2 n = (h, m')" using A(1) s by (simp add: sample_buf2_def)
  have z: "m_readers m' ! 0 = m_readers m ! 0" using A(1) f by (auto simp: alloc_reader_def put_reader_def)
  have b: "chain_bytes h (chain_of h (Some 0)) = []" using S(2) r by (simp add: queue_bytes_def reader_of_def unread_def)
  show "queue_ok (sample_buf2 n) 1" "queue_bytes (sample_buf2 n) 1 = []" using A r b unfolding e by simp_all
  show "queue_ok (sample_buf2 n) 0" "queue_bytes (sample_buf2 n) 0 = []"
    using S(1,2) A(2) z unfolding e by (simp_all add: queue_ok_def queue_bytes_def reader_of_def)
qed

text \<open>\<^verbatim>\<open>realloc(void*, ink64)\<close> marks the new memory as a constant of size 0, so no room is left in it.\<close>

lemma realloc_no_room:
  assumes "i < length (blocks h)" "blk_realloc i mem n h = Some h'"
  shows "blk_write_avail (blk h' i) = - blk_size (blk h i)"
  using assms by (auto simp: blk_realloc_def blk_realloc_set_internal_def blk_set_internal_def new_IOBufferData_def blk_reset_def put_blk_def
      blk_clear_def data_block_size_def index_to_buffer_size_def BUFFER_SIZE_NOT_ALLOCATED_def DEFAULT_BUFFER_SIZES_def
      BUFFER_SIZE_INDEX_IS_FAST_ALLOCATED_def BUFFER_SIZE_INDEX_IS_XMALLOCED_def BUFFER_SIZE_INDEX_IS_CONSTANT_def blk_write_avail_def Let_def)

section \<open>Theorems\<close>

lemma size_to_index_least:
  "size_to_index_loop n mx \<le> mx \<and> (n \<le> 128 * 2 ^ mx \<longrightarrow> n \<le> 128 * 2 ^ size_to_index_loop n mx) \<and>
   (\<forall>i < size_to_index_loop n mx. 128 * 2 ^ i < n)"
proof (induction mx)
  case (Suc mx)
  have mono: "(128 :: int) * 2 ^ i \<le> 128 * 2 ^ mx" if "i \<le> mx" for i using that by simp
  show ?case
  proof (cases "128 * 2 ^ mx \<ge> n")
    case True
    then show ?thesis using Suc by (auto simp: BUFFER_SIZE_FOR_INDEX_def)
  next
    case False
    then have "128 * 2 ^ i < n" if "i \<le> mx" for i using mono[OF that] by linarith
    then show ?thesis using False by (auto simp: BUFFER_SIZE_FOR_INDEX_def less_Suc_eq_le)
  qed
qed simp

text \<open>C3: \<^verbatim>\<open>MIOBuffer::write\<close> of any bytes into a buffer that satisfies the invariant returns, with
  the number of bytes; every reader of the buffer then has exactly these bytes more to read,
  behind what it had before; the invariant holds again and no block outside the chain of the
  writer changes.\<close>

theorem MIOBuffer_write_appends:
  assumes "mio_inv (h, m)"
  shows "\<exists>h' m'. mio_write bs (h, m) = Some (int (length bs), h', m') \<and> mio_inv (h', m') \<and>
    (\<forall>i<MAX_MIOBUFFER_READERS. rd_mbuf (m_readers m ! i) \<noteq> None \<longrightarrow>
       unread h' (m_readers m' ! i) = unread h (m_readers m ! i) @ bs) \<and>
    same_blocks (set (chain_of h (m_writer m))) h h'"
proof -
  obtain s' where "mio_write bs (h, m) = Some (int (length bs), s')" and G: "grows bs (h, m) s'" using mio_write_ok[OF assms] by blast
  then show ?thesis using growsD(1,2,7)[OF G] by (cases s') simp
qed

theorem MIOBuffer_write_appends_witness:
  "\<exists>h' m'. mio_write [1, 2, 3] (sample_buf 2) = Some (3, h', m') \<and> unread h' (m_readers m' ! 0) = [1, 2, 3]"
proof -
  obtain h m where s: "sample_buf 2 = (h, m)" by (cases "sample_buf 2")
  have "mio_inv (h, m)" "rd_mbuf (m_readers m ! 0) \<noteq> None" "unread h (m_readers m ! 0) = []"
    using sample_ok(1,2)[of 2] by (simp_all add: s queue_ok_def queue_bytes_def reader_of_def)
  then show ?thesis using MIOBuffer_write_appends[of h m "[1, 2, 3]"] unfolding s by (auto simp: MAX_MIOBUFFER_READERS_def)
qed

text \<open>C10: \<^verbatim>\<open>IOBufferReader::read\<close> returns, copies the next bytes the reader may see, as many as are
  asked for or available, and leaves the reader with exactly the rest.\<close>

theorem IOBufferReader_read_takes:
  assumes "reader_ok h r" "0 \<le> len"
  shows "\<exists>r'. reader_read h r len = Some (take (nat len) (readable h r), r', min len (int (length (readable h r)))) \<and>
    reader_ok h r' \<and> readable h r' = drop (nat len) (readable h r)"
  using reader_read_ok[OF assms] by blast

theorem IOBufferReader_read_takes_witness:
  "\<exists>r'. reader_read (fst (sample_buf 2)) (reader_of (sample_buf 2) 0) 5 = Some ([], r', 0)"
proof -
  have q: "reader_ok (fst (sample_buf 2)) (reader_of (sample_buf 2) 0)" "readable (fst (sample_buf 2)) (reader_of (sample_buf 2) 0) = []"
    using queue_reader_ok[OF sample_ok(1)[of 2]] sample_ok(2)[of 2] by simp_all
  then show ?thesis using IOBufferReader_read_takes[OF q(1), of 5] by auto
qed

text \<open>C18: \<^verbatim>\<open>IOBufferReader::memchr\<close> over the chain of blocks agrees with \<^verbatim>\<open>memchr\<close> over the unread
  bytes laid out in one piece: the position of the first occurrence at or after the offset within
  the length, counted from the reader's position, or -1.\<close>

theorem IOBufferReader_memchr_flat:
  assumes "reader_ok h r" "0 \<le> offset"
  shows "reader_memchr h r c len offset =
    Some (case ink_memchr c (window len offset (unread h r)) of Some k \<Rightarrow> offset + int k | None \<Rightarrow> -1)"
  by (rule reader_memchr_ok[OF assms])

theorem IOBufferReader_memchr_flat_witness:
  "reader_memchr (fst (sample_buf 2)) (reader_of (sample_buf 2) 0) 10 (-1) 0 = Some (-1)"
proof -
  have q: "reader_ok (fst (sample_buf 2)) (reader_of (sample_buf 2) 0)" "unread (fst (sample_buf 2)) (reader_of (sample_buf 2) 0) = []"
    using queue_reader_ok[OF sample_ok(1)[of 2]] sample_ok(2)[of 2] by (simp_all add: queue_bytes_def)
  show ?thesis using IOBufferReader_memchr_flat[OF q(1), of 0 10 "-1"] q(2) by (simp add: window_def ink_memchr_def)
qed





text \<open>\<^verbatim>\<open>buffer_size_to_index\<close> returns the least index whose buffers hold the size, for sizes up
  to the largest buffer.\<close>

theorem buffer_size_to_index_least:
  assumes "0 \<le> mx" "n \<le> BUFFER_SIZE_FOR_INDEX mx"
  shows "0 \<le> buffer_size_to_index n mx \<and> buffer_size_to_index n mx \<le> mx \<and> n \<le> BUFFER_SIZE_FOR_INDEX (buffer_size_to_index n mx) \<and>
    (\<forall>i. 0 \<le> i \<and> i < buffer_size_to_index n mx \<longrightarrow> BUFFER_SIZE_FOR_INDEX i < n)"
proof -
  note L = size_to_index_least[of n "nat mx"]
  have "BUFFER_SIZE_FOR_INDEX i < n" if i: "0 \<le> i" "i < buffer_size_to_index n mx" for i
  proof -
    have "nat i < size_to_index_loop n (nat mx)" using i by (simp add: buffer_size_to_index_def)
    then show ?thesis using L by (simp add: BUFFER_SIZE_FOR_INDEX_def)
  qed
  then show ?thesis using L assms by (auto simp: buffer_size_to_index_def BUFFER_SIZE_FOR_INDEX_def)
qed

theorem buffer_size_to_index_least_witness: "2000 \<le> BUFFER_SIZE_FOR_INDEX (buffer_size_to_index 2000 9)"
  using buffer_size_to_index_least[of 9 2000] by (simp add: BUFFER_SIZE_FOR_INDEX_def)



end
