(* ===== verification/Parse_Rules.thy ===== *)
theory Parse_Rules
  imports Prelude
begin

unbundle bit_operations_syntax

text \<open>
  The character classes of \<^verbatim>\<open>ParseRules\<close> and the routines on character buffers and strings built
  on them (\<^verbatim>\<open>libinktomi++/ParseRules.h\<close>, \<^verbatim>\<open>ParseRules.cc\<close>, \<^verbatim>\<open>CompileParseRules.cc\<close>). Each test has two
  bodies: \<open>is_X_rule\<close> is the one under \<^verbatim>\<open>COMPILE_PARSE_RULES\<close>, from which \<^verbatim>\<open>CompileParseRules\<close> builds the
  table \<^verbatim>\<open>parseRulesCType\<close>, and \<open>is_X\<close> is the lookup of the released program. A \<^verbatim>\<open>char\<close> is a \<^typ>\<open>u8\<close>;
  where its sign is tested, \<open>sint\<close> reads it. A C string is the list of its characters, and reading
  at the end of the list gives the terminating 0.
\<close>

section \<open>The rules\<close>

definition is_char_rule :: "u8 \<Rightarrow> bool" where
  "is_char_rule c \<longleftrightarrow> sint c \<ge> 0 \<and> c \<le> 127"

definition is_upalpha_rule :: "u8 \<Rightarrow> bool" where
  "is_upalpha_rule c \<longleftrightarrow> sint c \<ge> 0x41 \<and> sint c \<le> 0x5A"

definition is_loalpha_rule :: "u8 \<Rightarrow> bool" where
  "is_loalpha_rule c \<longleftrightarrow> sint c \<ge> 0x61 \<and> sint c \<le> 0x7A"

definition is_alpha_rule :: "u8 \<Rightarrow> bool" where
  "is_alpha_rule c \<longleftrightarrow> is_upalpha_rule c \<or> is_loalpha_rule c"

definition is_digit_rule :: "u8 \<Rightarrow> bool" where
  "is_digit_rule c \<longleftrightarrow> sint c \<ge> 0x30 \<and> sint c \<le> 0x39"

definition is_alnum_rule :: "u8 \<Rightarrow> bool" where
  "is_alnum_rule c \<longleftrightarrow> is_alpha_rule c \<or> is_digit_rule c"

definition is_ctl_rule :: "u8 \<Rightarrow> bool" where
  "is_ctl_rule c \<longleftrightarrow> (sint c \<ge> 0 \<and> sint c \<le> 31) \<or> c = 127"

definition CHAR_SP :: u8 where "CHAR_SP = 32"
definition CHAR_HT :: u8 where "CHAR_HT = 9"
definition CHAR_LF :: u8 where "CHAR_LF = 10"
definition CHAR_VT :: u8 where "CHAR_VT = 11"
definition CHAR_NP :: u8 where "CHAR_NP = 12"
definition CHAR_CR :: u8 where "CHAR_CR = 13"

lemmas char_defs = CHAR_SP_def CHAR_HT_def CHAR_LF_def CHAR_VT_def CHAR_NP_def CHAR_CR_def

definition is_ws_rule :: "u8 \<Rightarrow> bool" where
  "is_ws_rule c \<longleftrightarrow> c = CHAR_SP \<or> c = CHAR_HT"

definition is_hex_rule :: "u8 \<Rightarrow> bool" where
  "is_hex_rule c \<longleftrightarrow> (sint c \<ge> 0x41 \<and> sint c \<le> 0x46) \<or> (sint c \<ge> 0x61 \<and> sint c \<le> 0x66) \<or> (sint c \<ge> 0x30 \<and> sint c \<le> 0x39)"

definition is_cr :: "u8 \<Rightarrow> bool" where
  "is_cr c \<longleftrightarrow> c = CHAR_CR"

definition is_lf :: "u8 \<Rightarrow> bool" where
  "is_lf c \<longleftrightarrow> c = CHAR_LF"

definition is_splf_rule :: "u8 \<Rightarrow> bool" where
  "is_splf_rule c \<longleftrightarrow> c = CHAR_SP \<or> c = CHAR_LF"

definition is_spcr_rule :: "u8 \<Rightarrow> bool" where
  "is_spcr_rule c \<longleftrightarrow> c = CHAR_SP \<or> c = CHAR_CR"

definition is_wslfcr_rule :: "u8 \<Rightarrow> bool" where
  "is_wslfcr_rule c \<longleftrightarrow> is_ws_rule c \<or> is_splf_rule c \<or> is_spcr_rule c"

text \<open>The \<^verbatim>\<open>switch\<close> statements, their cases in the order of the source.\<close>

definition is_extra_rule :: "u8 \<Rightarrow> bool" where
  "is_extra_rule c \<longleftrightarrow> c \<in> set [0x21, 0x2A, 0x27, 0x28, 0x29, 0x2C]"

definition is_safe_rule :: "u8 \<Rightarrow> bool" where
  "is_safe_rule c \<longleftrightarrow> c = 0x24 \<or> c = 0x2D \<or> c = 0x5F \<or> c = 0x2E \<or> c = 0x2B"

definition is_unsafe_rule :: "u8 \<Rightarrow> bool" where
  "is_unsafe_rule c \<longleftrightarrow> is_ctl_rule c \<or> c \<in> set [0x20, 0x22, 0x23, 0x25, 0x3C, 0x3E]"

definition is_reserved_rule :: "u8 \<Rightarrow> bool" where
  "is_reserved_rule c \<longleftrightarrow> c \<in> set [0x3B, 0x2F, 0x3F, 0x3A, 0x40, 0x26, 0x3D]"

definition is_national_rule :: "u8 \<Rightarrow> bool" where
  "is_national_rule c \<longleftrightarrow> c \<in> set [0x7B, 0x7D, 0x7C, 0x5C, 0x5E, 0x7E, 0x5B, 0x5D, 0x60]"

definition is_unreserved_rule :: "u8 \<Rightarrow> bool" where
  "is_unreserved_rule c \<longleftrightarrow> is_alpha_rule c \<or> is_digit_rule c \<or> is_safe_rule c \<or> is_extra_rule c \<or> is_national_rule c"

definition is_punct_rule :: "u8 \<Rightarrow> bool" where
  "is_punct_rule c \<longleftrightarrow> c \<in> set [0x21, 0x22, 0x23, 0x25, 0x26, 0x27, 0x28, 0x29, 0x2A, 0x2B, 0x2C, 0x2D, 0x2E, 0x2F,
     0x3A, 0x3B, 0x3C, 0x3D, 0x3E, 0x3F, 0x40, 0x5B, 0x5C, 0x5D, 0x5E, 0x5F, 0x60, 0x7B, 0x7C, 0x7D, 0x7E]"

definition is_end_of_url_rule :: "u8 \<Rightarrow> bool" where
  "is_end_of_url_rule c \<longleftrightarrow> c = 0 \<or> c = 10 \<or> c = 32 \<or> is_ctl_rule c"

text \<open>\<^verbatim>\<open>is_pchar\<close> of a one-character sequence, as \<^verbatim>\<open>CompileParseRules\<close> calls it.\<close>

definition is_pchar_rule :: "u8 \<Rightarrow> bool" where
  "is_pchar_rule c \<longleftrightarrow> is_unreserved_rule c \<or> c \<in> set [0x3A, 0x40, 0x26, 0x3D, 0x2B]"

definition is_tspecials_rule :: "u8 \<Rightarrow> bool" where
  "is_tspecials_rule c \<longleftrightarrow> c \<in> set [0x28, 0x29, 0x3C, 0x3E, 0x40, 0x2C, 0x3B, 0x3A, 0x5C, 0x22, 0x2F, 0x5B, 0x5D, 0x3F, 0x3D, 0x7B, 0x7D,
     CHAR_SP, CHAR_HT]"

definition is_token_rule :: "u8 \<Rightarrow> bool" where
  "is_token_rule c \<longleftrightarrow> is_char_rule c \<and> \<not> (is_ctl_rule c \<or> is_tspecials_rule c)"

definition ink_toupper_rule :: "u8 \<Rightarrow> u8" where
  "ink_toupper_rule c = (if sint c \<ge> 0x61 \<and> sint c \<le> 0x7A then word_of_int (sint c - (0x61 - 0x41)) else c)"

definition ink_tolower_rule :: "u8 \<Rightarrow> u8" where
  "ink_tolower_rule c = (if sint c \<ge> 0x41 \<and> sint c \<le> 0x5A then word_of_int (sint c + (0x61 - 0x41)) else c)"

definition is_eow_rule :: "u8 \<Rightarrow> bool" where
  "is_eow_rule c \<longleftrightarrow> c = 0 \<or> c = 13 \<or> c = 10"

definition is_wildmat_rule :: "u8 \<Rightarrow> bool" where
  "is_wildmat_rule c \<longleftrightarrow> c = 0x2A \<or> c = 0x3F \<or> c = 0x5B \<or> c = 0x5C"

definition is_sep_rule :: "u8 \<Rightarrow> bool" where
  "is_sep_rule c \<longleftrightarrow> c = 0 \<or> c = 0x2C \<or> c = 0x3A \<or> c = 0x21 \<or> is_wslfcr_rule c"

definition is_empty_rule :: "u8 \<Rightarrow> bool" where
  "is_empty_rule c \<longleftrightarrow> c = 0x23 \<or> is_wslfcr_rule c"

definition is_space_rule :: "u8 \<Rightarrow> bool" where
  "is_space_rule c \<longleftrightarrow> c \<in> set [CHAR_SP, CHAR_HT, CHAR_LF, CHAR_VT, CHAR_NP, CHAR_CR]"

definition is_control_rule :: "u8 \<Rightarrow> bool" where
  "is_control_rule c \<longleftrightarrow> c < 32 \<or> c = 127"

definition is_mime_sep_rule :: "u8 \<Rightarrow> bool" where
  "is_mime_sep_rule c \<longleftrightarrow> c = 0x28 \<or> c = 0x29 \<or> c = 0x3C \<or> c = 0x3E \<or> c = 0x40 \<or> c = 0x2C \<or> c = 0x3B \<or> c = 0x5C \<or> c = 0x22 \<or>
     c = 0x2F \<or> c = 0x5B \<or> c = 0x5D \<or> c = 0x3F \<or> c = 0x7B \<or> c = 0x7D \<or> c = 0x20 \<or> c = 9"

definition is_http_field_name_rule :: "u8 \<Rightarrow> bool" where
  "is_http_field_name_rule c \<longleftrightarrow> \<not> (c = 0x3A \<or> (is_mime_sep_rule c \<and> c \<noteq> 0x40))"

definition is_http_field_value_rule :: "u8 \<Rightarrow> bool" where
  "is_http_field_value_rule c \<longleftrightarrow> c \<notin> set [CHAR_CR, CHAR_LF, 0x22, 0x2C]"

section \<open>The compiled tables\<close>

text \<open>\<^verbatim>\<open>main\<close> of \<^verbatim>\<open>CompileParseRules\<close>: the tests in order, each with the number of its bit.\<close>

definition ctype_rules :: "(nat \<times> (u8 \<Rightarrow> bool)) list" where
  "ctype_rules = [(0, is_char_rule), (1, is_upalpha_rule), (2, is_loalpha_rule), (3, is_alpha_rule), (4, is_digit_rule),
     (5, is_ctl_rule), (6, is_ws_rule), (7, is_hex_rule), (8, is_pchar_rule), (9, is_extra_rule), (10, is_safe_rule),
     (11, is_unsafe_rule), (12, is_national_rule), (13, is_reserved_rule), (14, is_unreserved_rule), (15, is_punct_rule),
     (16, is_end_of_url_rule), (17, is_tspecials_rule), (18, is_spcr_rule), (19, is_splf_rule), (20, is_wslfcr_rule),
     (21, is_eow_rule), (22, is_token_rule), (23, is_wildmat_rule), (24, is_sep_rule), (25, is_empty_rule), (26, is_alnum_rule),
     (27, is_space_rule), (28, is_control_rule), (29, is_mime_sep_rule), (30, is_http_field_name_rule), (31, is_http_field_value_rule)]"

definition compile_entry :: "u8 \<Rightarrow> u32" where
  "compile_entry c = fold (\<lambda>(k, P) t. if P c then t OR 2 ^ k else t) ctype_rules 0"

definition parseRulesCType :: "u32 list" where
  "parseRulesCType = map (\<lambda>c. compile_entry (of_nat c)) [0..<256]"

definition parseRulesCTypeToUpper :: "u8 list" where
  "parseRulesCTypeToUpper = map (\<lambda>c. ink_toupper_rule (of_nat c)) [0..<256]"

definition parseRulesCTypeToLower :: "u8 list" where
  "parseRulesCTypeToLower = map (\<lambda>c. ink_tolower_rule (of_nat c)) [0..<256]"

definition is_type :: "u8 \<Rightarrow> u32 \<Rightarrow> u32" where
  "is_type c bitmask = parseRulesCType ! unat c AND bitmask"

definition is_char :: "u8 \<Rightarrow> bool" where "is_char c \<longleftrightarrow> is_type c (2 ^ 0) \<noteq> 0"
definition is_upalpha :: "u8 \<Rightarrow> bool" where "is_upalpha c \<longleftrightarrow> is_type c (2 ^ 1) \<noteq> 0"
definition is_loalpha :: "u8 \<Rightarrow> bool" where "is_loalpha c \<longleftrightarrow> is_type c (2 ^ 2) \<noteq> 0"
definition is_alpha :: "u8 \<Rightarrow> bool" where "is_alpha c \<longleftrightarrow> is_type c (2 ^ 3) \<noteq> 0"
definition is_digit :: "u8 \<Rightarrow> bool" where "is_digit c \<longleftrightarrow> is_type c (2 ^ 4) \<noteq> 0"
definition is_ctl :: "u8 \<Rightarrow> bool" where "is_ctl c \<longleftrightarrow> is_type c (2 ^ 5) \<noteq> 0"
definition is_ws :: "u8 \<Rightarrow> bool" where "is_ws c \<longleftrightarrow> is_type c (2 ^ 6) \<noteq> 0"
definition is_hex :: "u8 \<Rightarrow> bool" where "is_hex c \<longleftrightarrow> is_type c (2 ^ 7) \<noteq> 0"
definition is_extra :: "u8 \<Rightarrow> bool" where "is_extra c \<longleftrightarrow> is_type c (2 ^ 9) \<noteq> 0"
definition is_safe :: "u8 \<Rightarrow> bool" where "is_safe c \<longleftrightarrow> is_type c (2 ^ 10) \<noteq> 0"
definition is_unsafe :: "u8 \<Rightarrow> bool" where "is_unsafe c \<longleftrightarrow> is_type c (2 ^ 11) \<noteq> 0"
definition is_national :: "u8 \<Rightarrow> bool" where "is_national c \<longleftrightarrow> is_type c (2 ^ 12) \<noteq> 0"
definition is_reserved :: "u8 \<Rightarrow> bool" where "is_reserved c \<longleftrightarrow> is_type c (2 ^ 13) \<noteq> 0"
definition is_unreserved :: "u8 \<Rightarrow> bool" where "is_unreserved c \<longleftrightarrow> is_type c (2 ^ 14) \<noteq> 0"
definition is_punct :: "u8 \<Rightarrow> bool" where "is_punct c \<longleftrightarrow> is_type c (2 ^ 15) \<noteq> 0"
definition is_end_of_url :: "u8 \<Rightarrow> bool" where "is_end_of_url c \<longleftrightarrow> is_type c (2 ^ 16) \<noteq> 0"
definition is_tspecials :: "u8 \<Rightarrow> bool" where "is_tspecials c \<longleftrightarrow> is_type c (2 ^ 17) \<noteq> 0"
definition is_spcr :: "u8 \<Rightarrow> bool" where "is_spcr c \<longleftrightarrow> is_type c (2 ^ 18) \<noteq> 0"
definition is_splf :: "u8 \<Rightarrow> bool" where "is_splf c \<longleftrightarrow> is_type c (2 ^ 19) \<noteq> 0"
definition is_wslfcr :: "u8 \<Rightarrow> bool" where "is_wslfcr c \<longleftrightarrow> is_type c (2 ^ 20) \<noteq> 0"
definition is_eow :: "u8 \<Rightarrow> bool" where "is_eow c \<longleftrightarrow> is_type c (2 ^ 21) \<noteq> 0"
definition is_token :: "u8 \<Rightarrow> bool" where "is_token c \<longleftrightarrow> is_type c (2 ^ 22) \<noteq> 0"
definition is_wildmat :: "u8 \<Rightarrow> bool" where "is_wildmat c \<longleftrightarrow> is_type c (2 ^ 23) \<noteq> 0"
definition is_sep :: "u8 \<Rightarrow> bool" where "is_sep c \<longleftrightarrow> is_type c (2 ^ 24) \<noteq> 0"
definition is_empty :: "u8 \<Rightarrow> bool" where "is_empty c \<longleftrightarrow> is_type c (2 ^ 25) \<noteq> 0"
definition is_alnum :: "u8 \<Rightarrow> bool" where "is_alnum c \<longleftrightarrow> is_type c (2 ^ 26) \<noteq> 0"
definition is_space :: "u8 \<Rightarrow> bool" where "is_space c \<longleftrightarrow> is_type c (2 ^ 27) \<noteq> 0"
definition is_control :: "u8 \<Rightarrow> bool" where "is_control c \<longleftrightarrow> is_type c (2 ^ 28) \<noteq> 0"
definition is_mime_sep :: "u8 \<Rightarrow> bool" where "is_mime_sep c \<longleftrightarrow> is_type c (2 ^ 29) \<noteq> 0"
definition is_http_field_name :: "u8 \<Rightarrow> bool" where "is_http_field_name c \<longleftrightarrow> is_type c (2 ^ 30) \<noteq> 0"
definition is_http_field_value :: "u8 \<Rightarrow> bool" where "is_http_field_value c \<longleftrightarrow> is_type c (2 ^ 31) \<noteq> 0"

definition ink_toupper :: "u8 \<Rightarrow> u8" where
  "ink_toupper c = parseRulesCTypeToUpper ! unat c"

definition ink_tolower :: "u8 \<Rightarrow> u8" where
  "ink_tolower c = parseRulesCTypeToLower ! unat c"

section \<open>Sequences\<close>

definition chr_at :: "u8 list \<Rightarrow> nat \<Rightarrow> u8" where
  "chr_at s i = (if i < length s then s ! i else 0)"

definition is_escape :: "u8 list \<Rightarrow> bool" where
  "is_escape seq \<longleftrightarrow> chr_at seq 0 = 0x25 \<and> is_hex (chr_at seq 1) \<and> is_hex (chr_at seq 2)"

definition is_uchar :: "u8 list \<Rightarrow> bool" where
  "is_uchar seq \<longleftrightarrow> is_unreserved (chr_at seq 0) \<or> is_escape seq"

text \<open>\<^verbatim>\<open>is_pchar\<close> indexes the table with the signed character; \<^term>\<open>None\<close> is a read in front of the table.\<close>

definition is_pchar :: "u8 list \<Rightarrow> bool option" where
  "is_pchar seq =
     (if chr_at seq 0 \<noteq> 0x25
      then (if sint (chr_at seq 0) < 0 then None else Some (parseRulesCType ! nat (sint (chr_at seq 0)) AND 2 ^ 8 \<noteq> 0))
      else Some (is_hex (chr_at seq 1) \<and> is_hex (chr_at seq 2)))"

fun strncasecmp_eow :: "u8 list \<Rightarrow> u8 list \<Rightarrow> nat \<Rightarrow> bool" where
  "strncasecmp_eow s1 s2 0 = True"
| "strncasecmp_eow s1 s2 (Suc n) =
     (let a = chr_at s1 0; b = chr_at s2 0
      in if ink_tolower a \<noteq> ink_tolower b then is_eow a \<and> is_eow b else strncasecmp_eow (drop 1 s1) (drop 1 s2) n)"

fun strlen_eow :: "u8 list \<Rightarrow> nat" where
  "strlen_eow [] = 0"
| "strlen_eow (c # cs) = (if is_eow c then 0 else Suc (strlen_eow cs))"

fun strlen :: "u8 list \<Rightarrow> nat" where
  "strlen [] = 0"
| "strlen (c # cs) = (if c = 0 then 0 else Suc (strlen cs))"

text \<open>The searches return the offset of the pointer returned, \<^term>\<open>None\<close> for the null pointer.\<close>

fun strstr_loop :: "(u8 \<Rightarrow> bool) \<Rightarrow> u8 list \<Rightarrow> nat \<Rightarrow> u8 list \<Rightarrow> nat \<Rightarrow> nat option" where
  "strstr_loop stop s2 s2_len [] i1 = None"
| "strstr_loop stop s2 s2_len (c # cs) i1 =
     (if stop c then None
      else if ink_tolower c = ink_tolower (chr_at s2 0) \<and> strncasecmp_eow (c # cs) s2 s2_len then Some i1
      else strstr_loop stop s2 s2_len cs (i1 + 1))"

definition strstr_eow :: "u8 list \<Rightarrow> u8 list \<Rightarrow> nat option" where
  "strstr_eow s1 s2 = strstr_loop is_eow s2 (strlen_eow s2) s1 0"

definition strcasestr :: "u8 list \<Rightarrow> u8 list \<Rightarrow> nat option" where
  "strcasestr s1 s2 = strstr_loop (\<lambda>c. c = 0) s2 (strlen s2) s1 0"

fun pr_memchr :: "u8 list \<Rightarrow> u8 \<Rightarrow> nat \<Rightarrow> nat \<Rightarrow> nat option" where
  "pr_memchr s c 0 i = None"
| "pr_memchr s c (Suc n) i = (if chr_at s i = c then Some i else pr_memchr s c n (i + 1))"

fun pr_strchr :: "u8 list \<Rightarrow> u8 \<Rightarrow> nat \<Rightarrow> nat option" where
  "pr_strchr [] c i = None"
| "pr_strchr (x # xs) c i = (if x = 0 then None else if x = c then Some i else pr_strchr xs c (i + 1))"

section \<open>Numbers\<close>

definition ink_get_hex :: "u8 \<Rightarrow> int" where
  "ink_get_hex c = (if is_digit c then sint c - 0x30 else (sint (ink_tolower c) - 0x61) + 10)"

text \<open>The loops of \<^verbatim>\<open>ink_atoi\<close> and its variants, on the rest of the string.\<close>

fun skip_wslfcr :: "u8 list \<Rightarrow> u8 list" where
  "skip_wslfcr [] = []"
| "skip_wslfcr (c # cs) = (if c \<noteq> 0 \<and> is_wslfcr c then skip_wslfcr cs else c # cs)"

fun atoi_hex :: "'a::len word \<Rightarrow> u8 list \<Rightarrow> 'a word" where
  "atoi_hex num [] = num"
| "atoi_hex num (c # cs) = (if c \<noteq> 0 \<and> is_hex c then atoi_hex (push_bit 4 num + word_of_int (ink_get_hex c)) cs else num)"

fun atoi_neg :: "'a::len word \<Rightarrow> u8 list \<Rightarrow> 'a word" where
  "atoi_neg num [] = num"
| "atoi_neg num (c # cs) = (if c \<noteq> 0 \<and> is_digit c then atoi_neg (num * 10 - word_of_int (sint c - 0x30)) cs else num)"

fun atoi_pos :: "'a::len word \<Rightarrow> u8 list \<Rightarrow> 'a word" where
  "atoi_pos num [] = num"
| "atoi_pos num (c # cs) = (if c \<noteq> 0 \<and> is_digit c then atoi_pos (num * 10 + word_of_int (sint c - 0x30)) cs else num)"

definition signed_atoi :: "u8 list \<Rightarrow> 'a::len word" where
  "signed_atoi str =
     (let s = skip_wslfcr str
      in if chr_at s 0 = 0x30 \<and> chr_at s 1 = 0x78 then atoi_hex 0 (drop 2 s)
         else if chr_at s 0 = 0x2D then atoi_neg 0 (drop 1 s)
         else - atoi_neg 0 s)"

definition ink_atoi :: "u8 list \<Rightarrow> u32" where
  "ink_atoi str = signed_atoi str"

definition ink_atoll :: "u8 list \<Rightarrow> u64" where
  "ink_atoll str = signed_atoi str"

definition ink_atoui :: "u8 list \<Rightarrow> u32" where
  "ink_atoui str =
     (let s = skip_wslfcr str
      in if chr_at s 0 = 0x30 \<and> chr_at s 1 = 0x78 then atoi_hex 0 (drop 2 s) else atoi_pos 0 s)"

text \<open>\<^verbatim>\<open>ink_atoi(str, len)\<close>: \<^verbatim>\<open>len\<close> goes down with every test of it that is reached.\<close>

fun skip_wslfcr_len :: "u8 list \<Rightarrow> int \<Rightarrow> u8 list \<times> int" where
  "skip_wslfcr_len [] len = ([], len)"
| "skip_wslfcr_len (c # cs) len =
     (if c \<noteq> 0 \<and> is_wslfcr c then (if len > 0 then skip_wslfcr_len cs (len - 1) else (c # cs, len - 1)) else (c # cs, len))"

fun atoi_hex_len :: "u32 \<Rightarrow> u8 list \<Rightarrow> int \<Rightarrow> u32" where
  "atoi_hex_len num [] len = num"
| "atoi_hex_len num (c # cs) len =
     (if c \<noteq> 0 \<and> is_hex c \<and> len > 0 then atoi_hex_len (push_bit 4 num + word_of_int (ink_get_hex c)) cs (len - 1) else num)"

fun atoi_neg_len :: "u32 \<Rightarrow> u8 list \<Rightarrow> int \<Rightarrow> u32" where
  "atoi_neg_len num [] len = num"
| "atoi_neg_len num (c # cs) len =
     (if c \<noteq> 0 \<and> is_digit c \<and> len > 0 then atoi_neg_len (num * 10 - word_of_int (sint c - 0x30)) cs (len - 1) else num)"

definition ink_atoi_len :: "u8 list \<Rightarrow> int \<Rightarrow> u32" where
  "ink_atoi_len str len0 =
     (let (s, len) = skip_wslfcr_len str len0
      in if chr_at s 0 = 0x30 \<and> chr_at s 1 = 0x78 then atoi_hex_len 0 (drop 2 s) len
         else if chr_at s 0 = 0x2D then atoi_neg_len 0 (drop 1 s) len
         else - atoi_neg_len 0 s len)"

section \<open>Buffers\<close>

text \<open>
  \<^verbatim>\<open>scan_while\<close> reads memory through addresses; its result is \<^term>\<open>None\<close> when it does not return,
  \<^term>\<open>Some None\<close> for the null pointer. \<open>not_type\<close> is the test \<^verbatim>\<open>!is_type(...)\<close>. The order of the four bytes in a
  word does not matter: their masks are joined by \<^verbatim>\<open>&\<close>.
\<close>

definition not_type :: "(u64 \<Rightarrow> u8) \<Rightarrow> u32 \<Rightarrow> u64 \<Rightarrow> bool" where
  "not_type mem bitmask a \<longleftrightarrow> is_type (mem a) bitmask = 0"

fun scan_bytes :: "(u64 \<Rightarrow> u8) \<Rightarrow> u32 \<Rightarrow> u64 \<Rightarrow> nat \<Rightarrow> u64 option" where
  "scan_bytes mem bitmask a 0 = None"
| "scan_bytes mem bitmask a (Suc n) = (if not_type mem bitmask a then Some a else scan_bytes mem bitmask (a + 1) n)"

text \<open>The switch on the alignment: the byte tested is the one at the aligned address, the pointer
  returned is counted from \<^verbatim>\<open>ptr\<close>.\<close>

definition scan_front :: "(u64 \<Rightarrow> u8) \<Rightarrow> u32 \<Rightarrow> u64 \<Rightarrow> u64 \<Rightarrow> u64 \<Rightarrow> u64 option" where
  "scan_front mem bitmask ptr align_ptr align_off =
     (if align_off = 1 \<and> not_type mem bitmask (align_ptr + 1) then Some (ptr + 1)
      else if align_off \<in> {1, 2} \<and> not_type mem bitmask (align_ptr + 2) then Some (ptr + 2)
      else if align_off \<in> {1, 2, 3} \<and> not_type mem bitmask (align_ptr + 3) then Some (ptr + 3)
      else None)"

partial_function (option) scan_words :: "(u64 \<Rightarrow> u8) \<Rightarrow> u32 \<Rightarrow> u64 \<Rightarrow> u64 \<Rightarrow> u32 \<Rightarrow> u64 option option" where
  "scan_words mem bitmask wptr words i =
     (if ucast i < words then
        let a = wptr + 4 * ucast i;
            result = is_type (mem a) bitmask AND is_type (mem (a + 1)) bitmask AND
                     is_type (mem (a + 2)) bitmask AND is_type (mem (a + 3)) bitmask
        in if result = 0 then
             (if not_type mem bitmask a then Some (Some a)
              else if not_type mem bitmask (a + 1) then Some (Some (a + 1))
              else if not_type mem bitmask (a + 2) then Some (Some (a + 2))
              else Some (Some (a + 3)))
           else scan_words mem bitmask wptr words (i + 1)
      else Some None)"

definition scan_while :: "(u64 \<Rightarrow> u8) \<Rightarrow> u64 \<Rightarrow> u32 \<Rightarrow> u32 \<Rightarrow> u64 option option" where
  "scan_while mem ptr n bitmask =
     (let align_off = ptr AND 3;
          align_ptr = ptr AND NOT 3;
          f_bytes = (if align_off \<noteq> 0 then 4 - align_off else 0);
          words = drop_bit 2 (ucast n - f_bytes) :: u64
      in if words = 0 then Some (scan_bytes mem bitmask ptr (unat n))
         else
           let wptr = align_ptr + (if align_off \<noteq> 0 then 4 else 0)
           in case scan_front mem bitmask ptr align_ptr align_off of
                Some p \<Rightarrow> Some (Some p)
              | None \<Rightarrow>
                  let b_bytes = ucast n - (push_bit 2 words + f_bytes) :: u64
                  in Option.bind (scan_words mem bitmask wptr words 0) (\<lambda>r.
                       case r of
                         Some p \<Rightarrow> Some (Some p)
                       | None \<Rightarrow> Some (if b_bytes \<in> {1, 2, 3} then scan_bytes mem bitmask (wptr + 4 * words) (unat b_bytes) else None)))"

text \<open>\<^verbatim>\<open>ink_tolower_buffer(ptr, n)\<close> on the \<^verbatim>\<open>n\<close> bytes at the address; \<open>lower_from i k\<close> lowers \<open>k\<close> bytes from index \<open>i\<close> on.\<close>

definition lower_from :: "nat \<Rightarrow> nat \<Rightarrow> u8 list \<Rightarrow> u8 list" where
  "lower_from i k buf = fold (\<lambda>j b. b[j := ink_tolower (b ! j)]) [i..<i + k] buf"

definition ink_tolower_buffer :: "nat \<Rightarrow> u8 list \<Rightarrow> u8 list" where
  "ink_tolower_buffer addr buf =
     (let n = length buf
      in if n < 8 then lower_from 0 n buf
         else
           let fpad = 4 - addr mod 4;
               words = (n - fpad) div 4;
               bpad = n - fpad - words * 4;
               ptr = (if fpad \<in> {1, 2, 3} then fpad else 0)
           in lower_from ptr (if bpad \<in> {1, 2, 3} then bpad else 0)
                (lower_from ptr (4 * words) (lower_from 0 ptr buf)))"

section \<open>The tables agree with the rules\<close>

lemma bit_fold_rules:
  "bit (fold (\<lambda>(k, P) t. if P c then t OR 2 ^ k else t) rs (t :: u32)) n \<longleftrightarrow> bit t n \<or> (\<exists>(k, P)\<in>set rs. P c \<and> bit (2 ^ k :: u32) n)"
proof (induction rs arbitrary: t)
  case (Cons r rs)
  obtain k P where r: "r = (k, P)" by (cases r)
  show ?case unfolding r fold_Cons comp_def prod.case Cons.IH by (cases "P c") (simp_all add: bit_or_iff disj_assoc)
qed simp

lemma u8_less: "unat c < 256" for c :: u8
  using unsigned_less[of c, where ?'a = nat] by simp

lemma bit_compile_entry:
  "n < 32 \<Longrightarrow> bit (compile_entry c) n \<longleftrightarrow> (\<exists>(k, P)\<in>set ctype_rules. k = n \<and> P c)"
  by (auto simp: compile_entry_def bit_fold_rules bit_exp_iff)

lemma parseRulesCType_nth: "parseRulesCType ! unat c = compile_entry c" for c :: u8
  using u8_less[of c] by (simp add: parseRulesCType_def)

lemma is_type_nonzero: "is_type c (2 ^ n) \<noteq> 0 \<longleftrightarrow> bit (compile_entry c) n"
  unfolding is_type_def parseRulesCType_nth and_exp_eq_0_iff_not_bit by simp

lemma is_type_rule: "n < 32 \<Longrightarrow> is_type c (2 ^ n) \<noteq> 0 \<longleftrightarrow> (\<exists>(k, P)\<in>set ctype_rules. k = n \<and> P c)"
  by (simp add: is_type_nonzero bit_compile_entry)

lemmas is_defs = is_char_def is_upalpha_def is_loalpha_def is_alpha_def is_digit_def is_ctl_def is_ws_def is_hex_def is_extra_def is_safe_def
  is_unsafe_def is_national_def is_reserved_def is_unreserved_def is_punct_def is_end_of_url_def is_tspecials_def is_spcr_def is_splf_def
  is_wslfcr_def is_eow_def is_token_def is_wildmat_def is_sep_def is_empty_def is_alnum_def is_space_def is_control_def is_mime_sep_def
  is_http_field_name_def is_http_field_value_def

text \<open>The tests that the other components use, in the form the simplifier applies.\<close>

lemma is_hex_eq [simp, code]: "is_hex c = is_hex_rule c"
  unfolding is_hex_def by (subst is_type_rule) (simp_all add: ctype_rules_def)

lemma is_digit_eq [simp, code]: "is_digit c = is_digit_rule c"
  unfolding is_digit_def by (subst is_type_rule) (simp_all add: ctype_rules_def)

lemma is_wslfcr_eq [simp, code]: "is_wslfcr c = is_wslfcr_rule c"
  unfolding is_wslfcr_def by (subst is_type_rule) (simp_all add: ctype_rules_def)

lemma is_eow_eq [simp, code]: "is_eow c = is_eow_rule c"
  unfolding is_eow_def by (subst is_type_rule) (simp_all add: ctype_rules_def)

lemma ink_tolower_eq [simp, code]: "ink_tolower c = ink_tolower_rule c"
  using u8_less[of c] by (simp add: ink_tolower_def parseRulesCTypeToLower_def)


section \<open>Lowering a buffer\<close>

lemma ink_tolower_rule_idem [simp]: "ink_tolower_rule (ink_tolower_rule c) = ink_tolower_rule c"
proof (cases "sint c \<ge> 0x41 \<and> sint c \<le> 0x5A")
  case True
  then have "sint (word_of_int (sint c + 32) :: u8) = sint c + 32" by (simp add: sint_word_ariths signed_take_bit_int_eq_self)
  then show ?thesis using True by (simp add: ink_tolower_rule_def)
qed (auto simp: ink_tolower_rule_def)

lemma lower_from_eq:
  "i + k \<le> length buf \<Longrightarrow> lower_from i k buf = take i buf @ map ink_tolower (take k (drop i buf)) @ drop (i + k) buf"
proof (induction k)
  case (Suc k)
  have "i + k < length buf" using Suc.prems by simp
  then have "drop (i + k) buf = buf ! (i + k) # drop (i + Suc k) buf" by (simp add: Cons_nth_drop_Suc)
  moreover have "take (Suc k) (drop i buf) = take k (drop i buf) @ [buf ! (i + k)]" using \<open>i + k < length buf\<close> by (simp add: take_Suc_conv_app_nth)
  moreover have "lower_from i (Suc k) buf = (lower_from i k buf)[i + k := ink_tolower (lower_from i k buf ! (i + k))]"
    by (simp add: lower_from_def)
  ultimately show ?case using Suc \<open>i + k < length buf\<close> by (simp add: list_update_append nth_append)
qed (simp add: lower_from_def)

text \<open>Lowering again a part that is already lowered changes nothing.\<close>

lemma lower_from_idem:
  assumes "i + k \<le> m" "m \<le> length buf"
  shows "lower_from i k (map ink_tolower (take m buf) @ drop m buf) = map ink_tolower (take m buf) @ drop m buf" (is "lower_from i k ?b = ?b")
proof -
  have l: "i + k \<le> length ?b" "k \<le> length (drop i ?b)" using assms by simp_all
  have "map ink_tolower (take k (drop i ?b)) = take k (drop i ?b)"
    using assms by (auto simp: take_map drop_map min_def intro!: nth_equalityI)
  then have "lower_from i k ?b = take i ?b @ take k (drop i ?b) @ drop (i + k) ?b" using lower_from_eq[OF l(1)] by simp
  also have "\<dots> = ?b" unfolding append_assoc[symmetric] take_add[symmetric] by (rule append_take_drop_id)
  finally show ?thesis .
qed

text \<open>\<^verbatim>\<open>ink_tolower_buffer\<close> on at least eight bytes lowers a prefix of the buffer and leaves the rest
  as it is: the word loop does not advance the pointer that the trailing bytes are lowered through.
  With an aligned buffer at least the last four bytes are left.\<close>

theorem ink_tolower_buffer_prefix:
  fixes addr :: nat
  assumes "8 \<le> length buf"
  defines "f \<equiv> 4 - addr mod 4"
  defines "m \<equiv> (if addr mod 4 = 0 then 0 else f) + (length buf - f) div 4 * 4"
  shows "ink_tolower_buffer addr buf = map ink_tolower (take m buf) @ drop m buf \<and> m \<le> length buf \<and>
    (addr mod 4 = 0 \<longrightarrow> m + 4 \<le> length buf)"
proof -
  define p where "p = (if addr mod 4 = 0 then 0 else f)"
  define w where "w = (length buf - f) div 4"
  define b where "b = length buf - f - w * 4"
  have f: "1 \<le> f" "f \<le> 4" "f \<in> {1, 2, 3} \<longleftrightarrow> addr mod 4 \<noteq> 0" unfolding f_def using mod_less_divisor[of 4 addr] by auto
  have b: "b = (length buf - f) mod 4" "b < 4" unfolding b_def w_def by (simp_all add: minus_div_mult_eq_mod)
  have w: "1 \<le> w" unfolding w_def using assms(1) f(2) by (simp add: Suc_le_eq div_greater_zero_iff)
  have m: "m = p + 4 * w" unfolding m_def p_def w_def by simp
  have ml: "m \<le> length buf" "addr mod 4 = 0 \<longrightarrow> m + 4 \<le> length buf"
    using assms(1) f div_times_less_eq_dividend[of "length buf - f" 4] unfolding m p_def w_def by (auto simp: f_def)
  have A: "lower_from p (4 * w) (lower_from 0 p buf) = map ink_tolower (take m buf) @ drop m buf"
  proof -
    have 1: "lower_from 0 p buf = map ink_tolower (take p buf) @ drop p buf" using lower_from_eq[of 0 p buf] ml m by simp
    have "take p (lower_from 0 p buf) = map ink_tolower (take p buf)" "drop p (lower_from 0 p buf) = drop p buf" unfolding 1 using ml m by simp_all
    moreover have "take m buf = take p buf @ take (4 * w) (drop p buf)" unfolding m by (rule take_add)
    moreover have "drop (p + 4 * w) (lower_from 0 p buf) = drop m buf" unfolding 1 m using ml m by (simp add: add.commute)
    ultimately show ?thesis using lower_from_eq[of p "4 * w" "lower_from 0 p buf"] ml m 1 by simp
  qed
  have B: "p + (if b \<in> {1, 2, 3} then b else 0) \<le> m" using b w unfolding m by auto
  have n: "\<not> length buf < 8" using assms(1) by simp
  have p: "p = (if f \<in> {1, 2, 3} then f else 0)" unfolding f(3) p_def by simp
  have "ink_tolower_buffer addr buf = lower_from p (if b \<in> {1, 2, 3} then b else 0) (lower_from p (4 * w) (lower_from 0 p buf))"
    unfolding ink_tolower_buffer_def Let_def if_not_P[OF n] p b_def w_def f_def ..
  also have "\<dots> = map ink_tolower (take m buf) @ drop m buf" unfolding A by (rule lower_from_idem[OF B ml(1)])
  finally show ?thesis using ml by (intro conjI)
qed

theorem ink_tolower_buffer_prefix_witness:
  "ink_tolower_buffer 0 (replicate 8 0x41) = replicate 4 0x61 @ replicate 4 0x41"
  using ink_tolower_buffer_prefix[of "replicate 8 0x41" 0] by (simp add: ink_tolower_rule_def)

section \<open>Scanning a buffer\<close>

lemma scan_bytes_append:
  "scan_bytes mem bitmask a (m + n) = (case scan_bytes mem bitmask a m of Some p \<Rightarrow> Some p | None \<Rightarrow> scan_bytes mem bitmask (a + of_nat m) n)"
  by (induction m arbitrary: a) (simp_all add: add.assoc split: option.split)

lemma is_type_single: "is_type c (2 ^ k) = (if bit (compile_entry c) k then 2 ^ k else 0)"
  unfolding is_type_def parseRulesCType_nth by (rule bit_eqI) (auto simp: bit_and_iff bit_exp_iff)

text \<open>With a mask of one bit the four masks of a word are joined to 0 exactly when one of them is 0.\<close>

lemma is_type_and4:
  assumes "k < 32"
  shows "is_type a (2 ^ k) AND is_type b (2 ^ k) AND is_type c (2 ^ k) AND is_type d (2 ^ k) = 0 \<longleftrightarrow>
    is_type a (2 ^ k) = 0 \<or> is_type b (2 ^ k) = 0 \<or> is_type c (2 ^ k) = 0 \<or> is_type d (2 ^ k) = 0"
proof -
  have "(2 ^ k :: u32) \<noteq> 0" using assms by (simp add: exp_eq_zero_iff)
  then show ?thesis unfolding is_type_single by simp
qed

lemma scan_words_eq:
  assumes "k < 32" "W < 2 ^ 32" "I \<le> W"
  shows "scan_words mem (2 ^ k) wptr (of_nat W) (of_nat I) = Some (scan_bytes mem (2 ^ k) (wptr + 4 * of_nat I) (4 * (W - I)))"
  using assms(3)
proof (induction "W - I" arbitrary: I)
  case 0
  have "ucast (of_nat I :: u32) = (of_nat I :: u64)" using 0 assms(2) by (simp add: unsigned_of_nat take_bit_nat_eq_self)
  then show ?case using 0 by (subst scan_words.simps) simp
next
  case (Suc d)
  have u: "ucast (of_nat I :: u32) = (of_nat I :: u64)" using Suc(2,3) assms(2) by (simp add: unsigned_of_nat take_bit_nat_eq_self)
  have l: "(of_nat I :: u64) < of_nat W" using Suc(2,3) assms(2) by (simp add: word_less_nat_alt unsigned_of_nat take_bit_nat_eq_self)
  have s: "of_nat I + 1 = (of_nat (Suc I) :: u32)" by simp
  have a: "wptr + 4 * of_nat I + 1 + 1 + 1 + 1 = wptr + 4 * of_nat (Suc I)" by simp
  have n: "4 * (W - I) = Suc (Suc (Suc (Suc (4 * (W - Suc I)))))" using Suc(2) by simp
  have IH: "scan_words mem (2 ^ k) wptr (of_nat W) (of_nat (Suc I)) = Some (scan_bytes mem (2 ^ k) (wptr + 4 * of_nat (Suc I)) (4 * (W - Suc I)))"
    using Suc(2,3) by (intro Suc(1)) auto
  show ?case unfolding n scan_bytes.simps a
    by (subst scan_words.simps) (simp only: u l if_True s IH Let_def is_type_and4[OF assms(1)] not_type_def, simp add: add.assoc)
qed

lemma aligned_address: "ptr AND NOT 3 = ptr" if "ptr AND 3 = 0" for ptr :: u64
proof (rule bit_eqI)
  fix n
  have "bit (ptr AND 3) n \<longleftrightarrow> False" unfolding that by simp
  then show "bit (ptr AND NOT 3) n \<longleftrightarrow> bit ptr n" unfolding bit_and_iff bit_not_iff by (auto dest: bit_imp_le_length)
qed

lemma scan_while_aligned:
  assumes "ptr AND 3 = 0" "k < 32"
  shows "scan_while mem ptr n (2 ^ k) = Some (scan_bytes mem (2 ^ k) ptr (unat n))"
proof -
  define N where "N = unat n"
  have N: "N < 2 ^ 32" unfolding N_def using unsigned_less[of n, where ?'a = nat] by simp
  have n: "ucast n = (of_nat N :: u64)" unfolding N_def by (simp add: unsigned_of_nat[symmetric])
  have w: "drop_bit 2 (of_nat N :: u64) = of_nat (N div 4)"
    using N by (simp add: word_unat_eq_iff unsigned_drop_bit_eq unsigned_of_nat take_bit_nat_eq_self drop_bit_nat_def)
  have b: "of_nat N - push_bit 2 (of_nat (N div 4)) = (of_nat (N mod 4) :: u64)"
  proof -
    have "(of_nat N :: u64) = 4 * of_nat (N div 4) + of_nat (N mod 4)" by (metis mult_div_mod_eq of_nat_add of_nat_mult of_nat_numeral)
    then have "of_nat N - 4 * of_nat (N div 4) = (of_nat (N mod 4) :: u64)" by (simp only: add_diff_cancel_left')
    then show ?thesis by (simp add: push_bit_eq_mult mult.commute)
  qed
  show ?thesis
  proof (cases "N div 4 = 0")
    case True
    then show ?thesis unfolding scan_while_def Let_def assms(1) by (simp add: n w N_def[symmetric])
  next
    case False
    have nz: "(of_nat (N div 4) :: u64) \<noteq> 0" using False N by (simp add: word_of_nat_eq_0_iff nat_dvd_not_less)
    have W: "scan_words mem (2 ^ k) ptr (of_nat (N div 4)) 0 = Some (scan_bytes mem (2 ^ k) ptr (4 * (N div 4)))"
      using scan_words_eq[OF assms(2), of "N div 4" 0 mem ptr] N by simp
    have m: "unat (of_nat (N mod 4) :: u64) = N mod 4" by (simp add: unsigned_of_nat take_bit_nat_eq_self)
    have "scan_bytes mem (2 ^ k) ptr N = (case scan_bytes mem (2 ^ k) ptr (4 * (N div 4)) of Some p \<Rightarrow> Some p
        | None \<Rightarrow> scan_bytes mem (2 ^ k) (ptr + 4 * of_nat (N div 4)) (N mod 4))"
      using scan_bytes_append[of mem "2 ^ k" ptr "4 * (N div 4)" "N mod 4"] by (simp split: option.splits)
    moreover have "(of_nat (N mod 4) :: u64) \<in> {1, 2, 3} \<or> N mod 4 = 0"
    proof -
      have "N mod 4 \<in> {0, 1, 2, 3}" by auto
      then show ?thesis by auto
    qed
    moreover have "scan_while mem ptr n (2 ^ k) = Option.bind (scan_words mem (2 ^ k) ptr (of_nat (N div 4)) 0) (\<lambda>r. case r of
        Some p \<Rightarrow> Some (Some p)
      | None \<Rightarrow> Some (if (of_nat (N mod 4) :: u64) \<in> {1, 2, 3}
                      then scan_bytes mem (2 ^ k) (ptr + 4 * of_nat (N div 4)) (unat (of_nat (N mod 4) :: u64)) else None))"
      unfolding scan_while_def Let_def assms(1) aligned_address[OF assms(1)] n simp_thms if_False diff_zero add_0_right w b if_not_P[OF nz]
      by (simp add: scan_front_def)
    ultimately show ?thesis unfolding W m bind.bind_lunit N_def[symmetric]
      by (cases "scan_bytes mem (2 ^ k) ptr (4 * (N div 4))") auto
  qed
qed

text \<open>C28: on an aligned buffer and with a mask of one bit, the word-at-a-time \<^verbatim>\<open>scan_while\<close> returns, and finds what
  the scan byte by byte finds: the first character outside the class, or the null pointer.\<close>

theorem scan_while_bytewise:
  assumes "ptr AND 3 = 0" "k < 32"
  shows "scan_while mem ptr n (2 ^ k) = Some (scan_bytes mem (2 ^ k) ptr (unat n))"
  by (rule scan_while_aligned[OF assms])

theorem scan_while_bytewise_witness: "scan_while (\<lambda>_. 0x41) 8 5 (2 ^ 4) = Some (scan_bytes (\<lambda>_. 0x41) (2 ^ 4) 8 5)"
  using scan_while_bytewise[of 8 4 "\<lambda>_. 0x41" 5] by simp

lemma address_split: "(ptr AND NOT 3) + (ptr AND 3) = ptr" for ptr :: u64
proof -
  have "(ptr AND NOT 3) + (ptr AND 3) = (ptr AND NOT 3) OR (ptr AND 3)" by (rule disjunctive_add_eq_or, rule bit_eqI, unfold bit_and_iff bit_not_iff) auto
  also have "\<dots> = ptr" by (rule bit_eqI, unfold bit_and_iff bit_or_iff bit_not_iff) (auto dest: bit_imp_le_length)
  finally show ?thesis .
qed

lemma offset_cases: "ptr AND 3 \<in> {0, 1, 2, 3}" for ptr :: u64
proof -
  have "ptr AND 3 = take_bit 2 ptr" by (simp add: take_bit_eq_mask mask_eq_exp_minus_1)
  then have "unat (ptr AND 3) < 4" using take_bit_nat_less_exp[of 2 "unat ptr"] by (simp add: unsigned_take_bit_eq)
  then have "unat (ptr AND 3) \<in> {0, 1, 2, 3}" by auto
  then show ?thesis by (simp add: word_unat_eq_iff)
qed

text \<open>On a buffer that is not aligned, \<^verbatim>\<open>scan_while\<close> over at least one whole word returns, for a first character
  outside the class, a pointer behind it: the offset of the alignment is added to the buffer's start and
  not to the aligned address.\<close>

theorem scan_while_misaligned:
  assumes "ptr AND 3 \<noteq> 0" "8 \<le> n" "not_type mem bitmask ptr"
  shows "scan_while mem ptr n bitmask = Some (Some (ptr + (ptr AND 3))) \<and> ptr + (ptr AND 3) \<noteq> ptr"
proof -
  define off where "off = ptr AND 3"
  have off: "off \<in> {1, 2, 3}" using assms(1) offset_cases[of ptr] by (auto simp: off_def)
  have p: "(ptr AND NOT 3) + off = ptr" unfolding off_def by (rule address_split)
  have front: "scan_front mem bitmask ptr (ptr AND NOT 3) off = Some (ptr + off)"
    using off assms(3) p by (auto simp: scan_front_def)
  have "drop_bit 2 (ucast n - (4 - off)) \<noteq> (0 :: u64)"
  proof -
    have n: "8 \<le> unat n" "unat n < 2 ^ 32" using assms(2) unsigned_less[of n, where ?'a = nat] by (simp_all add: word_le_nat_alt)
    have "unat (ucast n :: u64) = unat n" using n by (simp add: unsigned_ucast_eq take_bit_nat_eq_self)
    moreover have "unat (4 - off) \<le> 3" using off by auto
    ultimately have "5 \<le> unat (ucast n - (4 - off) :: u64)" using n by (subst unat_sub) (auto simp: word_le_nat_alt)
    then have "0 < drop_bit 2 (unat (ucast n - (4 - off) :: u64))" by (simp add: drop_bit_nat_def)
    then show ?thesis by (metis less_irrefl unat_0 unat_drop_bit_eq)
  qed
  then have "scan_while mem ptr n bitmask = Some (Some (ptr + off))"
    unfolding scan_while_def Let_def off_def[symmetric] using off front by auto
  then show ?thesis using off unfolding off_def[symmetric] by auto
qed

theorem scan_while_misaligned_witness: "scan_while (\<lambda>_. 0x41) 9 12 (2 ^ 4) = Some (Some 10)"
  using scan_while_misaligned[where ptr = "9 :: u64" and n = 12 and mem = "\<lambda>_. 0x41" and bitmask = "2 ^ 4"] is_type_nonzero[of "0x41" 4]
  by (simp add: not_type_def bit_compile_entry ctype_rules_def is_digit_rule_def)

section \<open>Reading numbers\<close>

text \<open>The decimal representation of a number.\<close>

fun dec_digits :: "nat \<Rightarrow> u8 list" where
  "dec_digits n = (if n < 10 then [0x30 + of_nat n] else dec_digits (n div 10) @ [0x30 + of_nat (n mod 10)])"

definition decimal :: "int \<Rightarrow> u8 list" where
  "decimal z = (if z < 0 then 0x2D # dec_digits (nat (- z)) else dec_digits (nat z))"

declare dec_digits.simps [simp del]

lemma digit_char:
  assumes "d < 10"
  shows "sint (0x30 + of_nat d :: u8) = 0x30 + int d" "(0x30 + of_nat d :: u8) \<noteq> 0" "(0x30 + of_nat d :: u8) \<noteq> 0x2D"
    "\<not> is_wslfcr_rule (0x30 + of_nat d)"
proof -
  have "d \<in> {0, 1, 2, 3, 4, 5, 6, 7, 8, 9}" using assms by auto
  then show "sint (0x30 + of_nat d :: u8) = 0x30 + int d" "(0x30 + of_nat d :: u8) \<noteq> 0" "(0x30 + of_nat d :: u8) \<noteq> 0x2D"
    "\<not> is_wslfcr_rule (0x30 + of_nat d)"
    by (auto simp: is_wslfcr_rule_def is_ws_rule_def is_splf_rule_def is_spcr_rule_def char_defs)
qed

lemma digit_is_digit: "d < 10 \<Longrightarrow> is_digit_rule (0x30 + of_nat d)"
  by (simp add: is_digit_rule_def digit_char(1))

lemma atoi_neg_digit: "d < 10 \<Longrightarrow> atoi_neg w ((0x30 + of_nat d) # cs) = atoi_neg (w * 10 - of_nat d) cs"
  using digit_char(1,2)[of d] digit_is_digit[of d] by simp

lemma atoi_neg_digits: "\<exists>m. atoi_neg w (dec_digits n @ cs) = atoi_neg (w * m - of_nat n) cs"
proof (induction n arbitrary: w cs rule: dec_digits.induct)
  case (1 n)
  show ?case
  proof (cases "n < 10")
    case True
    then show ?thesis using atoi_neg_digit[of n w cs] by (intro exI[of _ 10]) (simp add: dec_digits.simps[of n])
  next
    case False
    obtain m where m: "atoi_neg w (dec_digits (n div 10) @ (0x30 + of_nat (n mod 10)) # cs) = atoi_neg (w * m - of_nat (n div 10)) ((0x30 + of_nat (n mod 10)) # cs)"
      using 1[OF False, of w "(0x30 + of_nat (n mod 10)) # cs"] by blast
    have "(of_nat n :: 'a word) = of_nat (n div 10) * 10 + of_nat (n mod 10)" by (metis div_mult_mod_eq of_nat_add of_nat_mult of_nat_numeral)
    then have "(w * m - of_nat (n div 10)) * 10 - of_nat (n mod 10) = w * (m * 10) - of_nat n" by (simp add: algebra_simps)
    moreover have "dec_digits n @ cs = dec_digits (n div 10) @ (0x30 + of_nat (n mod 10)) # cs" using False by (simp add: dec_digits.simps[of n])
    moreover have "atoi_neg (w * m - of_nat (n div 10)) ((0x30 + of_nat (n mod 10)) # cs) =
        atoi_neg ((w * m - of_nat (n div 10)) * 10 - of_nat (n mod 10)) cs" by (rule atoi_neg_digit) simp
    ultimately show ?thesis using m by (intro exI[of _ "m * 10"]) (simp only:)
  qed
qed

lemma dec_digits_hd: "\<exists>d ds. dec_digits n = (0x30 + of_nat d) # ds \<and> d < 10 \<and> (\<forall>x\<in>set ds. \<exists>e<10. x = 0x30 + of_nat e)"
proof (induction n rule: dec_digits.induct)
  case (1 n)
  show ?case
  proof (cases "n < 10")
    case False
    then obtain d ds where "dec_digits (n div 10) = (0x30 + of_nat d) # ds" "d < 10" "\<forall>x\<in>set ds. \<exists>e<10. x = 0x30 + of_nat e" using 1 by blast
    then show ?thesis using False
      by (intro exI[of _ d] exI[of _ "ds @ [0x30 + of_nat (n mod 10)]"]) (auto simp: dec_digits.simps[of n] intro: exI[of _ "n mod 10"])
  qed (auto simp: dec_digits.simps[of n])
qed

lemma skip_wslfcr_prefix:
  "\<forall>c\<in>set ws. is_wslfcr c \<Longrightarrow> \<not> is_wslfcr_rule c \<Longrightarrow> skip_wslfcr (ws @ c # cs) = c # cs"
proof (induction ws)
  case (Cons w ws)
  then have "w \<noteq> 0" by (auto simp: is_wslfcr_rule_def is_ws_rule_def is_splf_rule_def is_spcr_rule_def char_defs)
  then show ?case using Cons by simp
qed simp

lemma signed_atoi_decimal:
  assumes "\<forall>c\<in>set ws. is_wslfcr c" "rest = [] \<or> \<not> is_digit (hd rest) \<and> hd rest \<noteq> 0x78"
  shows "signed_atoi (ws @ decimal z @ rest) = (word_of_int z :: 'a::len word)"
proof -
  have stop: "atoi_neg (w :: 'a word) rest = w" for w using assms(2) by (cases rest) auto
  have D: "atoi_neg (0 :: 'a word) (dec_digits n @ rest) = - of_nat n" for n using atoi_neg_digits[of "0 :: 'a word" n rest] stop by auto
  show ?thesis
  proof (cases "z < 0")
    case True
    have "\<not> is_wslfcr_rule 0x2D" by (simp add: is_wslfcr_rule_def is_ws_rule_def is_splf_rule_def is_spcr_rule_def char_defs)
    then have "skip_wslfcr (ws @ decimal z @ rest) = 0x2D # dec_digits (nat (- z)) @ rest"
      using skip_wslfcr_prefix[OF assms(1)] True by (simp add: decimal_def)
    then show ?thesis using D[of "nat (- z)"] True by (simp add: signed_atoi_def chr_at_def)
  next
    case False
    obtain d ds where d: "dec_digits (nat z) = (0x30 + of_nat d) # ds" "d < 10" "\<forall>x\<in>set ds. \<exists>e<10. x = 0x30 + of_nat e" using dec_digits_hd by blast
    have s: "skip_wslfcr (ws @ decimal z @ rest) = dec_digits (nat z) @ rest"
      using skip_wslfcr_prefix[OF assms(1) digit_char(4)[OF d(2)], of "ds @ rest"] False d(1) by (simp add: decimal_def)
    have "chr_at (dec_digits (nat z) @ rest) 1 \<noteq> 0x78"
    proof (cases ds)
      case Nil
      then show ?thesis using d(1) assms(2) by (cases rest) (auto simp: chr_at_def)
    next
      case (Cons x xs)
      then obtain e where "e < 10" "x = 0x30 + of_nat e" using d(3) by auto
      then have "sint x = 0x30 + int e" using digit_char(1) by simp
      then have "x \<noteq> 0x78" using \<open>e < 10\<close> by auto
      then show ?thesis using d(1) Cons by (simp add: chr_at_def)
    qed
    moreover have "chr_at (dec_digits (nat z) @ rest) 0 \<noteq> 0x2D" using d(1) digit_char(3)[OF d(2)] by (simp add: chr_at_def)
    ultimately show ?thesis using D[of "nat z"] False unfolding signed_atoi_def s by (simp add: Let_def)
  qed
qed

text \<open>C27: \<^verbatim>\<open>ink_atoi\<close> and \<^verbatim>\<open>ink_atoll\<close> read back every number of their range, the least one included, from its decimal
  representation, behind any white space and in front of anything that does not continue the number.\<close>

theorem ink_atoi_roundtrip:
  assumes "\<forall>c\<in>set ws. is_wslfcr c" "rest = [] \<or> \<not> is_digit (hd rest) \<and> hd rest \<noteq> 0x78"
  shows "(- (2 ^ 31) \<le> z \<and> z < 2 ^ 31 \<longrightarrow> sint (ink_atoi (ws @ decimal z @ rest)) = z) \<and>
    (- (2 ^ 63) \<le> z \<and> z < 2 ^ 63 \<longrightarrow> sint (ink_atoll (ws @ decimal z @ rest)) = z)"
  unfolding ink_atoi_def ink_atoll_def signed_atoi_decimal[OF assms] by (auto simp: signed_of_int signed_take_bit_int_eq_self)

theorem ink_atoi_roundtrip_witness: "sint (ink_atoi ([32, 9] @ decimal (- 2147483648) @ [0x2C])) = - 2147483648"
  using ink_atoi_roundtrip[of "[32, 9]" "[0x2C]" "- 2147483648"]
  by (simp add: is_wslfcr_rule_def is_ws_rule_def is_splf_rule_def is_spcr_rule_def char_defs is_digit_rule_def)

end
