(* ===== verification/Chunked.thy ===== *)
theory Chunked
  imports Io_Buffer_Api Parse_Rules
begin

text \<open>
  The chunked transfer coding of the HTTP tunnel (\<^verbatim>\<open>proxy/http2/HttpTunnel.cc\<close>, class \<^verbatim>\<open>ChunkedHandler\<close>, and the
  two producer handlers that call it), on the I/O buffers of \<open>Io_Buffer\<close> and the character rules of
  \<open>Parse_Rules\<close>. The operations run on the heap of blocks and the handler. The reader that a handler takes its input
  from is part of the handler's record; the buffer the reader belongs to is not touched. \<^verbatim>\<open>running_sum\<close> and
  \<^verbatim>\<open>num_digits\<close> are 32-bit words, the other C integers are \<^typ>\<open>int\<close>, with \<open>c_int\<close> where an \<^verbatim>\<open>ink64\<close> is
  assigned to an \<^verbatim>\<open>int\<close> or a counter may wrap. \<^term>\<open>None\<close> stands for a failed \<^verbatim>\<open>ink_release_assert\<close>, a null
  dereference or a loop that does not end.
\<close>

definition max_chunked_ahead_bytes :: int where "max_chunked_ahead_bytes = 2 ^ 15"
definition max_chunked_ahead_blocks :: nat where "max_chunked_ahead_blocks = 128"
definition min_block_transfer_bytes :: int where "min_block_transfer_bytes = 256"
definition max_chunk_size :: int where "max_chunk_size = 4096"

definition VC_EVENT_NONE :: int where "VC_EVENT_NONE = 0"
definition VC_EVENT_READ_READY :: int where "VC_EVENT_READ_READY = 100"
definition VC_EVENT_READ_COMPLETE :: int where "VC_EVENT_READ_COMPLETE = 102"
definition VC_EVENT_EOS :: int where "VC_EVENT_EOS = 104"
definition HTTP_TUNNEL_EVENT_PRECOMPLETE :: int where "HTTP_TUNNEL_EVENT_PRECOMPLETE = 2302"

lemmas event_defs = VC_EVENT_NONE_def VC_EVENT_READ_READY_def VC_EVENT_READ_COMPLETE_def VC_EVENT_EOS_def HTTP_TUNNEL_EVENT_PRECOMPLETE_def

datatype ChunkedState =
    CHUNK_READ_CHUNK | CHUNK_READ_SIZE_START | CHUNK_READ_SIZE | CHUNK_READ_SIZE_CRLF
  | CHUNK_READ_TRAILER_BLANK | CHUNK_READ_TRAILER_CR | CHUNK_READ_TRAILER_LINE | CHUNK_READ_ERROR | CHUNK_READ_DONE
  | CHUNK_WRITE_CHUNK | CHUNK_WRITE_DONE | CHUNK_FLOW_CONTROL

record ChunkedHandler =
  chunked_reader :: "reader option"
  dechunked_buffer :: "mio option"
  dechunked_size :: int
  dechunked_reader :: "reader option"
  chunked_buffer :: "mio option"
  chunked_size :: int
  truncation :: bool
  skip_bytes :: int
  state :: ChunkedState
  cur_chunk_size :: int
  bytes_left :: int
  last_server_event :: int
  running_sum :: u32
  num_digits :: u32

definition new_ChunkedHandler :: ChunkedHandler where
  "new_ChunkedHandler = \<lparr>chunked_reader = None, dechunked_buffer = None, dechunked_size = 0, dechunked_reader = None,
     chunked_buffer = None, chunked_size = 0, truncation = False, skip_bytes = 0, state = CHUNK_READ_CHUNK,
     cur_chunk_size = 0, bytes_left = 0, last_server_event = VC_EVENT_NONE, running_sum = 0, num_digits = 0\<rparr>"

text \<open>\<^verbatim>\<open>init(buffer_in, p)\<close>: \<open>inb\<close> is \<^verbatim>\<open>buffer_in->mbuf\<close>, \<open>k\<close> the identity of the buffer that is made.\<close>

definition chunked_init :: "nat \<Rightarrow> bool \<Rightarrow> bool \<Rightarrow> reader \<Rightarrow> ioheap \<times> mio \<times> ChunkedHandler \<Rightarrow> (ioheap \<times> mio \<times> ChunkedHandler) option" where
  "chunked_init k do_chunking do_dechunking buffer_in = (\<lambda>(h, inb, c).
     let c1 = c\<lparr>running_sum := 0, num_digits := 0, cur_chunk_size := 0, bytes_left := 0, truncation := False\<rparr>
     in if do_chunking then do {
          (i, inb1) \<leftarrow> clone_reader buffer_in inb;
          let inb2 = inb1\<lparr>m_water_mark := min_block_transfer_bytes\<rparr>;
          (h1, m) \<leftarrow> new_MIOBuffer k (DEFAULT_BUFFER_SIZES - 1) h;
          Some (h1, inb2, c1\<lparr>dechunked_reader := Some (m_readers inb2 ! i), chunked_buffer := Some m, chunked_size := 0\<rparr>)
        } else do {
          (i, inb1) \<leftarrow> clone_reader buffer_in inb;
          let c2 = c1\<lparr>chunked_reader := Some (m_readers inb1 ! i)\<rparr>;
          if do_dechunking then do {
            (h1, m) \<leftarrow> new_MIOBuffer k (DEFAULT_BUFFER_SIZES - 1) h;
            Some (h1, inb1, c2\<lparr>dechunked_buffer := Some m, dechunked_size := 0\<rparr>)
          } else Some (h, inb1, c2)
        })"

section \<open>Reading\<close>

text \<open>One turn of the inner loop of \<^verbatim>\<open>read_size\<close>; the flag is \<^verbatim>\<open>done\<close>.\<close>

definition size_byte :: "u8 \<Rightarrow> ChunkedHandler \<Rightarrow> ChunkedHandler \<times> bool" where
  "size_byte tmp c =
     (if state c = CHUNK_READ_SIZE then
        (if is_hex tmp then
           (c\<lparr>num_digits := num_digits c + 1,
              running_sum := running_sum c * 16 + word_of_int (if is_digit tmp then sint tmp - 0x30 else sint (ink_tolower tmp) - 0x61 + 10)\<rparr>, False)
         else if num_digits c = 0 \<or> sint (running_sum c) < 0 then (c\<lparr>state := CHUNK_READ_ERROR\<rparr>, True)
         else (c\<lparr>state := CHUNK_READ_SIZE_CRLF\<rparr>, False))
      else if state c = CHUNK_READ_SIZE_CRLF then
        (if is_lf tmp then
           (c\<lparr>cur_chunk_size := sint (running_sum c), bytes_left := sint (running_sum c),
              state := (if running_sum c = 0 then CHUNK_READ_TRAILER_BLANK else CHUNK_READ_CHUNK)\<rparr>, True)
         else (c, False))
      else if state c = CHUNK_READ_SIZE_START then
        (if is_lf tmp then (c\<lparr>running_sum := 0, num_digits := 0, state := CHUNK_READ_SIZE\<rparr>, False) else (c, False))
      else (c, False))"

text \<open>One turn of the inner loop of \<^verbatim>\<open>read_trailer\<close>.\<close>

definition trailer_byte :: "u8 \<Rightarrow> ChunkedHandler \<Rightarrow> ChunkedHandler \<times> bool" where
  "trailer_byte tmp c =
     (if is_cr tmp then
        (c\<lparr>state := (if state c = CHUNK_READ_TRAILER_BLANK then CHUNK_READ_TRAILER_CR else CHUNK_READ_TRAILER_LINE)\<rparr>, False)
      else if is_lf tmp then
        (if state c = CHUNK_READ_TRAILER_CR \<or> state c = CHUNK_READ_TRAILER_BLANK then (c\<lparr>state := CHUNK_READ_DONE\<rparr>, True)
         else (c\<lparr>state := CHUNK_READ_TRAILER_BLANK\<rparr>, False))
      else (c\<lparr>state := CHUNK_READ_TRAILER_LINE\<rparr>, False))"

text \<open>The inner loops, over the bytes of one block: the bytes used, \<^verbatim>\<open>done\<close>, the handler.\<close>

fun scan_block :: "(u8 \<Rightarrow> ChunkedHandler \<Rightarrow> ChunkedHandler \<times> bool) \<Rightarrow> u8 list \<Rightarrow> int \<Rightarrow> ChunkedHandler \<Rightarrow> int \<times> bool \<times> ChunkedHandler" where
  "scan_block f [] bytes_used c = (bytes_used, False, c)"
| "scan_block f (x # xs) bytes_used c =
     (let (c', fin) = f x c in if fin then (bytes_used + 1, True, c') else scan_block f xs (bytes_used + 1) c')"

text \<open>The outer loops of \<^verbatim>\<open>read_size\<close> and \<^verbatim>\<open>read_trailer\<close>.\<close>

partial_function (option) scan_blocks ::
  "(u8 \<Rightarrow> ChunkedHandler \<Rightarrow> ChunkedHandler \<times> bool) \<Rightarrow> ioheap \<Rightarrow> bool \<Rightarrow> reader \<Rightarrow> ChunkedHandler \<Rightarrow> (reader \<times> ChunkedHandler) option" where
  "scan_blocks f h fin r c = do {
     avail \<leftarrow> reader_read_avail h r;
     if avail > 0 \<and> \<not> fin then do {
       (tmp, r1) \<leftarrow> reader_start h r;
       (l, r2) \<leftarrow> reader_block_read_avail h r1;
       let bs = (case tmp of None \<Rightarrow> [] | Some (d, s) \<Rightarrow> data_slice h d s (c_int l));
       let (bytes_used, fin', c') = scan_block f bs 0 c;
       r3 \<leftarrow> reader_consume h r2 bytes_used;
       scan_blocks f h fin' r3 c'
     } else Some (r, c)
   }"

definition read_scan :: "(u8 \<Rightarrow> ChunkedHandler \<Rightarrow> ChunkedHandler \<times> bool) \<Rightarrow> ioheap \<times> ChunkedHandler \<Rightarrow> (ioheap \<times> ChunkedHandler) option" where
  "read_scan f = (\<lambda>(h, c). case chunked_reader c of
     None \<Rightarrow> None
   | Some r \<Rightarrow> do { (r', c') \<leftarrow> scan_blocks f h False r c; Some (h, c'\<lparr>chunked_reader := Some r'\<rparr>) })"

definition read_size :: "ioheap \<times> ChunkedHandler \<Rightarrow> (ioheap \<times> ChunkedHandler) option" where
  "read_size = read_scan size_byte"

definition read_trailer :: "ioheap \<times> ChunkedHandler \<Rightarrow> (ioheap \<times> ChunkedHandler) option" where
  "read_trailer = read_scan trailer_byte"

text \<open>\<^verbatim>\<open>transfer_bytes\<close>: by reference to the blocks when there is enough to move, else by copying.\<close>

definition move_run :: "int \<Rightarrow> int \<Rightarrow> ioheap \<Rightarrow> reader \<Rightarrow> mio \<Rightarrow> (int \<times> ioheap \<times> mio \<times> reader) option" where
  "move_run to_move left h r m =
     (if to_move \<ge> min_block_transfer_bytes
      then do { (n, h', m') \<leftarrow> mio_write_reader r left 0 (h, m); Some (c_int n, h', m', r) }
      else do {
        (p, r') \<leftarrow> reader_start h r;
        (n, h', m') \<leftarrow> mio_write (case p of None \<Rightarrow> [] | Some (d, st) \<Rightarrow> data_slice h d st to_move) (h, m);
        Some (c_int n, h', m', r')
      })"

text \<open>\<^verbatim>\<open>transfer_bytes\<close>: the loop, on the reader, the output buffer, \<^verbatim>\<open>bytes_left\<close>, \<^verbatim>\<open>dechunked_size\<close> and
  \<^verbatim>\<open>total_moved\<close>.\<close>

partial_function (option) transfer_loop ::
  "int \<Rightarrow> int \<Rightarrow> int \<Rightarrow> ioheap \<Rightarrow> reader \<Rightarrow> mio \<Rightarrow> (int \<times> int \<times> int \<times> ioheap \<times> reader \<times> mio) option" where
  "transfer_loop left dsize total_moved h r m =
     (if left > 0 then do {
        (avail, r1) \<leftarrow> reader_block_read_avail h r;
        let to_move = (if left \<le> c_int avail then left else c_int avail);
        if to_move \<le> 0 then Some (left, dsize, total_moved, h, r1, m)
        else do {
          (moved, h2, m2, r2) \<leftarrow> move_run to_move left h r1 m;
          if moved > 0 then do {
            r3 \<leftarrow> reader_consume h2 r2 moved;
            transfer_loop (left - moved) (c_int (dsize + moved)) (c_int (total_moved + moved)) h2 r3 m2
          } else Some (left, dsize, total_moved, h2, r2, m2)
        }
      } else Some (left, dsize, total_moved, h, r, m))"

definition transfer_bytes :: "ioheap \<times> ChunkedHandler \<Rightarrow> (int \<times> ioheap \<times> ChunkedHandler) option" where
  "transfer_bytes = (\<lambda>(h, c). case chunked_reader c of
     None \<Rightarrow> None
   | Some r \<Rightarrow>
      (case dechunked_buffer c of
         None \<Rightarrow> do {
           avail \<leftarrow> reader_read_avail h r;
           let moved = (if bytes_left c \<le> avail then bytes_left c else avail);
           r' \<leftarrow> reader_consume h r moved;
           Some (moved, h, c\<lparr>chunked_reader := Some r', bytes_left := bytes_left c - moved\<rparr>)
         }
       | Some m \<Rightarrow> do {
           (left, dsize, total_moved, h', r', m') \<leftarrow> transfer_loop (bytes_left c) (dechunked_size c) 0 h r m;
           Some (total_moved, h', c\<lparr>chunked_reader := Some r', dechunked_buffer := Some m', bytes_left := left, dechunked_size := dsize\<rparr>)
         }))"

text \<open>The test of the flow control, on the buffer that is written.\<close>

definition too_far_ahead :: "ioheap \<Rightarrow> mio \<Rightarrow> bool option" where
  "too_far_ahead h m = do {
     a \<leftarrow> max_read_avail h m;
     if a > max_chunked_ahead_bytes then Some True
     else do { n \<leftarrow> max_block_count h m; Some (n > max_chunked_ahead_blocks) }
   }"

definition read_chunk :: "ioheap \<times> ChunkedHandler \<Rightarrow> (ioheap \<times> ChunkedHandler) option" where
  "read_chunk s = do {
     (b, h, c) \<leftarrow> transfer_bytes s;
     if bytes_left c = 0 then
       (case dechunked_buffer c of
          None \<Rightarrow> Some (h, c\<lparr>state := CHUNK_READ_SIZE_START\<rparr>)
        | Some m \<Rightarrow> do {
            f \<leftarrow> too_far_ahead h m;
            Some (h, c\<lparr>state := (if f then CHUNK_FLOW_CONTROL else CHUNK_READ_SIZE_START)\<rparr>)
          })
     else Some (h, c)
   }"

partial_function (option) process_loop :: "ioheap \<Rightarrow> ChunkedHandler \<Rightarrow> (bool \<times> ioheap \<times> ChunkedHandler) option" where
  "process_loop h c =
     (case chunked_reader c of
        None \<Rightarrow> None
      | Some r \<Rightarrow> do {
          avail \<leftarrow> reader_read_avail h r;
          if avail > 0 \<and> state c \<noteq> CHUNK_READ_DONE \<and> state c \<noteq> CHUNK_READ_ERROR then
            (if state c \<in> {CHUNK_READ_SIZE, CHUNK_READ_SIZE_CRLF, CHUNK_READ_SIZE_START}
             then do { (h', c') \<leftarrow> read_size (h, c); process_loop h' c' }
             else if state c = CHUNK_READ_CHUNK then do { (h', c') \<leftarrow> read_chunk (h, c); process_loop h' c' }
             else if state c \<in> {CHUNK_READ_TRAILER_BLANK, CHUNK_READ_TRAILER_CR, CHUNK_READ_TRAILER_LINE}
             then do { (h', c') \<leftarrow> read_trailer (h, c); process_loop h' c' }
             else if state c = CHUNK_FLOW_CONTROL then Some (False, h, c)
             else None)
          else Some (state c = CHUNK_READ_DONE \<or> state c = CHUNK_READ_ERROR, h, c)
        })"

definition process_chunked_content :: "ioheap \<times> ChunkedHandler \<Rightarrow> (bool \<times> ioheap \<times> ChunkedHandler) option" where
  "process_chunked_content = (\<lambda>(h, c). process_loop h c)"

section \<open>Writing\<close>

text \<open>\<^verbatim>\<open>snprintf\<close> with \<^verbatim>\<open>%x\<close>.\<close>

fun hex_digits :: "nat \<Rightarrow> u8 list" where
  "hex_digits n = (let d = of_nat (n mod 16); x = (if n mod 16 < 10 then 0x30 + d else 0x61 + (d - 10))
     in if n < 16 then [x] else hex_digits (n div 16) @ [x])"

definition CRLF :: "u8 list" where "CRLF = [13, 10]"

definition max_chunk_buf :: "u8 list" where
  "max_chunk_buf = hex_digits (nat max_chunk_size) @ CRLF"

text \<open>One turn of the loop of \<^verbatim>\<open>generate_chunked_content\<close>, behind the flow control.\<close>

definition write_chunk :: "int \<Rightarrow> ioheap \<times> reader \<times> mio \<times> ChunkedHandler \<Rightarrow> (ioheap \<times> reader \<times> mio \<times> ChunkedHandler) option" where
  "write_chunk write_val = (\<lambda>(h, r, m, c). do {
     let tmp = (if write_val \<noteq> max_chunk_size then hex_digits (nat write_val) @ CRLF else max_chunk_buf);
     (_, h1, m1) \<leftarrow> mio_write tmp (h, m);
     (_, h2, m2) \<leftarrow> mio_write_reader r write_val 0 (h1, m1);
     r' \<leftarrow> reader_consume h2 r write_val;
     (_, h3, m3) \<leftarrow> mio_write CRLF (h2, m2);
     Some (h3, r', m3, c\<lparr>state := CHUNK_WRITE_CHUNK,
       chunked_size := c_int (c_int (c_int (chunked_size c + int (length tmp)) + write_val) + 2)\<rparr>)
   })"

text \<open>The loop; the flag tells that the flow control returned from the function.\<close>

partial_function (option) generate_loop ::
  "bool \<Rightarrow> ioheap \<Rightarrow> reader \<Rightarrow> mio \<Rightarrow> ChunkedHandler \<Rightarrow> (bool \<times> ioheap \<times> reader \<times> mio \<times> ChunkedHandler) option" where
  "generate_loop server_done h r m c = do {
        avail \<leftarrow> reader_read_avail h r;
        if avail > 0 \<and> state c \<noteq> CHUNK_WRITE_DONE then do {
          let write_val = (if max_chunk_size \<le> avail then max_chunk_size else avail);
          f \<leftarrow> (if \<not> server_done then too_far_ahead h m else Some False);
          if f then Some (True, h, r, m, c\<lparr>state := CHUNK_FLOW_CONTROL\<rparr>)
          else do { (h', r', m', c') \<leftarrow> write_chunk write_val (h, r, m, c); generate_loop server_done h' r' m' c' }
        } else Some (False, h, r, m, c)
      }"

definition generate_chunked_content :: "ioheap \<times> ChunkedHandler \<Rightarrow> (bool \<times> ioheap \<times> ChunkedHandler) option" where
  "generate_chunked_content = (\<lambda>(h, c). case (dechunked_reader c, chunked_buffer c) of
     (Some r, Some m) \<Rightarrow> do {
       let server_done = (last_server_event c \<in> {VC_EVENT_EOS, VC_EVENT_READ_COMPLETE, HTTP_TUNNEL_EVENT_PRECOMPLETE});
       (stop, h1, r1, m1, c1) \<leftarrow> generate_loop server_done h r m c;
       if \<not> stop \<and> server_done then do {
         (_, h2, m2) \<leftarrow> mio_write ([0x30] @ CRLF @ CRLF) (h1, m1);
         Some (True, h2, c1\<lparr>dechunked_reader := Some r1, chunked_buffer := Some m2, state := CHUNK_WRITE_DONE,
           chunked_size := c_int (chunked_size c1 + 5)\<rparr>)
       } else Some (False, h1, c1\<lparr>dechunked_reader := Some r1, chunked_buffer := Some m1\<rparr>)
     }
   | _ \<Rightarrow> None)"

section \<open>The producer handlers\<close>

text \<open>The parts of a producer that they use: the handler and \<^verbatim>\<open>nbytes\<close> and \<^verbatim>\<open>ndone\<close> of \<^verbatim>\<open>read_vio\<close>.\<close>

record vio =
  nbytes :: int
  ndone :: int

datatype TunnelChunkingAction_t = TCA_CHUNK_CONTENT | TCA_DECHUNK_CONTENT | TCA_PASSTHRU_CHUNKED_CONTENT | TCA_PASSTHRU_DECHUNKED_CONTENT

record producer =
  chunked_handler :: ChunkedHandler
  chunking_action :: TunnelChunkingAction_t
  read_vio :: "vio option"

definition producer_handler_dechunked :: "int \<Rightarrow> ioheap \<times> producer \<Rightarrow> (int \<times> ioheap \<times> producer) option" where
  "producer_handler_dechunked event = (\<lambda>(h, p).
     if event \<in> {VC_EVENT_READ_READY, VC_EVENT_READ_COMPLETE, HTTP_TUNNEL_EVENT_PRECOMPLETE, VC_EVENT_EOS} then do {
       (_, h', c') \<leftarrow> generate_chunked_content (h, (chunked_handler p)\<lparr>last_server_event := event\<rparr>);
       Some (event, h', p\<lparr>chunked_handler := c'\<rparr>)
     } else Some (event, h, p))"

definition producer_handler_chunked :: "int \<Rightarrow> ioheap \<times> producer \<Rightarrow> (int \<times> ioheap \<times> producer) option" where
  "producer_handler_chunked event = (\<lambda>(h, p).
     if event \<notin> {VC_EVENT_READ_READY, VC_EVENT_READ_COMPLETE, HTTP_TUNNEL_EVENT_PRECOMPLETE, VC_EVENT_EOS} then Some (event, h, p)
     else do {
       (fin, h', c) \<leftarrow> process_chunked_content (h, (chunked_handler p)\<lparr>last_server_event := event\<rparr>);
       if state c = CHUNK_READ_ERROR then Some (VC_EVENT_EOS, h', p\<lparr>chunked_handler := c\<lparr>truncation := True\<rparr>\<rparr>)
       else if read_vio p \<noteq> None \<and> state c = CHUNK_FLOW_CONTROL
       then Some (VC_EVENT_READ_READY, h', p\<lparr>chunked_handler := c, read_vio := map_option (\<lambda>v. v\<lparr>nbytes := ndone v\<rparr>) (read_vio p)\<rparr>)
       else if event = VC_EVENT_READ_READY
       then Some (if fin then VC_EVENT_READ_COMPLETE else event, h', p\<lparr>chunked_handler := c\<rparr>)
       else Some (event, h', p\<lparr>chunked_handler := (if \<not> fin then c\<lparr>truncation := True\<rparr> else c)\<rparr>)
     })"

text \<open>\<^verbatim>\<open>set_producer_chunking_action\<close>.\<close>

definition set_producer_chunking_action :: "int \<Rightarrow> TunnelChunkingAction_t \<Rightarrow> producer \<Rightarrow> producer" where
  "set_producer_chunking_action skip action p =
     (let c = (chunked_handler p)\<lparr>skip_bytes := skip\<rparr>
      in p\<lparr>chunking_action := action, chunked_handler := (case action of
             TCA_CHUNK_CONTENT \<Rightarrow> c\<lparr>state := CHUNK_WRITE_CHUNK\<rparr>
           | TCA_DECHUNK_CONTENT \<Rightarrow> c\<lparr>state := CHUNK_READ_SIZE\<rparr>
           | TCA_PASSTHRU_CHUNKED_CONTENT \<Rightarrow> c\<lparr>state := CHUNK_READ_SIZE\<rparr>
           | _ \<Rightarrow> c)\<rparr>)"

end
