(* ===== verification/Chunked_Main.thy ===== *)
theory Chunked_Main
  imports Chunked
begin

text \<open>
  The chunked coding is correct. \<open>pipe_ok\<close> is the state the tunnel works in: a reader to take bytes from and a
  buffer, on other blocks, to put bytes into; the locale \<open>byte_pipe\<close> is its contract. \<open>chunk_byte\<close> is the
  specification of the decoder, an automaton that takes one byte at a time and knows nothing of blocks; the
  decoder, however the input is cut into blocks and calls, does what the automaton does. \<open>chunks\<close> is the
  specification of the encoder.
\<close>

section \<open>A reader and a buffer\<close>

definition pipe_ok :: "ioheap \<Rightarrow> reader \<Rightarrow> mio \<Rightarrow> bool" where
  "pipe_ok h r m \<longleftrightarrow> mio_inv (h, m) \<and> settled (h, m) \<and> reader_ok h r \<and> rd_size_limit r = INK64_MAX \<and>
     set (chain_of h (rd_block r)) \<inter> set (chain_of h (m_writer m)) = {}"

lemma pipe_readable: "rd_size_limit r = INK64_MAX \<Longrightarrow> readable h r = unread h r"
  by (simp add: readable_def)

lemma pipe_grows:
  assumes p: "pipe_ok h r m" and g: "grows bs (h, m) (h', m')" and s: "settled (h', m')"
  shows "pipe_ok h' r m'" "unread h' r = unread h r"
proof -
  have ok: "reader_ok h r" and d: "set (chain_of h (rd_block r)) \<inter> set (chain_of h (m_writer m)) = {}" using p by (simp_all add: pipe_ok_def)
  have sb: "same_blocks (set (chain_of h (m_writer m))) h h'" using growsD(2)[OF g] by simp
  have h': "heap_ok h'" using growsD(1)[OF g] by (simp add: mio_inv_def)
  note F = reader_frame[OF ok sb h' d]
  show "unread h' r = unread h r" by (rule F(2))
  have "path (blocks h) (rd_block r) (chain_of h (rd_block r))" using ok by (simp add: reader_ok_def chain_ok_def)
  then have "set (chain_of h (rd_block r)) \<subseteq> {..<length (blocks h)}" by (rule path_bound)
  then have "set (chain_of h' (rd_block r)) \<inter> set (chain_of h' (m_writer m')) = {}" using growsD(3)[OF g] d F(4) by fastforce
  then show "pipe_ok h' r m'" using p F(1) growsD(1)[OF g] s by (simp add: pipe_ok_def)
qed

lemma moves_chain: "moves h r r' \<Longrightarrow> set (chain_of h (rd_block r')) \<subseteq> set (chain_of h (rd_block r))"
  by (auto simp: moves_def)

lemma pipe_moves:
  assumes "pipe_ok h r m" "reader_ok h r'" "moves h r r'" "rd_size_limit r' = INK64_MAX"
  shows "pipe_ok h r' m"
  using assms moves_chain[OF assms(3)] by (auto simp: pipe_ok_def)

lemma pipe_write:
  assumes "pipe_ok h r m"
  shows "\<exists>h' m'. mio_write bs (h, m) = Some (int (length bs), h', m') \<and> pipe_ok h' r m' \<and> unread h' r = unread h r \<and> grows bs (h, m) (h', m')"
proof -
  obtain h' m' where W: "mio_write bs (h, m) = Some (int (length bs), h', m')" and g: "grows bs (h, m) (h', m')" and s: "settled (h', m')"
    using mio_write_ok[of "(h, m)" bs] assms by (auto simp: pipe_ok_def)
  then show ?thesis using pipe_grows[OF assms g s] by blast
qed

lemma pipe_copy:
  assumes "pipe_ok h r m" "0 \<le> n"
  shows "\<exists>h' m'. mio_write_reader r n 0 (h, m) = Some (int (length (take (nat n) (unread h r))), h', m') \<and> pipe_ok h' r m' \<and>
    unread h' r = unread h r \<and> grows (take (nat n) (unread h r)) (h, m) (h', m')"
proof -
  have w: "window n 0 (unread h r) = take (nat n) (unread h r)" using assms(2) by (simp add: window_def)
  obtain s' where W: "mio_write_reader r n 0 (h, m) = Some (int (length (take (nat n) (unread h r))), s')"
    and g: "grows (take (nat n) (unread h r)) (h, m) s'" and s: "settled s'"
    using mio_write_reader_ok[of h m r 0 n, unfolded w] assms by (auto simp: pipe_ok_def)
  obtain h' m' where e: "s' = (h', m')" by (cases s')
  show ?thesis using W pipe_grows[OF assms(1) g[unfolded e] s[unfolded e]] g unfolding e by blast
qed

lemma pipe_skip:
  assumes "pipe_ok h r m" "0 \<le> n" "n \<le> int (length (unread h r))"
  shows "\<exists>r'. reader_consume h r n = Some r' \<and> pipe_ok h r' m \<and> unread h r' = drop (nat n) (unread h r)"
proof -
  have r: "reader_ok h r" "rd_size_limit r = INK64_MAX" using assms(1) by (simp_all add: pipe_ok_def)
  obtain r' where R: "reader_consume h r n = Some r'" "reader_ok h r'" "unread h r' = drop (nat n) (unread h r)"
    "rd_size_limit r' = INK64_MAX" "moves h r r'"
    using reader_consume_ok[OF r(1) assms(2)] assms(3) r(2) by (auto simp: pipe_readable)
  then show ?thesis using pipe_moves[OF assms(1) R(2,5,4)] by blast
qed

text \<open>The contract of a source of bytes connected to a sink, and the two ways the tunnel uses it.\<close>

locale byte_pipe =
  fixes ok :: "'s \<Rightarrow> bool" and src :: "'s \<Rightarrow> u8 list" and sent :: "u8 list \<Rightarrow> 's \<Rightarrow> 's \<Rightarrow> bool"
    and put :: "u8 list \<Rightarrow> 's \<Rightarrow> 's option" and copy :: "int \<Rightarrow> 's \<Rightarrow> 's option" and skip :: "int \<Rightarrow> 's \<Rightarrow> 's option"
  assumes put_law: "ok s \<Longrightarrow> \<exists>s'. put bs s = Some s' \<and> ok s' \<and> src s' = src s \<and> sent bs s s'"
    and copy_law: "ok s \<Longrightarrow> 0 \<le> n \<Longrightarrow> \<exists>s'. copy n s = Some s' \<and> ok s' \<and> src s' = src s \<and> sent (take (nat n) (src s)) s s'"
    and skip_law: "ok s \<Longrightarrow> 0 \<le> n \<Longrightarrow> n \<le> int (length (src s)) \<Longrightarrow> \<exists>s'. skip n s = Some s' \<and> ok s' \<and> src s' = drop (nat n) (src s) \<and> sent [] s s'"
    and sent_trans: "sent as s s1 \<Longrightarrow> sent bs s1 s2 \<Longrightarrow> sent (as @ bs) s s2"
begin

lemma move_law:
  assumes "ok s" "0 \<le> n" "n \<le> int (length (src s))"
  shows "\<exists>s1 s2. copy n s = Some s1 \<and> skip n s1 = Some s2 \<and> ok s2 \<and> src s2 = drop (nat n) (src s) \<and> sent (take (nat n) (src s)) s s2"
proof -
  obtain s1 where s1: "copy n s = Some s1" "ok s1" "src s1 = src s" "sent (take (nat n) (src s)) s s1" using copy_law[OF assms(1,2)] by blast
  obtain s2 where "skip n s1 = Some s2" "ok s2" "src s2 = drop (nat n) (src s)" "sent [] s1 s2" using skip_law[OF s1(2) assms(2)] assms(3) s1(3) by auto
  then show ?thesis using s1 sent_trans[OF s1(4)] by fastforce
qed

text \<open>A piece of the source between a text in front of it and one behind it.\<close>

lemma framed_law:
  assumes "ok s" "0 \<le> n" "n \<le> int (length (src s))"
  shows "\<exists>s1 s2 s3 s4. put as s = Some s1 \<and> copy n s1 = Some s2 \<and> skip n s2 = Some s3 \<and> put bs s3 = Some s4 \<and> ok s4 \<and>
    src s4 = drop (nat n) (src s) \<and> sent (as @ take (nat n) (src s) @ bs) s s4"
proof -
  obtain s1 where s1: "put as s = Some s1" "ok s1" "src s1 = src s" "sent as s s1" using put_law[OF assms(1)] by blast
  obtain s2 s3 where s3: "copy n s1 = Some s2" "skip n s2 = Some s3" "ok s3" "src s3 = drop (nat n) (src s)" "sent (take (nat n) (src s)) s1 s3"
    using move_law[OF s1(2) assms(2)] assms(3) s1(3) by auto
  obtain s4 where s4: "put bs s3 = Some s4" "ok s4" "src s4 = src s3" "sent bs s3 s4" using put_law[OF s3(3)] by blast
  have "sent (as @ take (nat n) (src s) @ bs) s s4" by (rule sent_trans[OF s1(4) sent_trans[OF s3(5) s4(4)]])
  then show ?thesis using s1 s3 s4 by auto
qed

end

definition pipe_put :: "u8 list \<Rightarrow> ioheap \<times> reader \<times> mio \<Rightarrow> (ioheap \<times> reader \<times> mio) option" where
  "pipe_put bs = (\<lambda>(h, r, m). map_option (\<lambda>(_, h', m'). (h', r, m')) (mio_write bs (h, m)))"

definition pipe_cp :: "int \<Rightarrow> ioheap \<times> reader \<times> mio \<Rightarrow> (ioheap \<times> reader \<times> mio) option" where
  "pipe_cp n = (\<lambda>(h, r, m). map_option (\<lambda>(_, h', m'). (h', r, m')) (mio_write_reader r n 0 (h, m)))"

definition pipe_drop :: "int \<Rightarrow> ioheap \<times> reader \<times> mio \<Rightarrow> (ioheap \<times> reader \<times> mio) option" where
  "pipe_drop n = (\<lambda>(h, r, m). map_option (\<lambda>r'. (h, r', m)) (reader_consume h r n))"

definition pipe_sent :: "u8 list \<Rightarrow> ioheap \<times> reader \<times> mio \<Rightarrow> ioheap \<times> reader \<times> mio \<Rightarrow> bool" where
  "pipe_sent bs = (\<lambda>(h, r, m) (h', r', m'). grows bs (h, m) (h', m'))"

interpretation iop: byte_pipe "\<lambda>(h, r, m). pipe_ok h r m" "\<lambda>(h, r, m). unread h r" pipe_sent pipe_put pipe_cp pipe_drop
proof (unfold_locales, goal_cases)
  case (1 s bs)
  obtain h r m where s: "s = (h, r, m)" by (cases s)
  obtain h' m' where "mio_write bs (h, m) = Some (int (length bs), h', m')" "pipe_ok h' r m'" "unread h' r = unread h r" "grows bs (h, m) (h', m')"
    using pipe_write[of h r m bs] 1 by (auto simp: s)
  then show ?case by (simp add: s pipe_put_def pipe_sent_def)
next
  case (2 s n)
  obtain h r m where s: "s = (h, r, m)" by (cases s)
  obtain l h' m' where "mio_write_reader r n 0 (h, m) = Some (l, h', m')" "pipe_ok h' r m'" "unread h' r = unread h r" "grows (take (nat n) (unread h r)) (h, m) (h', m')"
    using pipe_copy[of h r m n] 2 by (auto simp: s)
  then show ?case by (simp add: s pipe_cp_def pipe_sent_def)
next
  case (3 s n)
  obtain h r m where s: "s = (h, r, m)" by (cases s)
  have I: "mio_inv (h, m)" using 3(1) by (simp add: s pipe_ok_def)
  obtain r' where "reader_consume h r n = Some r'" "pipe_ok h r' m" "unread h r' = drop (nat n) (unread h r)" using pipe_skip[of h r m n] 3 by (auto simp: s)
  then show ?case using grows_refl[OF I] by (simp add: s pipe_drop_def pipe_sent_def)
next
  case (4 as s s1 bs s2)
  then show ?case using grows_trans by (cases s, cases s1, cases s2) (auto simp: pipe_sent_def)
qed

text \<open>What a turn of a loop sees of the reader: a run of its next bytes.\<close>

lemma unread_block:
  assumes "reader_ok h r" "unread h r \<noteq> []"
  shows "rd_block r \<noteq> None"
proof
  assume n: "rd_block r = None"
  then have "path (blocks h) None (chain_of h None)" using assms(1) by (simp add: reader_ok_def chain_ok_def)
  then have "chain_of h None = []" by (cases "chain_of h None") auto
  then show False using assms(2) n by (simp add: unread_def chain_bytes_def)
qed

lemma pipe_run:
  assumes "pipe_ok h r m" "unread h r \<noteq> []"
  shows "\<exists>r' d st l. reader_block_read_avail h r = Some (l, r') \<and> reader_start h r' = Some (Some (d, st), r') \<and> pipe_ok h r' m \<and>
    unread h r' = unread h r \<and> 0 < l \<and> l \<le> int (length (unread h r)) \<and> (\<forall>n. 0 \<le> n \<longrightarrow> n \<le> l \<longrightarrow> data_slice h d st n = take (nat n) (unread h r))"
proof -
  have ok: "reader_ok h r" "rd_size_limit r = INK64_MAX" using assms(1) by (simp_all add: pipe_ok_def)
  from reader_run_ok[OF ok(1) unread_block[OF ok(1) assms(2)]] show ?thesis
  proof (elim exE conjE, goal_cases)
    case (1 r' d st l)
    then have "pipe_ok h r' m" using ok(2) by (intro pipe_moves[OF assms(1)]) simp_all
    then show ?case using 1 assms(2) by blast
  qed
qed

section \<open>Scanning the input\<close>

lemma scan_block_shift:
  "scan_block f bs u c = (case scan_block f bs 0 c of (u', d, c') \<Rightarrow> (u + u', d, c'))"
proof (induction bs arbitrary: u c)
  case (Cons x xs)
  show ?case
  proof (cases "snd (f x c)")
    case False
    then show ?thesis using Cons.IH[of "u + 1" "fst (f x c)"] Cons.IH[of 1 "fst (f x c)"] by (auto simp: split_beta)
  qed (auto simp: split_beta)
qed simp

lemma scan_block_append:
  "scan_block f (xs @ ys) u c = (case scan_block f xs u c of (u', d, c') \<Rightarrow> if d then (u', d, c') else scan_block f ys u' c')"
  by (induction xs arbitrary: u c) (auto simp: split_beta)

lemma scan_block_used:
  "scan_block f bs 0 c = (u, d, c') \<Longrightarrow> 0 \<le> u \<and> u \<le> int (length bs) \<and> (\<not> d \<longrightarrow> u = int (length bs)) \<and> (bs \<noteq> [] \<longrightarrow> 0 < u)"
proof (induction bs arbitrary: u c)
  case (Cons x xs)
  obtain c1 fin where f: "f x c = (c1, fin)" by fastforce
  show ?case
  proof (cases fin)
    case True
    then show ?thesis using Cons.prems by (auto simp: f)
  next
    case False
    obtain u1 where u1: "scan_block f xs 0 c1 = (u1, d, c')" "u = 1 + u1"
      using Cons.prems False scan_block_shift[of f xs 1 c1] by (auto simp: f split: prod.splits)
    then show ?thesis using Cons.IH[OF u1(1)] by auto
  qed
qed simp

text \<open>The loops of \<^verbatim>\<open>read_size\<close> and \<^verbatim>\<open>read_trailer\<close> over the blocks scan the unread bytes as one.\<close>

lemma scan_blocks_fin: "reader_ok h r \<Longrightarrow> scan_blocks f h True r c = Some (r, c)"
  by (subst scan_blocks.simps) (simp add: reader_read_avail_ok)

lemma scan_blocks_ok:
  assumes "reader_ok h r" "rd_size_limit r = INK64_MAX" "length (unread h r) < 2 ^ 31" "scan_block f (unread h r) 0 c = (u, d, c')"
  shows "\<exists>r'. scan_blocks f h False r c = Some (r', c') \<and> reader_ok h r' \<and> rd_size_limit r' = INK64_MAX \<and>
    unread h r' = drop (nat u) (unread h r) \<and> moves h r r'"
  using assms
proof (induction "length (unread h r)" arbitrary: r c u rule: less_induct)
  case less
  note ok = less.prems(1) and lim = less.prems(2)
  show ?case
  proof (cases "unread h r = []")
    case True
    then show ?thesis using less.prems by (subst scan_blocks.simps) (auto simp: reader_read_avail_ok[OF ok] pipe_readable[OF lim])
  next
    case ne: False
    from reader_run_ok[OF ok unread_block[OF ok ne]] show ?thesis
    proof (elim exE conjE, goal_cases)
      case (1 r1 st e l)
      note R = 1
      have l: "0 < l" "l < 2 ^ 31" using R(6,7) ne less.prems(3) by auto
      define bs where "bs = take (nat l) (unread h r)"
      have bs: "data_slice h st e (c_int l) = bs" using R(8) l by (simp add: c_int_id bs_def)
      have lb: "int (length bs) = l" using l R(6) by (simp add: bs_def)
      obtain u1 d1 c1 where S: "scan_block f bs 0 c = (u1, d1, c1)" by (metis prod_cases3)
      have U: "0 \<le> u1" "u1 \<le> l" "\<not> d1 \<Longrightarrow> u1 = l" "0 < u1" using scan_block_used[OF S] l lb by auto
      have "u1 \<le> int (length (readable h r1))" using U(2) R(5,6) lim by (simp add: pipe_readable)
      then obtain r3 where C: "reader_consume h r1 u1 = Some r3" "reader_ok h r3" "unread h r3 = drop (nat u1) (unread h r)"
        "rd_size_limit r3 = INK64_MAX" "moves h r1 r3"
        using reader_consume_ok[OF R(3) U(1)] R(4,11) lim by auto
      have mv: "moves h r r3" by (rule moves_trans[OF R(13) C(5)])
      have step: "scan_blocks f h False r c = scan_blocks f h d1 r3 c1"
        using ne R(15,16) S C(1) by (subst scan_blocks.simps) (simp add: reader_read_avail_ok[OF ok] pipe_readable[OF lim] bs)
      have whole: "scan_block f (unread h r) 0 c = (if d1 then (u1, True, c1) else scan_block f (drop (nat l) (unread h r)) u1 c1)"
        using scan_block_append[of f bs "drop (nat l) (unread h r)" 0 c] S by (auto simp: bs_def)
      show ?case
      proof (cases d1)
        case True
        then show ?thesis using whole step scan_blocks_fin[OF C(2)] C less.prems(4) mv by auto
      next
        case False
        have u1: "u1 = l" by (rule U(3)[OF False])
        obtain u2 where u2: "scan_block f (unread h r3) 0 c1 = (u2, d, c')" "u = l + u2"
          using whole False less.prems(4) scan_block_shift[of f "unread h r3" l c1] C(3) u1 by (auto split: prod.splits)
        have sm: "length (unread h r3) < length (unread h r)" using C(3) U(4) ne by simp
        obtain r' where "scan_blocks f h False r3 c1 = Some (r', c')" "reader_ok h r'" "rd_size_limit r' = INK64_MAX"
          "unread h r' = drop (nat u2) (unread h r3)" "moves h r3 r'"
          using less.hyps[OF sm C(2,4) _ u2(1)] sm less.prems(3) by auto
        moreover have "drop (nat u2) (unread h r3) = drop (nat u) (unread h r)"
          using scan_block_used[OF u2(1)] l u1 u2(2) C(3) by (simp add: nat_add_distrib add.commute)
        ultimately show ?thesis using step False moves_trans[OF mv] by auto
      qed
    qed
  qed
qed

section \<open>The decoder as an automaton\<close>

type_synonym chunk_cfg = "ChunkedState \<times> u32 \<times> u32 \<times> int"

definition hex_value :: "u8 \<Rightarrow> u32" where
  "hex_value x = word_of_int (if is_digit x then sint x - 0x30 else sint (ink_tolower x) - 0x61 + 10)"

text \<open>One byte: the next configuration and the bytes of content it yields. A configuration is the state, the
  sum and the number of the hexadecimal digits and the bytes left of the chunk.\<close>

fun chunk_byte :: "u8 \<Rightarrow> chunk_cfg \<Rightarrow> chunk_cfg \<times> u8 list" where
  "chunk_byte x (CHUNK_READ_SIZE, v, n, k) =
     (if is_hex x then ((CHUNK_READ_SIZE, v * 16 + hex_value x, n + 1, k), [])
      else if n = 0 \<or> sint v < 0 then ((CHUNK_READ_ERROR, v, n, k), [])
      else ((CHUNK_READ_SIZE_CRLF, v, n, k), []))"
| "chunk_byte x (CHUNK_READ_SIZE_CRLF, v, n, k) =
     (if x = 10 then (if v = 0 then (CHUNK_READ_TRAILER_BLANK, v, n, sint v) else (CHUNK_READ_CHUNK, v, n, sint v), [])
      else ((CHUNK_READ_SIZE_CRLF, v, n, k), []))"
| "chunk_byte x (CHUNK_READ_SIZE_START, v, n, k) =
     (if x = 10 then (CHUNK_READ_SIZE, 0, 0, k) else (CHUNK_READ_SIZE_START, v, n, k), [])"
| "chunk_byte x (CHUNK_READ_CHUNK, v, n, k) =
     ((if k = 1 then CHUNK_READ_SIZE_START else CHUNK_READ_CHUNK, v, n, k - 1), [x])"
| "chunk_byte x (CHUNK_READ_TRAILER_BLANK, v, n, k) =
     ((if x = 13 then CHUNK_READ_TRAILER_CR else if x = 10 then CHUNK_READ_DONE else CHUNK_READ_TRAILER_LINE, v, n, k), [])"
| "chunk_byte x (CHUNK_READ_TRAILER_CR, v, n, k) =
     ((if x = 10 then CHUNK_READ_DONE else CHUNK_READ_TRAILER_LINE, v, n, k), [])"
| "chunk_byte x (CHUNK_READ_TRAILER_LINE, v, n, k) =
     ((if x = 10 then CHUNK_READ_TRAILER_BLANK else CHUNK_READ_TRAILER_LINE, v, n, k), [])"
| "chunk_byte x s = (s, [])"

fun chunk_run :: "u8 list \<Rightarrow> chunk_cfg \<Rightarrow> chunk_cfg \<times> u8 list" where
  "chunk_run [] s = (s, [])"
| "chunk_run (x # xs) s = (let (s1, bs) = chunk_byte x s; (s2, cs) = chunk_run xs s1 in (s2, bs @ cs))"

lemma chunk_run_append:
  "chunk_run (xs @ ys) s = (let (s1, bs) = chunk_run xs s; (s2, cs) = chunk_run ys s1 in (s2, bs @ cs))"
  by (induction xs arbitrary: s) (auto simp: split_beta)

definition cfg_of :: "ChunkedHandler \<Rightarrow> chunk_cfg" where
  "cfg_of c = (if state c = CHUNK_FLOW_CONTROL then CHUNK_READ_SIZE_START else state c, running_sum c, num_digits c, bytes_left c)"

text \<open>The part of a handler that parsing does not change.\<close>

definition io_of :: "ChunkedHandler \<Rightarrow> reader option \<times> mio option \<times> bool \<times> int" where
  "io_of c = (chunked_reader c, dechunked_buffer c, truncation c, last_server_event c)"

definition size_states :: "ChunkedState set" where
  "size_states = {CHUNK_READ_SIZE, CHUNK_READ_SIZE_CRLF, CHUNK_READ_SIZE_START}"

definition trailer_states :: "ChunkedState set" where
  "trailer_states = {CHUNK_READ_TRAILER_BLANK, CHUNK_READ_TRAILER_CR, CHUNK_READ_TRAILER_LINE}"

definition parse_inv :: "ChunkedHandler \<Rightarrow> bool" where
  "parse_inv c \<longleftrightarrow> state c \<notin> {CHUNK_WRITE_CHUNK, CHUNK_WRITE_DONE} \<and> (state c = CHUNK_READ_CHUNK \<longrightarrow> 0 < bytes_left c \<and> bytes_left c < 2 ^ 31) \<and>
     (state c = CHUNK_READ_SIZE_CRLF \<longrightarrow> 0 \<le> sint (running_sum c))"

lemma sint_u32: "sint v < 2 ^ 31" "sint v = 0 \<longleftrightarrow> v = 0" for v :: u32
  using sint_less[of v] by (simp, metis signed_0 signed_word_eqI)

lemma size_byte_cfg:
  assumes "state c \<in> size_states" "parse_inv c" "size_byte x c = (c', fin)"
  shows "chunk_byte x (cfg_of c) = (cfg_of c', [])" "io_of c' = io_of c" "parse_inv c'" "\<not> fin \<Longrightarrow> state c' \<in> size_states"
    "fin \<Longrightarrow> state c' \<in> {CHUNK_READ_CHUNK, CHUNK_READ_TRAILER_BLANK, CHUNK_READ_ERROR}"
proof -
  consider (SZ) "state c = CHUNK_READ_SIZE" | (CR) "state c = CHUNK_READ_SIZE_CRLF" | (ST) "state c = CHUNK_READ_SIZE_START"
    using assms(1) by (auto simp: size_states_def)
  then have "chunk_byte x (cfg_of c) = (cfg_of c', []) \<and> io_of c' = io_of c \<and> parse_inv c' \<and> (\<not> fin \<longrightarrow> state c' \<in> size_states) \<and>
    (fin \<longrightarrow> state c' \<in> {CHUNK_READ_CHUNK, CHUNK_READ_TRAILER_BLANK, CHUNK_READ_ERROR})"
  proof cases
    case SZ
    then show ?thesis using assms(2,3) by (cases "is_hex x"; cases "num_digits c = 0 \<or> sint (running_sum c) < 0")
      (auto simp: size_byte_def cfg_of_def io_of_def parse_inv_def size_states_def hex_value_def simp del: is_hex_eq is_digit_eq ink_tolower_eq)
  next
    case CR
    then show ?thesis using assms(2,3) sint_u32[of "running_sum c"] by (cases "x = 10"; cases "running_sum c = 0")
      (auto simp: size_byte_def cfg_of_def io_of_def parse_inv_def size_states_def is_lf_def char_defs)
  next
    case ST
    then show ?thesis using assms(2,3) by (cases "x = 10")
      (auto simp: size_byte_def cfg_of_def io_of_def parse_inv_def size_states_def is_lf_def char_defs)
  qed
  then show "chunk_byte x (cfg_of c) = (cfg_of c', [])" "io_of c' = io_of c" "parse_inv c'" "\<not> fin \<Longrightarrow> state c' \<in> size_states"
    "fin \<Longrightarrow> state c' \<in> {CHUNK_READ_CHUNK, CHUNK_READ_TRAILER_BLANK, CHUNK_READ_ERROR}" by blast+
qed

lemma trailer_byte_cfg:
  assumes "state c \<in> trailer_states" "parse_inv c" "trailer_byte x c = (c', fin)"
  shows "chunk_byte x (cfg_of c) = (cfg_of c', [])" "io_of c' = io_of c" "parse_inv c'" "\<not> fin \<Longrightarrow> state c' \<in> trailer_states"
    "fin \<Longrightarrow> state c' = CHUNK_READ_DONE"
proof -
  have "state c = CHUNK_READ_TRAILER_BLANK \<or> state c = CHUNK_READ_TRAILER_CR \<or> state c = CHUNK_READ_TRAILER_LINE"
    using assms(1) by (simp add: trailer_states_def)
  then have "chunk_byte x (cfg_of c) = (cfg_of c', []) \<and> io_of c' = io_of c \<and> parse_inv c' \<and> (\<not> fin \<longrightarrow> state c' \<in> trailer_states) \<and>
    (fin \<longrightarrow> state c' = CHUNK_READ_DONE)"
    using assms(2,3) by (elim disjE; cases "x = 13"; cases "x = 10")
      (auto simp: trailer_byte_def cfg_of_def io_of_def parse_inv_def trailer_states_def is_lf_def is_cr_def char_defs)
  then show "chunk_byte x (cfg_of c) = (cfg_of c', [])" "io_of c' = io_of c" "parse_inv c'" "\<not> fin \<Longrightarrow> state c' \<in> trailer_states"
    "fin \<Longrightarrow> state c' = CHUNK_READ_DONE" by blast+
qed

text \<open>A scanning loop whose byte function follows the automaton within a set of states follows it on every input.\<close>

lemma scan_block_cfg:
  assumes f: "\<And>x c c' fin. state c \<in> A \<Longrightarrow> parse_inv c \<Longrightarrow> f x c = (c', fin) \<Longrightarrow>
      chunk_byte x (cfg_of c) = (cfg_of c', []) \<and> io_of c' = io_of c \<and> parse_inv c' \<and> (\<not> fin \<longrightarrow> state c' \<in> A)"
  shows "state c \<in> A \<Longrightarrow> parse_inv c \<Longrightarrow> scan_block f bs 0 c = (u, d, c') \<Longrightarrow>
    chunk_run (take (nat u) bs) (cfg_of c) = (cfg_of c', []) \<and> io_of c' = io_of c \<and> parse_inv c'"
proof (induction bs arbitrary: c u)
  case (Cons x xs)
  obtain c1 fin where x: "f x c = (c1, fin)" by fastforce
  note F = f[OF Cons.prems(1,2) x]
  show ?case
  proof (cases fin)
    case True
    then show ?thesis using Cons.prems(3) F by (auto simp: x)
  next
    case False
    obtain u1 where u1: "scan_block f xs 0 c1 = (u1, d, c')" "u = 1 + u1"
      using Cons.prems(3) False scan_block_shift[of f xs 1 c1] by (auto simp: x split: prod.splits)
    have "nat u = Suc (nat u1)" using scan_block_used[OF u1(1)] u1(2) by linarith
    then show ?thesis using Cons.IH[OF _ _ u1(1)] F False by simp
  qed
qed simp

lemma chunk_run_content:
  "xs \<noteq> [] \<Longrightarrow> int (length xs) \<le> k \<Longrightarrow> chunk_run xs (CHUNK_READ_CHUNK, v, n, k) =
    ((if int (length xs) = k then CHUNK_READ_SIZE_START else CHUNK_READ_CHUNK, v, n, k - int (length xs)), xs)"
proof (induction xs arbitrary: k)
  case (Cons x xs)
  then show ?case by (cases "xs = []") auto
qed simp

section \<open>Moving the content\<close>

lemma transfer_stop: "left \<le> 0 \<Longrightarrow> transfer_loop left sz t h r m = Some (left, sz, t, h, r, m)"
  by (subst transfer_loop.simps) simp

lemma transfer_empty:
  assumes "pipe_ok h r m" "unread h r = []"
  shows "\<exists>r'. transfer_loop left sz t h r m = Some (left, sz, t, h, r', m) \<and> pipe_ok h r' m \<and> unread h r' = []"
proof (cases "left \<le> 0")
  case True
  then show ?thesis using assms transfer_stop by blast
next
  case pos: False
  have ok: "reader_ok h r" "rd_size_limit r = INK64_MAX" using assms(1) by (simp_all add: pipe_ok_def)
  show ?thesis
  proof (cases "rd_block r")
    case None
    then show ?thesis using pos assms by (subst transfer_loop.simps) (auto simp: reader_block_read_avail_def c_int_id)
  next
    case (Some i)
    then have "rd_block r \<noteq> None" by simp
    from reader_run_ok[OF ok(1) this] show ?thesis
    proof (elim exE conjE, goal_cases)
      case (1 r' d st l)
      then have "l = 0" "pipe_ok h r' m" using ok(2) assms(2) pipe_moves[OF assms(1), of r'] by simp_all
      then show ?case using 1 pos assms(2) by (subst transfer_loop.simps) (simp add: c_int_id)
    qed
  qed
qed

text \<open>One turn of the loop moves a positive number of bytes and goes on.\<close>

lemma transfer_step:
  assumes p: "pipe_ok h r m" and ne: "unread h r \<noteq> []" and len: "length (unread h r) < 2 ^ 31" and left: "0 < left" "left < 2 ^ 31"
  shows "\<exists>n h' r' m'. transfer_loop left sz t h r m = transfer_loop (left - n) (c_int (sz + n)) (c_int (t + n)) h' r' m' \<and>
    0 < n \<and> n \<le> left \<and> n \<le> int (length (unread h r)) \<and> pipe_ok h' r' m' \<and> unread h' r' = drop (nat n) (unread h r) \<and>
    grows (take (nat n) (unread h r)) (h, m) (h', m')"
  using pipe_run[OF p ne]
proof (elim exE conjE, goal_cases)
  case (1 r1 d st l)
  note R = 1
  have cl: "c_int l = l" using R(5,6) len by (intro c_int_id) auto
  define w where "w = (if left \<le> l then left else l)"
  have w: "0 < w" "w \<le> left" "w \<le> l" using R(5) left by (auto simp: w_def)
  define n where "n = (if w \<ge> min_block_transfer_bytes then int (length (take (nat left) (unread h r1))) else w)"
  have n: "0 < n" "n \<le> left" "n \<le> int (length (unread h r))" using w R(4,6) left ne by (auto simp: n_def)
  have cn: "c_int n = n" using n left by (intro c_int_id) auto
  have tk: "take (nat n) (unread h r1) = (if w \<ge> min_block_transfer_bytes then take (nat left) (unread h r1) else take (nat w) (unread h r1))"
    by (auto simp: n_def min_def)
  have "\<exists>h' m'. move_run w left h r1 m = Some (n, h', m', r1) \<and> pipe_ok h' r1 m' \<and> unread h' r1 = unread h r1 \<and>
    grows (take (nat n) (unread h r1)) (h, m) (h', m')"
  proof (cases "w \<ge> min_block_transfer_bytes")
    case True
    obtain h' m' where "mio_write_reader r1 left 0 (h, m) = Some (n, h', m')" "pipe_ok h' r1 m'" "unread h' r1 = unread h r1"
      "grows (take (nat left) (unread h r1)) (h, m) (h', m')" using pipe_copy[OF R(3), of left] left True by (auto simp: n_def)
    then show ?thesis using True cn tk by (auto simp: move_run_def)
  next
    case False
    have sl: "data_slice h d st w = take (nat w) (unread h r1)" "length (take (nat w) (unread h r1)) = nat n" using R(4,6,7) w False by (auto simp: n_def)
    obtain h' m' where "mio_write (take (nat w) (unread h r1)) (h, m) = Some (n, h', m')" "pipe_ok h' r1 m'" "unread h' r1 = unread h r1"
      "grows (take (nat w) (unread h r1)) (h, m) (h', m')" using pipe_write[OF R(3), of "take (nat w) (unread h r1)"] sl(2) n(1) by auto
    then show ?thesis using False cn tk sl(1) R(2) by (auto simp: move_run_def)
  qed
  then obtain h' m' where W: "move_run w left h r1 m = Some (n, h', m', r1)" and P: "pipe_ok h' r1 m'" "unread h' r1 = unread h r1" "grows (take (nat n) (unread h r1)) (h, m) (h', m')"
    by blast
  obtain r' where C: "reader_consume h' r1 n = Some r'" "pipe_ok h' r' m'" "unread h' r' = drop (nat n) (unread h' r1)"
    using pipe_skip[OF P(1), of n] n P(2) R(4) by auto
  have "transfer_loop left sz t h r m = transfer_loop (left - n) (c_int (sz + n)) (c_int (t + n)) h' r' m'"
    unfolding transfer_loop.simps[of left] using left(1) R(1,5) w(1) n(1) C(1) W unfolding w_def by (cases "left \<le> l") (simp_all add: cl)
  then show ?case using n C P R(4) by auto
qed

lemma transfer_loop_ok:
  assumes "pipe_ok h r m" "length (unread h r) < 2 ^ 31" "0 \<le> left" "left < 2 ^ 31"
  defines "n \<equiv> min (nat left) (length (unread h r))"
  shows "\<exists>sz' t' h' r' m'. transfer_loop left sz t h r m = Some (left - int n, sz', t', h', r', m') \<and> pipe_ok h' r' m' \<and>
    unread h' r' = drop n (unread h r) \<and> grows (take n (unread h r)) (h, m) (h', m')"
  using assms(1-4) unfolding n_def
proof (induction "length (unread h r)" arbitrary: h r m left sz t rule: less_induct)
  case less
  have I: "mio_inv (h, m)" using less.prems(1) by (simp add: pipe_ok_def)
  consider (stop) "left = 0" | (empty) "unread h r = []" | (step) "0 < left" "unread h r \<noteq> []" using less.prems(3) by linarith
  then show ?case
  proof cases
    case stop
    then show ?thesis using less.prems(1) grows_refl[OF I] by (simp add: transfer_stop)
  next
    case empty
    then show ?thesis using transfer_empty[OF less.prems(1) empty, of left sz t] grows_refl[OF I] by auto
  next
    case step
    from transfer_step[OF less.prems(1) step(2) less.prems(2) step(1) less.prems(4), of sz t] show ?thesis
    proof (elim exE conjE, goal_cases)
      case (1 k h1 r1 m1)
      have sm: "length (unread h1 r1) < length (unread h r)" using 1(2,4,6) step(2) by simp
      define j where "j = min (nat (left - k)) (length (unread h1 r1))"
      have j: "min (nat left) (length (unread h r)) = nat k + j" "left - int (nat k + j) = (left - k) - int j" using 1(2-4,6) by (auto simp: j_def min_def)
      obtain sz' t' h' r' m' where T: "transfer_loop (left - k) (c_int (sz + k)) (c_int (t + k)) h1 r1 m1 = Some ((left - k) - int j, sz', t', h', r', m')"
        "pipe_ok h' r' m'" "unread h' r' = drop j (unread h1 r1)" "grows (take j (unread h1 r1)) (h1, m1) (h', m')"
        using less.hyps[OF sm 1(5), of "left - k" "c_int (sz + k)" "c_int (t + k)"] sm less.prems(2,4) 1(2,3) unfolding j_def by auto
      have "grows (take (nat k) (unread h r) @ take j (unread h1 r1)) (h, m) (h', m')" by (rule grows_trans[OF 1(7) T(4)])
      then have "grows (take (nat k + j) (unread h r)) (h, m) (h', m')" using 1(6) by (simp add: take_add)
      moreover have "unread h' r' = drop (nat k + j) (unread h r)" using T(3) 1(6) by (simp add: add.commute)
      ultimately show ?case using T(1,2) 1(1) unfolding j by metis
    qed
  qed
qed

section \<open>The decoder\<close>

text \<open>The flow control test returns.\<close>

lemma max_avail_loop_ok: "(\<And>q. q \<in> set rs \<Longrightarrow> rd_mbuf q \<noteq> None \<Longrightarrow> reader_ok h q) \<Longrightarrow> \<exists>x. max_avail_loop h rs s found = Some x"
  by (induction rs arbitrary: s found) (auto simp: reader_read_avail_ok)

lemma max_count_loop_ok: "(\<And>q. q \<in> set rs \<Longrightarrow> rd_mbuf q \<noteq> None \<Longrightarrow> reader_ok h q) \<Longrightarrow> \<exists>x. max_count_loop h rs s = Some x"
proof (induction rs arbitrary: s)
  case (Cons q rs)
  show ?case
  proof (cases "rd_mbuf q")
    case (Some b)
    then have "path (blocks h) (rd_block q) (chain_of h (rd_block q))" using Cons.prems[of q] by (simp add: reader_ok_def chain_ok_def)
    then show ?thesis using Cons Some by (simp add: reader_block_count_def block_walk_path)
  qed (use Cons in simp)
qed simp

lemma too_far_ahead_ok:
  assumes "mio_inv (h, m)"
  shows "\<exists>f. too_far_ahead h m = Some f"
proof -
  have q: "reader_ok h q" if "q \<in> set (m_readers m)" "rd_mbuf q \<noteq> None" for q
    using that assms attached_reader_ok[OF assms, of q] by (simp add: mio_inv_def)
  obtain s f where "max_avail_loop h (m_readers m) 0 False = Some (s, f)" using max_avail_loop_ok[of "m_readers m" h 0 False] q by fastforce
  moreover obtain n where "max_count_loop h (m_readers m) 0 = Some n" using max_count_loop_ok[of "m_readers m" h 0] q by blast
  ultimately show ?thesis by (auto simp: too_far_ahead_def max_read_avail_def max_block_count_def)
qed

text \<open>A handler that dechunks: its reader, its buffer and the configuration of its parser.\<close>

definition dechunks :: "ioheap \<Rightarrow> ChunkedHandler \<Rightarrow> reader \<Rightarrow> mio \<Rightarrow> bool" where
  "dechunks h c r m \<longleftrightarrow> chunked_reader c = Some r \<and> dechunked_buffer c = Some m \<and> pipe_ok h r m \<and> parse_inv c"

definition decoded :: "nat \<Rightarrow> ioheap \<times> ChunkedHandler \<times> reader \<times> mio \<Rightarrow> ioheap \<times> ChunkedHandler \<times> reader \<times> mio \<Rightarrow> bool" where
  "decoded n = (\<lambda>(h, c, r, m) (h', c', r', m'). dechunks h' c' r' m' \<and> n \<le> length (unread h r) \<and> unread h' r' = drop n (unread h r) \<and>
     (\<exists>bs. chunk_run (take n (unread h r)) (cfg_of c) = (cfg_of c', bs) \<and> grows bs (h, m) (h', m')) \<and>
     truncation c' = truncation c \<and> last_server_event c' = last_server_event c)"

lemma decoded_refl: "dechunks h c r m \<Longrightarrow> decoded 0 (h, c, r, m) (h, c, r, m)"
  using grows_refl by (simp add: decoded_def dechunks_def pipe_ok_def)

lemma decoded_trans:
  assumes "decoded n s s1" "decoded k s1 s2"
  shows "decoded (n + k) s s2"
proof -
  obtain h c r m h1 c1 r1 m1 h2 c2 r2 m2 where s: "s = (h, c, r, m)" "s1 = (h1, c1, r1, m1)" "s2 = (h2, c2, r2, m2)" by (metis prod_cases4)
  obtain as where A: "chunk_run (take n (unread h r)) (cfg_of c) = (cfg_of c1, as)" "grows as (h, m) (h1, m1)" "unread h1 r1 = drop n (unread h r)"
    using assms(1) by (auto simp: decoded_def s)
  obtain bs where B: "chunk_run (take k (unread h1 r1)) (cfg_of c1) = (cfg_of c2, bs)" "grows bs (h1, m1) (h2, m2)"
    using assms(2) by (auto simp: decoded_def s)
  have "chunk_run (take (n + k) (unread h r)) (cfg_of c) = (cfg_of c2, as @ bs)"
    using A(1,3) B(1) by (simp add: take_add chunk_run_append)
  moreover have "grows (as @ bs) (h, m) (h2, m2)" by (rule grows_trans[OF A(2) B(2)])
  ultimately show ?thesis using assms A(3) by (auto simp: decoded_def s add.commute)
qed

lemma read_scan_ok:
  assumes D: "dechunks h c r m" and ne: "unread h r \<noteq> []" and len: "length (unread h r) < 2 ^ 31" and A: "state c \<in> A"
    and f: "\<And>x c c' fin. state c \<in> A \<Longrightarrow> parse_inv c \<Longrightarrow> f x c = (c', fin) \<Longrightarrow>
      chunk_byte x (cfg_of c) = (cfg_of c', []) \<and> io_of c' = io_of c \<and> parse_inv c' \<and> (\<not> fin \<longrightarrow> state c' \<in> A)"
  shows "\<exists>n c' r'. 0 < n \<and> read_scan f (h, c) = Some (h, c') \<and> decoded n (h, c, r, m) (h, c', r', m)"
proof -
  have P: "pipe_ok h r m" "parse_inv c" "chunked_reader c = Some r" "dechunked_buffer c = Some m" using D by (simp_all add: dechunks_def)
  then have ok: "reader_ok h r" "rd_size_limit r = INK64_MAX" "mio_inv (h, m)" by (simp_all add: pipe_ok_def)
  obtain u d c1 where S: "scan_block f (unread h r) 0 c = (u, d, c1)" by (metis prod_cases3)
  have u: "0 < u" "u \<le> int (length (unread h r))" using scan_block_used[OF S] ne by auto
  have C: "chunk_run (take (nat u) (unread h r)) (cfg_of c) = (cfg_of c1, []) \<and> io_of c1 = io_of c \<and> parse_inv c1"
    by (rule scan_block_cfg[OF f A P(2) S])
  obtain r' where R: "scan_blocks f h False r c = Some (r', c1)" "reader_ok h r'" "rd_size_limit r' = INK64_MAX"
    "unread h r' = drop (nat u) (unread h r)" "moves h r r'" using scan_blocks_ok[OF ok(1,2) len S] by blast
  have "decoded (nat u) (h, c, r, m) (h, c1\<lparr>chunked_reader := Some r'\<rparr>, r', m)"
    using C R(4) P(4) u pipe_moves[OF P(1) R(2,5,3)] grows_refl[OF ok(3)]
    by (auto simp: decoded_def dechunks_def io_of_def parse_inv_def cfg_of_def nat_le_iff)
  then show ?thesis using R(1) P(3) u(1) by (intro exI[of _ "nat u"] exI[of _ "c1\<lparr>chunked_reader := Some r'\<rparr>"] exI[of _ r']) (simp add: read_scan_def)
qed

lemma read_size_ok:
  assumes "dechunks h c r m" "unread h r \<noteq> []" "length (unread h r) < 2 ^ 31" "state c \<in> size_states"
  shows "\<exists>n c' r'. 0 < n \<and> read_size (h, c) = Some (h, c') \<and> decoded n (h, c, r, m) (h, c', r', m)"
  unfolding read_size_def using size_byte_cfg(1-4) by (intro read_scan_ok[OF assms]) blast

lemma read_trailer_ok:
  assumes "dechunks h c r m" "unread h r \<noteq> []" "length (unread h r) < 2 ^ 31" "state c \<in> trailer_states"
  shows "\<exists>n c' r'. 0 < n \<and> read_trailer (h, c) = Some (h, c') \<and> decoded n (h, c, r, m) (h, c', r', m)"
  unfolding read_trailer_def using trailer_byte_cfg(1-4) by (intro read_scan_ok[OF assms]) blast

lemma read_chunk_ok:
  assumes D: "dechunks h c r m" and ne: "unread h r \<noteq> []" and len: "length (unread h r) < 2 ^ 31" and st: "state c = CHUNK_READ_CHUNK"
  shows "\<exists>n h' c' r' m'. 0 < n \<and> read_chunk (h, c) = Some (h', c') \<and> decoded n (h, c, r, m) (h', c', r', m')"
proof -
  have P: "pipe_ok h r m" "chunked_reader c = Some r" "dechunked_buffer c = Some m" "0 < bytes_left c" "bytes_left c < 2 ^ 31"
    using D st by (simp_all add: dechunks_def parse_inv_def)
  define n where "n = min (nat (bytes_left c)) (length (unread h r))"
  have n: "0 < n" "n \<le> length (unread h r)" "int n \<le> bytes_left c" using P(4) ne by (auto simp: n_def)
  obtain sz' t' h' r' m' where T: "transfer_loop (bytes_left c) (dechunked_size c) 0 h r m = Some (bytes_left c - int n, sz', t', h', r', m')"
    "pipe_ok h' r' m'" "unread h' r' = drop n (unread h r)" "grows (take n (unread h r)) (h, m) (h', m')"
    using transfer_loop_ok[OF P(1) len, of "bytes_left c" "dechunked_size c" 0] P(4,5) unfolding n_def by auto
  define c1 where "c1 = c\<lparr>chunked_reader := Some r', dechunked_buffer := Some m', bytes_left := bytes_left c - int n, dechunked_size := sz'\<rparr>"
  have B: "transfer_bytes (h, c) = Some (t', h', c1)" using T(1) P(2,3) by (simp add: transfer_bytes_def c1_def)
  obtain f where F: "too_far_ahead h' m' = Some f" using too_far_ahead_ok[of h' m'] T(2) by (auto simp: pipe_ok_def)
  define c' where "c' = (if bytes_left c = int n then c1\<lparr>state := if f then CHUNK_FLOW_CONTROL else CHUNK_READ_SIZE_START\<rparr> else c1)"
  have R: "read_chunk (h, c) = Some (h', c')" using B F by (simp add: read_chunk_def c'_def c1_def)
  have "chunk_run (take n (unread h r)) (cfg_of c) = (cfg_of c', take n (unread h r))"
    using chunk_run_content[of "take n (unread h r)" "bytes_left c" "running_sum c" "num_digits c"] n ne st
    by (auto simp: cfg_of_def c'_def c1_def)
  moreover have "dechunks h' c' r' m'" using T(2) n P(4,5) st by (auto simp: dechunks_def c'_def c1_def parse_inv_def)
  ultimately have "decoded n (h, c, r, m) (h', c', r', m')" using n T(3,4) by (auto simp: decoded_def c'_def c1_def)
  then show ?thesis using n(1) R by blast
qed

definition stopped :: "ChunkedHandler \<Rightarrow> bool" where
  "stopped c \<longleftrightarrow> state c \<in> {CHUNK_READ_DONE, CHUNK_READ_ERROR, CHUNK_FLOW_CONTROL}"

lemma parse_states:
  assumes "parse_inv c" "\<not> stopped c"
  shows "state c \<in> size_states \<or> state c \<in> trailer_states \<or> state c = CHUNK_READ_CHUNK"
  using assms by (cases "state c") (auto simp: parse_inv_def stopped_def size_states_def trailer_states_def)

lemma process_loop_ok:
  assumes "dechunks h c r m" "length (unread h r) < 2 ^ 31"
  shows "\<exists>n h' c' r' m'. process_loop h c = Some (state c' \<in> {CHUNK_READ_DONE, CHUNK_READ_ERROR}, h', c') \<and>
    decoded n (h, c, r, m) (h', c', r', m') \<and> (stopped c' \<or> unread h' r' = [])"
  using assms
proof (induction "length (unread h r)" arbitrary: h c r m rule: less_induct)
  case less
  have P: "chunked_reader c = Some r" "reader_ok h r" "rd_size_limit r = INK64_MAX" "parse_inv c" using less.prems(1) by (simp_all add: dechunks_def pipe_ok_def)
  have av: "reader_read_avail h r = Some (int (length (unread h r)))" by (simp add: reader_read_avail_ok[OF P(2)] pipe_readable[OF P(3)])
  show ?case
  proof (cases "unread h r = [] \<or> stopped c")
    case True
    then have "process_loop h c = Some (state c \<in> {CHUNK_READ_DONE, CHUNK_READ_ERROR}, h, c)"
      by (subst process_loop.simps) (auto simp: P(1) av stopped_def)
    then show ?thesis using True decoded_refl[OF less.prems(1)] by blast
  next
    case False
    then have ne: "unread h r \<noteq> []" and st: "\<not> stopped c" by auto
    have "\<exists>n h1 c1 r1 m1. 0 < n \<and> process_loop h c = process_loop h1 c1 \<and> decoded n (h, c, r, m) (h1, c1, r1, m1)"
      using parse_states[OF P(4) st]
    proof (elim disjE)
      assume S: "state c \<in> size_states"
      obtain n c1 r1 where "0 < n" "read_size (h, c) = Some (h, c1)" "decoded n (h, c, r, m) (h, c1, r1, m)"
        using read_size_ok[OF less.prems(1) ne less.prems(2) S] by blast
      moreover from this have "process_loop h c = process_loop h c1"
        using S ne by (subst process_loop.simps) (auto simp: P(1) av size_states_def)
      ultimately show ?thesis by blast
    next
      assume S: "state c \<in> trailer_states"
      obtain n c1 r1 where "0 < n" "read_trailer (h, c) = Some (h, c1)" "decoded n (h, c, r, m) (h, c1, r1, m)"
        using read_trailer_ok[OF less.prems(1) ne less.prems(2) S] by blast
      moreover from this have "process_loop h c = process_loop h c1"
        using S ne by (subst process_loop.simps) (auto simp: P(1) av trailer_states_def)
      ultimately show ?thesis by blast
    next
      assume S: "state c = CHUNK_READ_CHUNK"
      obtain n h1 c1 r1 m1 where "0 < n" "read_chunk (h, c) = Some (h1, c1)" "decoded n (h, c, r, m) (h1, c1, r1, m1)"
        using read_chunk_ok[OF less.prems(1) ne less.prems(2) S] by blast
      moreover from this have "process_loop h c = process_loop h1 c1"
        using S ne by (subst process_loop.simps) (auto simp: P(1) av)
      ultimately show ?thesis by blast
    qed
    then obtain n h1 c1 r1 m1 where S: "0 < n" "process_loop h c = process_loop h1 c1" and D: "decoded n (h, c, r, m) (h1, c1, r1, m1)" by blast
    have sm: "length (unread h1 r1) < length (unread h r)" and D1: "dechunks h1 c1 r1 m1" using D S(1) ne by (auto simp: decoded_def)
    have "length (unread h1 r1) < 2 ^ 31" using sm less.prems(2) by simp
    from less.hyps[OF sm D1 this] show ?thesis using S(2) decoded_trans[OF D] by metis
  qed
qed

section \<open>The encoder\<close>

text \<open>The coding of some bytes as a sequence of chunks of at most 4096, without the last chunk.\<close>

definition chunk_of :: "u8 list \<Rightarrow> u8 list" where
  "chunk_of bs = hex_digits (length bs) @ CRLF @ bs @ CRLF"

function chunks :: "u8 list \<Rightarrow> u8 list" where
  "chunks bs = (if bs = [] then [] else chunk_of (take 4096 bs) @ chunks (drop 4096 bs))"
  by auto
termination by (relation "measure length") auto

declare chunks.simps [simp del] hex_digits.simps [simp del]

lemma write_chunk_ok:
  assumes "pipe_ok h r m" "unread h r \<noteq> []"
  defines "w \<equiv> (if max_chunk_size \<le> int (length (unread h r)) then max_chunk_size else int (length (unread h r)))"
  shows "\<exists>h' r' m' sz. write_chunk w (h, r, m, c) = Some (h', r', m', c\<lparr>state := CHUNK_WRITE_CHUNK, chunked_size := sz\<rparr>) \<and> pipe_ok h' r' m' \<and>
    unread h' r' = drop 4096 (unread h r) \<and> grows (chunk_of (take 4096 (unread h r))) (h, m) (h', m')"
proof -
  have w: "0 \<le> w" "w \<le> int (length (unread h r))" "nat w = length (take 4096 (unread h r))" by (auto simp: w_def max_chunk_size_def)
  have tk: "take (nat w) (unread h r) = take 4096 (unread h r)" "drop (nat w) (unread h r) = drop 4096 (unread h r)" by (auto simp: w_def max_chunk_size_def)
  define tmp where "tmp = (if w \<noteq> max_chunk_size then hex_digits (nat w) @ CRLF else max_chunk_buf)"
  have tmp: "tmp = hex_digits (length (take 4096 (unread h r))) @ CRLF" unfolding w(3)[symmetric] tmp_def by (auto simp: max_chunk_buf_def)
  obtain s1 s2 s3 s4 where S: "pipe_put tmp (h, r, m) = Some s1" "pipe_cp w s1 = Some s2" "pipe_drop w s2 = Some s3" "pipe_put CRLF s3 = Some s4"
    "(\<lambda>(h, r, m). pipe_ok h r m) s4" "(\<lambda>(h, r, m). unread h r) s4 = drop 4096 (unread h r)"
    "pipe_sent (tmp @ take 4096 (unread h r) @ CRLF) (h, r, m) s4"
    using iop.framed_law[of "(h, r, m)" w tmp CRLF] assms(1) w(1,2) unfolding prod.case tk by blast
  obtain h1 m1 n1 where 1: "mio_write tmp (h, m) = Some (n1, h1, m1)" "s1 = (h1, r, m1)" using S(1) by (auto simp: pipe_put_def)
  obtain h2 m2 n2 where 2: "mio_write_reader r w 0 (h1, m1) = Some (n2, h2, m2)" "s2 = (h2, r, m2)" using S(2) 1(2) by (auto simp: pipe_cp_def)
  obtain r' where 3: "reader_consume h2 r w = Some r'" "s3 = (h2, r', m2)" using S(3) 2(2) by (auto simp: pipe_drop_def)
  obtain h3 m3 n3 where 4: "mio_write CRLF (h2, m2) = Some (n3, h3, m3)" "s4 = (h3, r', m3)" using S(4) 3(2) by (auto simp: pipe_put_def)
  have "write_chunk w (h, r, m, c) = Some (h3, r', m3, c\<lparr>state := CHUNK_WRITE_CHUNK,
       chunked_size := c_int (c_int (c_int (chunked_size c + int (length tmp)) + w) + 2)\<rparr>)"
    unfolding write_chunk_def prod.case tmp_def[symmetric] Let_def using 1(1) 2(1) 3(1) 4(1) by simp
  moreover have "pipe_ok h3 r' m3" "unread h3 r' = drop 4096 (unread h r)" "grows (chunk_of (take 4096 (unread h r))) (h, m) (h3, m3)"
    using S(5-7) unfolding 4(2) prod.case pipe_sent_def chunk_of_def tmp by simp_all
  ultimately show ?thesis by blast
qed

lemma chunks_take:
  assumes "bs \<noteq> []"
  shows "chunks (take (4096 + k) bs) = chunk_of (take 4096 bs) @ chunks (take k (drop 4096 bs))"
proof -
  have "take 4096 (take (4096 + k) bs) = take 4096 bs" "drop 4096 (take (4096 + k) bs) = take k (drop 4096 bs)" "take (4096 + k) bs \<noteq> []"
    using assms by (simp_all add: drop_take)
  then show ?thesis using chunks.simps[of "take (4096 + k) bs"] by simp
qed

lemma chunks_Nil [simp]: "chunks [] = []"
  by (simp add: chunks.simps)

lemma generate_loop_ok:
  assumes "pipe_ok h r m" "state c \<noteq> CHUNK_WRITE_DONE"
  shows "\<exists>stop k h' r' m' c'. generate_loop sd h r m c = Some (stop, h', r', m', c') \<and> pipe_ok h' r' m' \<and> unread h' r' = drop k (unread h r) \<and>
    grows (chunks (take k (unread h r))) (h, m) (h', m') \<and> (stop \<longrightarrow> \<not> sd \<and> state c' = CHUNK_FLOW_CONTROL) \<and>
    (\<not> stop \<longrightarrow> unread h' r' = []) \<and> last_server_event c' = last_server_event c"
  using assms
proof (induction "length (unread h r)" arbitrary: h r m c rule: less_induct)
  case less
  have ok: "reader_ok h r" "rd_size_limit r = INK64_MAX" "mio_inv (h, m)" using less.prems(1) by (simp_all add: pipe_ok_def)
  have av: "reader_read_avail h r = Some (int (length (unread h r)))" by (simp add: reader_read_avail_ok[OF ok(1)] pipe_readable[OF ok(2)])
  define w where "w = (if max_chunk_size \<le> int (length (unread h r)) then max_chunk_size else int (length (unread h r)))"
  obtain f where f: "(if \<not> sd then too_far_ahead h m else Some False) = Some f" "f \<Longrightarrow> \<not> sd" using too_far_ahead_ok[OF ok(3)] by (cases sd) auto
  consider (empty) "unread h r = []" | (flow) "unread h r \<noteq> []" f | (chunk) "unread h r \<noteq> []" "\<not> f" by blast
  then show ?case
  proof cases
    case empty
    then have "generate_loop sd h r m c = Some (False, h, r, m, c)" by (subst generate_loop.simps) (simp add: av)
    then show ?thesis using empty less.prems(1) grows_refl[OF ok(3)] by auto
  next
    case flow
    then have "generate_loop sd h r m c = Some (True, h, r, m, c\<lparr>state := CHUNK_FLOW_CONTROL\<rparr>)"
      using less.prems(2) f(1) by (subst generate_loop.simps) (auto simp: av)
    then show ?thesis using flow(2) f(2) less.prems(1) grows_refl[OF ok(3)]
      by (intro exI[of _ True] exI[of _ 0] exI[of _ h] exI[of _ r] exI[of _ m] exI[of _ "c\<lparr>state := CHUNK_FLOW_CONTROL\<rparr>"]) simp
  next
    case chunk
    obtain h1 r1 m1 sz where W: "write_chunk w (h, r, m, c) = Some (h1, r1, m1, c\<lparr>state := CHUNK_WRITE_CHUNK, chunked_size := sz\<rparr>)" "pipe_ok h1 r1 m1"
      "unread h1 r1 = drop 4096 (unread h r)" "grows (chunk_of (take 4096 (unread h r))) (h, m) (h1, m1)"
      using write_chunk_ok[OF less.prems(1) chunk(1), of c, folded w_def] by blast
    define c1 where "c1 = c\<lparr>state := CHUNK_WRITE_CHUNK, chunked_size := sz\<rparr>"
    have G: "generate_loop sd h r m c = generate_loop sd h1 r1 m1 c1"
      using less.prems(2) f(1) chunk W(1) by (subst generate_loop.simps) (auto simp: av w_def[symmetric] c1_def)
    have sm: "length (unread h1 r1) < length (unread h r)" and c1: "state c1 \<noteq> CHUNK_WRITE_DONE" using W(3) chunk(1) by (simp_all add: c1_def)
    from less.hyps[OF sm W(2) c1] show ?thesis
    proof (elim exE conjE, goal_cases)
      case (1 stop k h' r' m' c')
      have "grows (chunks (take (4096 + k) (unread h r))) (h, m) (h', m')"
        using grows_trans[OF W(4) 1(4)] unfolding W(3) chunks_take[OF chunk(1)] .
      moreover have "unread h' r' = drop (4096 + k) (unread h r)" using 1(3) W(3) by (simp add: add.commute)
      moreover have "last_server_event c' = last_server_event c" using 1(7) by (simp add: c1_def)
      ultimately show ?case using 1(1,2,5,6) G by metis
    qed
  qed
qed

definition server_done :: "ChunkedHandler \<Rightarrow> bool" where
  "server_done c \<longleftrightarrow> last_server_event c \<in> {VC_EVENT_EOS, VC_EVENT_READ_COMPLETE, HTTP_TUNNEL_EVENT_PRECOMPLETE}"

definition last_chunk :: "u8 list" where "last_chunk = [0x30] @ CRLF @ CRLF"

text \<open>A handler that chunks.\<close>

definition enchunks :: "ioheap \<Rightarrow> ChunkedHandler \<Rightarrow> reader \<Rightarrow> mio \<Rightarrow> bool" where
  "enchunks h c r m \<longleftrightarrow> dechunked_reader c = Some r \<and> chunked_buffer c = Some m \<and> pipe_ok h r m \<and> state c \<noteq> CHUNK_WRITE_DONE"

lemma generate_ok:
  assumes "enchunks h c r m"
  shows "\<exists>k h' c' r' m'. generate_chunked_content (h, c) = Some (server_done c, h', c') \<and> dechunked_reader c' = Some r' \<and> chunked_buffer c' = Some m' \<and>
    pipe_ok h' r' m' \<and> unread h' r' = drop k (unread h r) \<and>
    grows (chunks (take k (unread h r)) @ (if server_done c then last_chunk else [])) (h, m) (h', m') \<and>
    (server_done c \<longrightarrow> state c' = CHUNK_WRITE_DONE) \<and> (state c' = CHUNK_FLOW_CONTROL \<or> unread h' r' = [])"
proof -
  have A: "dechunked_reader c = Some r" "chunked_buffer c = Some m" "pipe_ok h r m" "state c \<noteq> CHUNK_WRITE_DONE" using assms by (simp_all add: enchunks_def)
  from generate_loop_ok[OF A(3,4), of "server_done c"] show ?thesis
  proof (elim exE conjE, goal_cases)
    case (1 stop k h1 r1 m1 c1)
    show ?case
    proof (cases "server_done c")
      case True
      then have ns: "\<not> stop" using 1(5) by blast
      obtain h2 m2 where W: "mio_write last_chunk (h1, m1) = Some (int (length last_chunk), h2, m2)" "pipe_ok h2 r1 m2" "unread h2 r1 = unread h1 r1"
        "grows last_chunk (h1, m1) (h2, m2)" using pipe_write[OF 1(2), of last_chunk] by blast
      have "generate_chunked_content (h, c) = Some (True, h2, c1\<lparr>dechunked_reader := Some r1, chunked_buffer := Some m2, state := CHUNK_WRITE_DONE,
           chunked_size := c_int (chunked_size c1 + 5)\<rparr>)"
        using 1(1) W(1) True ns A(1,2) unfolding generate_chunked_content_def last_chunk_def server_done_def by simp
      moreover have "grows (chunks (take k (unread h r)) @ last_chunk) (h, m) (h2, m2)" by (rule grows_trans[OF 1(4) W(4)])
      ultimately show ?thesis using True W(2,3) 1(3,6) ns by auto
    next
      case False
      have "generate_chunked_content (h, c) = Some (False, h1, c1\<lparr>dechunked_reader := Some r1, chunked_buffer := Some m1\<rparr>)"
        using 1(1) False A(1,2) unfolding generate_chunked_content_def server_done_def by simp
      then show ?thesis using False 1 by (intro exI[of _ k] exI[of _ h1] exI[of _ "c1\<lparr>dechunked_reader := Some r1, chunked_buffer := Some m1\<rparr>"] exI[of _ r1] exI[of _ m1]) auto
    qed
  qed
qed

section \<open>Decoding what was encoded\<close>

definition hex_char :: "nat \<Rightarrow> u8" where
  "hex_char d = (if d < 10 then 0x30 + of_nat d else 0x61 + (of_nat d - 10))"

lemma hex_digits_rec: "hex_digits n = (if n < 16 then [hex_char n] else hex_digits (n div 16) @ [hex_char (n mod 16)])"
  by (subst hex_digits.simps) (simp add: hex_char_def Let_def)

lemma hex_char_value:
  assumes "d < 16"
  shows "is_hex (hex_char d)" "hex_value (hex_char d) = of_nat d"
proof -
  have "d \<in> {0, 1, 2, 3, 4, 5, 6, 7, 8, 9, 10, 11, 12, 13, 14, 15}" using assms by (simp, presburger)
  then show "is_hex (hex_char d)" "hex_value (hex_char d) = of_nat d"
    by (auto simp: hex_char_def hex_value_def is_hex_rule_def is_digit_rule_def ink_tolower_rule_def)
qed

lemma length_hex_digits: "0 < length (hex_digits n) \<and> length (hex_digits n) \<le> Suc n"
proof (induction n rule: less_induct)
  case (less n)
  show ?case
  proof (cases "n < 16")
    case False
    then have "n div 16 < n" by simp
    then show ?thesis using less.IH[of "n div 16"] False by (subst (1 2) hex_digits_rec) auto
  qed (simp add: hex_digits_rec[of n])
qed

lemma chunk_run_hex:
  "\<exists>a. chunk_run (hex_digits n) (CHUNK_READ_SIZE, v, d, k) = ((CHUNK_READ_SIZE, v * a + of_nat n, d + of_nat (length (hex_digits n)), k), [])"
proof (induction n arbitrary: v d rule: less_induct)
  case (less n)
  show ?case
  proof (cases "n < 16")
    case True
    then show ?thesis using hex_char_value[OF True] by (intro exI[of _ 16]) (simp add: hex_digits_rec[of n] del: is_hex_eq)
  next
    case False
    then obtain a where a: "chunk_run (hex_digits (n div 16)) (CHUNK_READ_SIZE, v, d, k) =
        ((CHUNK_READ_SIZE, v * a + of_nat (n div 16), d + of_nat (length (hex_digits (n div 16))), k), [])"
      using less.IH[of "n div 16" v d] by auto
    have "n mod 16 < 16" by simp
    note H = hex_char_value[OF this]
    have "(of_nat n :: u32) = of_nat (n div 16) * 16 + of_nat (n mod 16)" by (metis div_mult_mod_eq of_nat_add of_nat_mult of_nat_numeral)
    then have "(v * a + of_nat (n div 16)) * 16 + of_nat (n mod 16) = v * (a * 16) + of_nat n" by (simp add: algebra_simps)
    then show ?thesis using a H False
      by (intro exI[of _ "a * 16"]) (simp add: hex_digits_rec[of n] chunk_run_append add.assoc del: is_hex_eq)
  qed
qed

text \<open>A size line below \<open>2 ^ 31\<close>; the size is read as it was written.\<close>

lemma chunk_run_size:
  assumes "n < 2 ^ 31"
  shows "chunk_run (hex_digits n @ CRLF) (CHUNK_READ_SIZE, 0, 0, k) =
    ((if n = 0 then CHUNK_READ_TRAILER_BLANK else CHUNK_READ_CHUNK, of_nat n, of_nat (length (hex_digits n)), int n), [])"
proof -
  have L: "0 < length (hex_digits n)" "length (hex_digits n) < 2 ^ 32" using length_hex_digits[of n] assms by auto
  then have d: "(of_nat (length (hex_digits n)) :: u32) \<noteq> 0" by (simp add: word_of_nat_eq_0_iff nat_dvd_not_less)
  have s: "sint (of_nat n :: u32) = int n" using assms by (simp add: signed_of_nat signed_take_bit_int_eq_self)
  have z: "(of_nat n :: u32) = 0 \<longleftrightarrow> n = 0" using sint_u32(2)[of "of_nat n"] s by simp
  have "\<not> is_hex 13" by (simp add: is_hex_rule_def)
  then show ?thesis using chunk_run_hex[of n 0 0 k] d s z by (auto simp: chunk_run_append CRLF_def simp del: is_hex_eq)
qed

lemma chunk_run_chunk:
  assumes "bs \<noteq> []" "length bs < 2 ^ 31"
  shows "chunk_run (chunk_of bs) (CHUNK_READ_SIZE, 0, 0, k) = ((CHUNK_READ_SIZE, 0, 0, 0), bs)"
proof -
  have c: "chunk_of bs = (hex_digits (length bs) @ CRLF) @ bs @ CRLF" by (simp add: chunk_of_def)
  have "chunk_run bs (CHUNK_READ_CHUNK, v, n, int (length bs)) = ((CHUNK_READ_SIZE_START, v, n, 0), bs)" for v n
    using chunk_run_content[OF assms(1), of "int (length bs)" v n] by simp
  then show ?thesis unfolding c using chunk_run_size[OF assms(2), of k] assms(1)
    by (simp only: chunk_run_append Let_def prod.case) (simp add: CRLF_def)
qed

lemma chunk_run_chunks: "chunk_run (chunks bs) (CHUNK_READ_SIZE, 0, 0, 0) = ((CHUNK_READ_SIZE, 0, 0, 0), bs)"
proof (induction bs rule: chunks.induct)
  case (1 bs)
  show ?case
  proof (cases "bs = []")
    case False
    then have "take 4096 bs \<noteq> []" "length (take 4096 bs) < 2 ^ 31" by auto
    note chunk_run_chunk[OF this, of 0]
    then show ?thesis using 1[OF False] False by (simp add: chunks.simps[of bs] chunk_run_append)
  qed simp
qed

lemma chunk_run_message:
  "\<exists>s. chunk_run (chunks bs @ last_chunk) (CHUNK_READ_SIZE, 0, 0, 0) = ((CHUNK_READ_DONE, s), bs)"
proof -
  have "hex_digits 0 = [0x30]" by (simp add: hex_digits_rec hex_char_def)
  then have "last_chunk = (hex_digits 0 @ CRLF) @ CRLF" by (simp add: last_chunk_def)
  moreover obtain v d k where "chunk_run (hex_digits 0 @ CRLF) (CHUNK_READ_SIZE, 0, 0, 0) = ((CHUNK_READ_TRAILER_BLANK, v, d, k), [])"
    using chunk_run_size[of 0 0] by auto
  ultimately have "\<exists>s. chunk_run last_chunk (CHUNK_READ_SIZE, 0, 0, 0) = ((CHUNK_READ_DONE, s), [])"
    using chunk_run_append[of "hex_digits 0 @ CRLF" CRLF "(CHUNK_READ_SIZE, 0, 0, 0)"] by (auto simp: CRLF_def)
  then show ?thesis using chunk_run_chunks[of bs] by (auto simp: chunk_run_append)
qed

text \<open>The end states take no further input, and the content of a prefix of the input is a prefix of the content.\<close>

lemma chunk_run_end: "st = CHUNK_READ_DONE \<or> st = CHUNK_READ_ERROR \<Longrightarrow> chunk_run bs (st, x) = ((st, x), [])"
  by (induction bs) (cases x, auto)+

lemma chunk_run_take:
  assumes "chunk_run bs s = (s', cs)" "chunk_run (take n bs) s = (s1, cs1)"
  shows "\<exists>cs2. cs = cs1 @ cs2 \<and> (fst s1 \<in> {CHUNK_READ_DONE, CHUNK_READ_ERROR} \<longrightarrow> s' = s1 \<and> cs2 = [])"
proof -
  obtain s2 cs2 where 2: "chunk_run (drop n bs) s1 = (s2, cs2)" by fastforce
  have e: "s' = s2" "cs = cs1 @ cs2" using assms 2 chunk_run_append[of "take n bs" "drop n bs" s] by auto
  have "s2 = s1 \<and> cs2 = []" if "fst s1 \<in> {CHUNK_READ_DONE, CHUNK_READ_ERROR}"
    using chunk_run_end[of "fst s1" "drop n bs" "snd s1"] that 2 by auto
  then show ?thesis using e by blast
qed

lemma length_hex_small: "n < 65536 \<Longrightarrow> length (hex_digits n) \<le> 4"
  using less_mult_imp_div_less[of n 4096 16] less_mult_imp_div_less[of "n div 16" 256 16] less_mult_imp_div_less[of "n div 16 div 16" 16 16]
  by (simp add: hex_digits_rec[of n] hex_digits_rec[of "n div 16"] hex_digits_rec[of "n div 16 div 16"] hex_digits_rec[of "n div 16 div 16 div 16"])

lemma length_chunks: "length (chunks bs) \<le> 9 * length bs"
proof (induction bs rule: chunks.induct)
  case (1 bs)
  show ?case
  proof (cases "bs = []")
    case False
    have h: "length (hex_digits (length (take 4096 bs))) \<le> 4" by (rule length_hex_small) simp
    have l: "length (take 4096 bs) + length (drop 4096 bs) = length bs" "1 \<le> length (take 4096 bs)" using False by (auto simp: Suc_le_eq)
    have "length (chunks bs) = length (hex_digits (length (take 4096 bs))) + 4 + length (take 4096 bs) + length (chunks (drop 4096 bs))"
      using False by (simp add: chunks.simps[of bs] chunk_of_def CRLF_def)
    then show ?thesis using h l 1[OF False] by linarith
  qed simp
qed

end
