(* ===== verification/Chunked_Api.thy ===== *)
theory Chunked_Api
  imports Chunked_Main
begin

text \<open>
  The theorems about the chunked coding of the tunnel: the decoder follows the byte automaton, the encoder writes
  the chunks of its input, decoding inverts encoding, bad size lines are errors, and a size line of 2^32 or more is
  not one.
\<close>

section \<open>Setting up\<close>

lemma fresh_pipe:
  assumes h: "heap_ok h" and r: "reader_ok h r" "rd_size_limit r = INK64_MAX" and sz: "BUFFER_SIZE_ALLOCATED sz"
  shows "\<exists>h' m. new_MIOBuffer k sz h = Some (h', m) \<and> pipe_ok h' r m \<and> unread h' r = unread h r \<and> chain_bytes h' (chain_of h' (m_writer m)) = [] \<and>
    m_id m = k \<and> (\<forall>i<MAX_MIOBUFFER_READERS. rd_mbuf (m_readers m ! i) = None)"
proof -
  from new_MIOBuffer_ok[OF h sz, of k] show ?thesis
  proof (elim exE conjE, goal_cases)
    case (1 h' m)
    have h': "heap_ok h'" using 1(2) by (simp add: mio_inv_def)
    note F = reader_frame[OF r(1) 1(6) h']
    have "path (blocks h) (rd_block r) (chain_of h (rd_block r))" using r(1) by (simp add: reader_ok_def chain_ok_def)
    then have "set (chain_of h (rd_block r)) \<subseteq> {..<length (blocks h)}" by (rule path_bound)
    then have "pipe_ok h' r m" using F 1(2,3,9) r(2) by (auto simp: pipe_ok_def)
    then show ?case using 1 F(2) by simp
  qed
qed

lemma pipe_alloc_reader:
  assumes p: "pipe_ok h r m" and f: "free_reader m = Some i"
  shows "\<exists>m'. alloc_reader m = Some (i, m') \<and> pipe_ok h r m' \<and> i < MAX_MIOBUFFER_READERS \<and> rd_mbuf (m_readers m' ! i) \<noteq> None \<and>
    rd_size_limit (m_readers m' ! i) = INK64_MAX \<and> unread h (m_readers m' ! i) = chain_bytes h (chain_of h (m_writer m))"
proof -
  have I: "mio_inv (h, m)" and s: "settled (h, m)" using p by (simp_all add: pipe_ok_def)
  obtain m' where A: "alloc_reader m = Some (i, m')" "mio_inv (h, m')" "i < MAX_MIOBUFFER_READERS" "queue_ok (h, m') i"
    "queue_bytes (h, m') i = chain_bytes h (chain_of h (m_writer m))" using alloc_reader_ok[OF I f] by blast
  define q where "q = (reader_reset (m_writer m) ((m_readers m ! i)\<lparr>rd_mbuf := Some (m_id m)\<rparr>))\<lparr>rd_accessor := None\<rparr>"
  have m': "m_writer m' = m_writer m" "m_readers m' = (m_readers m)[i := q]" using A(1) f by (auto simp: alloc_reader_def put_reader_def q_def)
  have "rd_block q = m_writer m" by (simp add: q_def reader_reset_def)
  then have "settled (h, m')" using s set_update_subset_insert[of "m_readers m" i q] by (fastforce simp: settled_def m' split: option.splits)
  then have "pipe_ok h r m'" using p A(2) m'(1) by (simp add: pipe_ok_def)
  then show ?thesis using A by (auto simp: queue_ok_def queue_bytes_def reader_of_def)
qed

lemma free_reader_fresh:
  assumes "\<forall>i<MAX_MIOBUFFER_READERS. rd_mbuf (m_readers m ! i) = None"
  shows "free_reader m = Some 0"
proof -
  have "[0..<MAX_MIOBUFFER_READERS] = 0 # [1..<MAX_MIOBUFFER_READERS]" by (simp add: upt_rec MAX_MIOBUFFER_READERS_def)
  then show ?thesis using assms by (simp add: free_reader_def MAX_MIOBUFFER_READERS_def)
qed

text \<open>A new buffer with one reader on it, connected to an existing reader.\<close>

lemma fresh_pipe_reader:
  assumes "heap_ok h" "reader_ok h r" "rd_size_limit r = INK64_MAX" "BUFFER_SIZE_ALLOCATED sz"
  shows "\<exists>h' m m'. new_MIOBuffer k sz h = Some (h', m) \<and> alloc_reader m = Some (0, m') \<and> pipe_ok h' r m' \<and> unread h' r = unread h r \<and>
    rd_mbuf (m_readers m' ! 0) \<noteq> None \<and> rd_size_limit (m_readers m' ! 0) = INK64_MAX \<and> unread h' (m_readers m' ! 0) = []"
proof -
  obtain h' m where N: "new_MIOBuffer k sz h = Some (h', m)" "pipe_ok h' r m" "unread h' r = unread h r" "chain_bytes h' (chain_of h' (m_writer m)) = []"
    "\<forall>i<MAX_MIOBUFFER_READERS. rd_mbuf (m_readers m ! i) = None" using fresh_pipe[OF assms, of k] by blast
  obtain m' where "alloc_reader m = Some (0, m')" "pipe_ok h' r m'" "rd_mbuf (m_readers m' ! 0) \<noteq> None" "rd_size_limit (m_readers m' ! 0) = INK64_MAX"
    "unread h' (m_readers m' ! 0) = []" using pipe_alloc_reader[OF N(2) free_reader_fresh[OF N(5)]] N(4) by auto
  then show ?thesis using N by blast
qed

text \<open>\<^verbatim>\<open>init\<close> gives a handler that dechunks what its input reader has still to read.\<close>

lemma clone_reader_ok:
  assumes "reader_ok h r" "free_reader m = Some i" "length (m_readers m) = MAX_MIOBUFFER_READERS"
  shows "\<exists>m'. clone_reader r m = Some (i, m') \<and> reader_ok h (m_readers m' ! i) \<and> unread h (m_readers m' ! i) = unread h r \<and>
    rd_size_limit (m_readers m' ! i) = rd_size_limit r"
proof -
  have "i < length (m_readers m)" using assms(2,3) by (auto simp: free_reader_def find_Some_iff)
  then show ?thesis using assms(1,2) by (simp add: clone_reader_def put_reader_def reader_ok_def unread_def)
qed

lemma chunked_init_ok:
  assumes I: "mio_inv (h, inb)" and r: "reader_ok h r" "rd_size_limit r = INK64_MAX" and f: "free_reader inb = Some i" and st: "state c = CHUNK_READ_SIZE"
  shows "\<exists>h' inb' c' r' m'. chunked_init k False True r (h, inb, c) = Some (h', inb', c') \<and> dechunks h' c' r' m' \<and>
    unread h' r' = unread h r \<and> cfg_of c' = (CHUNK_READ_SIZE, 0, 0, 0)"
proof -
  have h: "heap_ok h" "length (m_readers inb) = MAX_MIOBUFFER_READERS" using I by (simp_all add: mio_inv_def)
  obtain inb' where C: "clone_reader r inb = Some (i, inb')" "reader_ok h (m_readers inb' ! i)" "unread h (m_readers inb' ! i) = unread h r"
    "rd_size_limit (m_readers inb' ! i) = INK64_MAX" using clone_reader_ok[OF r(1) f h(2)] r(2) by auto
  have sz: "BUFFER_SIZE_ALLOCATED (DEFAULT_BUFFER_SIZES - 1)"
    by (simp add: BUFFER_SIZE_ALLOCATED_def BUFFER_SIZE_INDEX_IS_FAST_ALLOCATED_def BUFFER_SIZE_INDEX_IS_XMALLOCED_def DEFAULT_BUFFER_SIZES_def)
  obtain h' m where N: "new_MIOBuffer k (DEFAULT_BUFFER_SIZES - 1) h = Some (h', m)" "pipe_ok h' (m_readers inb' ! i) m"
    "unread h' (m_readers inb' ! i) = unread h r" using fresh_pipe[OF h(1) C(2,4) sz, of k] C(3) by auto
  define c' where "c' = c\<lparr>running_sum := 0, num_digits := 0, cur_chunk_size := 0, bytes_left := 0, truncation := False,
      chunked_reader := Some (m_readers inb' ! i), dechunked_buffer := Some m, dechunked_size := 0\<rparr>"
  have "chunked_init k False True r (h, inb, c) = Some (h', inb', c')" using C(1) N(1) by (simp add: chunked_init_def c'_def Let_def)
  moreover have "dechunks h' c' (m_readers inb' ! i) m" "cfg_of c' = (CHUNK_READ_SIZE, 0, 0, 0)"
    using N(2) st by (simp_all add: dechunks_def c'_def parse_inv_def cfg_of_def)
  ultimately show ?thesis using N(3) by blast
qed

text \<open>A sample: a buffer holding some bytes, and a handler that dechunks them into a new buffer with a reader.\<close>

definition reading :: "reader \<Rightarrow> mio \<Rightarrow> ChunkedHandler" where
  "reading r m = new_ChunkedHandler\<lparr>chunked_reader := Some r, dechunked_buffer := Some m, state := CHUNK_READ_SIZE\<rparr>"

definition writing :: "reader \<Rightarrow> mio \<Rightarrow> ChunkedHandler" where
  "writing r m = new_ChunkedHandler\<lparr>dechunked_reader := Some r, chunked_buffer := Some m, state := CHUNK_WRITE_CHUNK, last_server_event := VC_EVENT_EOS\<rparr>"

lemma reading_ok: "pipe_ok h r m \<Longrightarrow> dechunks h (reading r m) r m \<and> cfg_of (reading r m) = (CHUNK_READ_SIZE, 0, 0, 0)"
  by (simp add: reading_def new_ChunkedHandler_def dechunks_def parse_inv_def cfg_of_def)

lemma writing_ok: "pipe_ok h r m \<Longrightarrow> enchunks h (writing r m) r m \<and> server_done (writing r m)"
  by (simp add: writing_def new_ChunkedHandler_def enchunks_def server_done_def)

lemma sample_pipe:
  "\<exists>h r m. pipe_ok h r m \<and> unread h r = bs \<and> rd_mbuf (m_readers m ! 0) \<noteq> None \<and> rd_size_limit (m_readers m ! 0) = INK64_MAX \<and> unread h (m_readers m ! 0) = []"
proof -
  obtain h m where s: "sample_buf 2 = (h, m)" by (cases "sample_buf 2")
  have q: "queue_ok (h, m) 0" "queue_bytes (h, m) 0 = []" using sample_ok(1,2)[of 2] s by simp_all
  obtain s1 where P: "queue_put bs (h, m) = Some s1" "queue_ok s1 0" "queue_bytes s1 0 = bs" using mioq.put_law[OF q(1), of bs] q by auto
  note R = queue_reader_ok[OF P(2)]
  have h: "heap_ok (fst s1)" and l: "rd_size_limit (reader_of s1 0) = INK64_MAX" using P(2) by (simp_all add: queue_ok_def mio_inv_def)
  have sz: "BUFFER_SIZE_ALLOCATED (- 8)" by (simp add: BUFFER_SIZE_ALLOCATED_def BUFFER_SIZE_INDEX_IS_XMALLOCED_def)
  have "reader_ok (fst s1) (reader_of s1 0)" "unread (fst s1) (reader_of s1 0) = bs" using R P(3) by (simp_all add: queue_bytes_def)
  then show ?thesis using fresh_pipe_reader[OF h _ l sz, of 1] by blast
qed

text \<open>Without content the automaton does not come to the state behind a chunk.\<close>

lemma chunk_byte_no_start: "fst s \<noteq> CHUNK_READ_SIZE_START \<Longrightarrow> chunk_byte x s = (s', []) \<Longrightarrow> fst s' \<noteq> CHUNK_READ_SIZE_START"
  by (cases s, cases "fst s") (auto split: if_splits)

lemma chunk_run_no_start: "fst s \<noteq> CHUNK_READ_SIZE_START \<Longrightarrow> chunk_run xs s = (s', []) \<Longrightarrow> fst s' \<noteq> CHUNK_READ_SIZE_START"
proof (induction xs arbitrary: s)
  case (Cons x xs)
  obtain s1 bs where x: "chunk_byte x s = (s1, bs)" by fastforce
  then have "bs = []" "chunk_run xs s1 = (s', [])" using Cons.prems(2) by (auto split: prod.splits)
  then show ?case using Cons.IH[of s1] chunk_byte_no_start[OF Cons.prems(1), of x s1] x by blast
qed simp

section \<open>Theorems\<close>

text \<open>C1: \<^verbatim>\<open>process_chunked_content\<close> returns, and does what the byte automaton does on the input it consumes, however the
  input lies in blocks and whatever state an earlier call left: every reader of the output buffer gains exactly the
  content the automaton yields, and the parser is left in the automaton's configuration. It stops only at the end
  of the input, at the end of the message, at an error or for the flow control, and its result tells whether the
  message or an error ended it.\<close>

theorem process_chunked_refines:
  assumes "dechunks h c r m" "length (unread h r) < 2 ^ 31"
  shows "\<exists>n h' c' r' m' bs. process_chunked_content (h, c) = Some (state c' \<in> {CHUNK_READ_DONE, CHUNK_READ_ERROR}, h', c') \<and>
    dechunks h' c' r' m' \<and> unread h' r' = drop n (unread h r) \<and> chunk_run (take n (unread h r)) (cfg_of c) = (cfg_of c', bs) \<and>
    (\<forall>i<MAX_MIOBUFFER_READERS. rd_mbuf (m_readers m ! i) \<noteq> None \<longrightarrow> unread h' (m_readers m' ! i) = unread h (m_readers m ! i) @ bs) \<and>
    (unread h' r' = [] \<or> state c' \<in> {CHUNK_READ_DONE, CHUNK_READ_ERROR, CHUNK_FLOW_CONTROL})"
  using process_loop_ok[OF assms]
proof (elim exE conjE, goal_cases)
  case (1 n h' c' r' m')
  obtain bs where B: "chunk_run (take n (unread h r)) (cfg_of c) = (cfg_of c', bs)" "grows bs (h, m) (h', m')" using 1(2) by (auto simp: decoded_def)
  have "process_chunked_content (h, c) = Some (state c' \<in> {CHUNK_READ_DONE, CHUNK_READ_ERROR}, h', c')" using 1(1) by (simp add: process_chunked_content_def)
  moreover have "dechunks h' c' r' m'" "unread h' r' = drop n (unread h r)" using 1(2) by (simp_all add: decoded_def)
  moreover have "\<forall>i<MAX_MIOBUFFER_READERS. rd_mbuf (m_readers m ! i) \<noteq> None \<longrightarrow> unread h' (m_readers m' ! i) = unread h (m_readers m ! i) @ bs"
    using growsD(7)[OF B(2)] by simp
  ultimately show ?case using B(1) 1(3) unfolding stopped_def by blast
qed

theorem process_chunked_refines_witness:
  "\<exists>h c r m. dechunks h c r m \<and> unread h r = [0x31, 13, 10, 7] \<and> (\<exists>fin h' c'. process_chunked_content (h, c) = Some (fin, h', c'))"
proof -
  obtain h r m where "pipe_ok h r m" "unread h r = [0x31, 13, 10, 7]" using sample_pipe by blast
  then show ?thesis using process_chunked_refines[of h "reading r m" r m] reading_ok[of h r m] by fastforce
qed

text \<open>C8: \<^verbatim>\<open>generate_chunked_content\<close> returns, and writes the chunks of the input it takes: all of it, followed by the last
  chunk, when the server is done; else as many whole chunks as the flow control lets through.\<close>

theorem generate_chunked_refines:
  assumes "enchunks h c r m"
  shows "\<exists>k h' c' r' m'. generate_chunked_content (h, c) = Some (server_done c, h', c') \<and> dechunked_reader c' = Some r' \<and> chunked_buffer c' = Some m' \<and>
    unread h' r' = drop k (unread h r) \<and> mio_inv (h', m') \<and>
    (\<forall>i<MAX_MIOBUFFER_READERS. rd_mbuf (m_readers m ! i) \<noteq> None \<longrightarrow>
       unread h' (m_readers m' ! i) = unread h (m_readers m ! i) @ chunks (take k (unread h r)) @ (if server_done c then last_chunk else [])) \<and>
    (if server_done c then state c' = CHUNK_WRITE_DONE \<and> unread h' r' = [] else state c' = CHUNK_FLOW_CONTROL \<or> unread h' r' = [])"
  using generate_ok[OF assms]
proof (elim exE conjE, goal_cases)
  case (1 k h' c' r' m')
  have "mio_inv (h', m')" using 1(4) by (simp add: pipe_ok_def)
  moreover have "server_done c \<longrightarrow> state c' \<noteq> CHUNK_FLOW_CONTROL" using 1(7) by auto
  ultimately show ?case using 1 growsD(7)[OF 1(6)]
    by (intro exI[of _ k] exI[of _ h'] exI[of _ c'] exI[of _ r'] exI[of _ m']) auto
qed

theorem generate_chunked_refines_witness:
  "\<exists>h c r m. enchunks h c r m \<and> unread h r = [1, 2, 3] \<and> (\<exists>h' c'. generate_chunked_content (h, c) = Some (True, h', c') \<and> state c' = CHUNK_WRITE_DONE)"
proof -
  obtain h r m where "pipe_ok h r m" "unread h r = [1, 2, 3]" using sample_pipe by blast
  then show ?thesis using generate_chunked_refines[of h "writing r m" r m] writing_ok[of h r m] by fastforce
qed

text \<open>C4: decoding inverts encoding. The content left in a reader is chunked into a buffer when the server is done; a reader
  of that buffer is then dechunked into a new buffer. Either the whole message is decoded, and the reader of the
  new buffer has exactly the content; or the flow control stops the decoder, and it has a prefix of it.\<close>

theorem chunked_roundtrip:
  assumes "enchunks h c r m" "server_done c" "length (unread h r) < 2 ^ 27" "BUFFER_SIZE_ALLOCATED sz"
    and "i < MAX_MIOBUFFER_READERS" "rd_mbuf (m_readers m ! i) \<noteq> None" "rd_size_limit (m_readers m ! i) = INK64_MAX" "unread h (m_readers m ! i) = []"
  shows "\<exists>h1 c1 m1 h2 m2 m3 fin h3 d m4. generate_chunked_content (h, c) = Some (True, h1, c1) \<and> chunked_buffer c1 = Some m1 \<and>
    new_MIOBuffer k sz h1 = Some (h2, m2) \<and> alloc_reader m2 = Some (0, m3) \<and>
    process_chunked_content (h2, reading (m_readers m1 ! i) m3) = Some (fin, h3, d) \<and> dechunked_buffer d = Some m4 \<and>
    (if fin then state d = CHUNK_READ_DONE \<and> unread h3 (m_readers m4 ! 0) = unread h r
     else state d = CHUNK_FLOW_CONTROL \<and> (\<exists>rest. unread h r = unread h3 (m_readers m4 ! 0) @ rest))"
proof -
  from generate_ok[OF assms(1)] show ?thesis
  proof (elim exE conjE, goal_cases)
    case (1 n h1 c1 r1 m1)
    have sd: "server_done c" "state c1 \<noteq> CHUNK_FLOW_CONTROL" using assms(2) 1(7) by auto
    have all: "take n (unread h r) = unread h r" using 1(5,8) sd(2) by simp
    define q where "q = m_readers m1 ! i"
    have I: "mio_inv (h1, m1)" using 1(4) by (simp add: pipe_ok_def)
    have q: "rd_mbuf q \<noteq> None" "rd_size_limit q = INK64_MAX" "unread h1 q = chunks (unread h r) @ last_chunk"
      using growsD(7)[OF 1(6), rule_format, of i] assms(5-8) sd(1) all by (simp_all add: q_def)
    have "queue_ok (h1, m1) i" using I assms(5) q by (simp add: queue_ok_def reader_of_def q_def)
    then have qok: "reader_ok h1 q" using queue_reader_ok[of "(h1, m1)" i] by (simp add: reader_of_def q_def)
    have h1: "heap_ok h1" using I by (simp add: mio_inv_def)
    obtain h2 m2 m3 where N: "new_MIOBuffer k sz h1 = Some (h2, m2)" "alloc_reader m2 = Some (0, m3)" "pipe_ok h2 q m3" "unread h2 q = unread h1 q"
      "rd_mbuf (m_readers m3 ! 0) \<noteq> None" "unread h2 (m_readers m3 ! 0) = []" using fresh_pipe_reader[OF h1 qok q(2) assms(4), of k] by blast
    note D = reading_ok[OF N(3)]
    have "length (unread h2 q) < 2 ^ 31" using length_chunks[of "unread h r"] assms(3) by (simp add: N(4) q(3) last_chunk_def CRLF_def)
    from process_loop_ok[OF D[THEN conjunct1] this] show ?case
    proof (elim exE conjE, goal_cases)
      case (1 n' h3 d r3 m4)
      obtain bs where B: "chunk_run (take n' (unread h2 q)) (CHUNK_READ_SIZE, 0, 0, 0) = (cfg_of d, bs)" "grows bs (h2, m3) (h3, m4)"
        "unread h3 r3 = drop n' (unread h2 q)" "dechunked_buffer d = Some m4" using 1(2) D by (auto simp: decoded_def dechunks_def)
      obtain s where M: "chunk_run (unread h2 q) (CHUNK_READ_SIZE, 0, 0, 0) = ((CHUNK_READ_DONE, s), unread h r)"
        using chunk_run_message[of "unread h r"] by (auto simp: N(4) q(3))
      obtain cs where C: "unread h r = bs @ cs" "fst (cfg_of d) \<in> {CHUNK_READ_DONE, CHUNK_READ_ERROR} \<longrightarrow> (CHUNK_READ_DONE, s) = cfg_of d \<and> cs = []"
        using chunk_run_take[OF M B(1)] by blast
      have u: "unread h3 (m_readers m4 ! 0) = bs" using growsD(7)[OF B(2), rule_format, of 0] N(5,6) by (simp add: MAX_MIOBUFFER_READERS_def)
      have f: "fst (cfg_of d) = state d \<or> state d = CHUNK_FLOW_CONTROL" by (simp add: cfg_of_def)
      have "state d = CHUNK_READ_DONE" if "unread h3 r3 = []"
        using that B(1,3) M by (auto simp: cfg_of_def split: if_splits)
      then have e: "state d = CHUNK_FLOW_CONTROL \<or> state d = CHUNK_READ_DONE \<and> cs = []"
        using 1(3) C(2) by (auto simp: stopped_def cfg_of_def)
      have P: "process_chunked_content (h2, reading q m3) = Some (state d \<in> {CHUNK_READ_DONE, CHUNK_READ_ERROR}, h3, d)"
        using 1(1) by (simp add: process_chunked_content_def)
      have "if state d \<in> {CHUNK_READ_DONE, CHUNK_READ_ERROR} then state d = CHUNK_READ_DONE \<and> unread h3 (m_readers m4 ! 0) = unread h r
        else state d = CHUNK_FLOW_CONTROL \<and> (\<exists>rest. unread h r = unread h3 (m_readers m4 ! 0) @ rest)"
        using e C(1) u by auto
      then show ?case using \<open>generate_chunked_content (h, c) = Some (server_done c, h1, c1)\<close> \<open>chunked_buffer c1 = Some m1\<close> sd(1) N(1,2) P B(4)
        unfolding q_def by auto
    qed
  qed
qed

theorem chunked_roundtrip_witness:
  "\<exists>h r m h1 c1 m1 h2 m2 m3 fin h3 d. unread h r = [1, 2, 3] \<and> generate_chunked_content (h, writing r m) = Some (True, h1, c1) \<and>
     chunked_buffer c1 = Some m1 \<and> new_MIOBuffer 9 (- 4) h1 = Some (h2, m2) \<and> alloc_reader m2 = Some (0, m3) \<and>
     process_chunked_content (h2, reading (m_readers m1 ! 0) m3) = Some (fin, h3, d)"
proof -
  obtain h r m where S: "pipe_ok h r m" "unread h r = [1, 2, 3]" "rd_mbuf (m_readers m ! 0) \<noteq> None" "rd_size_limit (m_readers m ! 0) = INK64_MAX"
    "unread h (m_readers m ! 0) = []" using sample_pipe by blast
  have sz: "BUFFER_SIZE_ALLOCATED (- 4)" by (simp add: BUFFER_SIZE_ALLOCATED_def BUFFER_SIZE_INDEX_IS_XMALLOCED_def)
  have "0 < MAX_MIOBUFFER_READERS" by (simp add: MAX_MIOBUFFER_READERS_def)
  from chunked_roundtrip[OF _ _ _ sz this S(3-5), of "writing r m" r 9] S(2) writing_ok[OF S(1)] show ?thesis by fastforce
qed

text \<open>C17: a chunk whose size line does not begin with a hexadecimal digit is an error: the tunnel reports the end of the
  stream, marks it truncated, and delivers none of it.\<close>

theorem chunk_bad_size:
  assumes "dechunks h (chunked_handler p) r m" "length (unread h r) < 2 ^ 31" "state (chunked_handler p) = CHUNK_READ_SIZE" "num_digits (chunked_handler p) = 0"
    and "unread h r = x # xs" "\<not> is_hex x" "event \<in> {VC_EVENT_READ_READY, VC_EVENT_READ_COMPLETE, HTTP_TUNNEL_EVENT_PRECOMPLETE, VC_EVENT_EOS}"
  shows "\<exists>h' p' m'. producer_handler_chunked event (h, p) = Some (VC_EVENT_EOS, h', p') \<and> state (chunked_handler p') = CHUNK_READ_ERROR \<and>
    truncation (chunked_handler p') \<and> dechunked_buffer (chunked_handler p') = Some m' \<and>
    (\<forall>i<MAX_MIOBUFFER_READERS. rd_mbuf (m_readers m ! i) \<noteq> None \<longrightarrow> unread h' (m_readers m' ! i) = unread h (m_readers m ! i))"
proof -
  define c where "c = (chunked_handler p)\<lparr>last_server_event := event\<rparr>"
  have D: "dechunks h c r m" using assms(1) by (simp add: c_def dechunks_def parse_inv_def)
  have g: "\<exists>a. cfg_of c = (CHUNK_READ_SIZE, running_sum c, 0, a)" using assms(3,4) by (simp add: c_def cfg_of_def)
  from process_loop_ok[OF D assms(2)] show ?thesis
  proof (elim exE conjE, goal_cases)
    case (1 n h' c' r' m')
    obtain bs where B: "chunk_run (take n (unread h r)) (cfg_of c) = (cfg_of c', bs)" "grows bs (h, m) (h', m')" "unread h' r' = drop n (unread h r)"
      "dechunked_buffer c' = Some m'" using 1(2) by (auto simp: decoded_def dechunks_def)
    have n: "n \<noteq> 0"
    proof
      assume "n = 0"
      then have "cfg_of c' = cfg_of c" "unread h' r' \<noteq> []" using B(1,3) assms(5) by auto
      moreover obtain v a where "cfg_of c' = (CHUNK_READ_SIZE, v, 0, a)" using calculation(1) g by auto
      ultimately show False using 1(3) by (auto simp: stopped_def cfg_of_def)
    qed
    then obtain n' where n': "n = Suc n'" by (cases n) auto
    have "chunk_run (take n (unread h r)) (cfg_of c) = ((CHUNK_READ_ERROR, snd (cfg_of c)), [])"
      using g assms(6) chunk_run_end[of CHUNK_READ_ERROR "take n' xs"] unfolding assms(5) n' by (auto simp del: is_hex_eq)
    then have e: "state c' = CHUNK_READ_ERROR" "bs = []" using B(1) by (auto simp: cfg_of_def split: if_splits)
    have "process_chunked_content (h, c) = Some (True, h', c')" using 1(1) e(1) by (simp add: process_chunked_content_def)
    then have "producer_handler_chunked event (h, p) = Some (VC_EVENT_EOS, h', p\<lparr>chunked_handler := c'\<lparr>truncation := True\<rparr>\<rparr>)"
      using assms(7) e(1) unfolding producer_handler_chunked_def c_def by auto
    then show ?case using e B(4) growsD(7)[OF B(2)] by auto
  qed
qed

theorem chunk_bad_size_witness:
  "\<exists>h p h' p'. producer_handler_chunked VC_EVENT_READ_READY (h, p) = Some (VC_EVENT_EOS, h', p') \<and> truncation (chunked_handler p')"
proof -
  obtain h r m where S: "pipe_ok h r m" "unread h r = [0x78, 13, 10]" using sample_pipe by blast
  define p where "p = \<lparr>chunked_handler = reading r m, chunking_action = TCA_DECHUNK_CONTENT, read_vio = None\<rparr>"
  have "dechunks h (chunked_handler p) r m" "state (chunked_handler p) = CHUNK_READ_SIZE" "num_digits (chunked_handler p) = 0"
    using reading_ok[OF S(1)] by (simp_all add: p_def reading_def new_ChunkedHandler_def)
  from chunk_bad_size[OF this(1) _ this(2,3) S(2), of VC_EVENT_READ_READY] S(2) show ?thesis by (fastforce simp: is_hex_rule_def)
qed

text \<open>C38: a size line whose value is a multiple of 2^32 is read as 0: the chunk is taken for the last one, the message ends
  there and what follows is not decoded.\<close>

theorem chunk_size_wraps:
  assumes "dechunks h c r m" "length (unread h r) < 2 ^ 31" "cfg_of c = (CHUNK_READ_SIZE, 0, 0, 0)" "unread h r = hex_digits (2 ^ 32 * j) @ CRLF @ CRLF @ rest"
  shows "\<exists>h' c' m'. process_chunked_content (h, c) = Some (True, h', c') \<and> state c' = CHUNK_READ_DONE \<and> dechunked_buffer c' = Some m' \<and>
    (\<forall>i<MAX_MIOBUFFER_READERS. rd_mbuf (m_readers m ! i) \<noteq> None \<longrightarrow> unread h' (m_readers m' ! i) = unread h (m_readers m ! i))"
proof -
  define n where "n = (2 :: nat) ^ 32 * j"
  have n: "(of_nat n :: u32) = 0" by (simp add: n_def word_of_nat_eq_0_iff del: of_nat_mult)
  have L: "0 < length (hex_digits n)" "length (hex_digits n) < 2 ^ 32" using length_hex_digits[of n] assms(2,4) by (simp_all add: n_def)
  then have d: "(of_nat (length (hex_digits n)) :: u32) \<noteq> 0" by (simp add: word_of_nat_eq_0_iff nat_dvd_not_less)
  have "\<not> is_hex 13" by (simp add: is_hex_rule_def)
  then have M: "chunk_run (unread h r) (cfg_of c) = ((CHUNK_READ_DONE, 0, of_nat (length (hex_digits n)), 0), [])"
    using chunk_run_hex[of n 0 0 0] d n chunk_run_end[of CHUNK_READ_DONE rest] unfolding assms(3,4) n_def[symmetric]
    by (auto simp: chunk_run_append CRLF_def simp del: is_hex_eq)
  from process_loop_ok[OF assms(1,2)] show ?thesis
  proof (elim exE conjE, goal_cases)
    case (1 k h' c' r' m')
    obtain bs where B: "chunk_run (take k (unread h r)) (cfg_of c) = (cfg_of c', bs)" "grows bs (h, m) (h', m')" "unread h' r' = drop k (unread h r)"
      "dechunked_buffer c' = Some m'" using 1(2) by (auto simp: decoded_def dechunks_def)
    obtain cs where T: "[] = bs @ cs" "fst (cfg_of c') \<in> {CHUNK_READ_DONE, CHUNK_READ_ERROR} \<longrightarrow>
        (CHUNK_READ_DONE, 0, of_nat (length (hex_digits n)), 0) = cfg_of c' \<and> cs = []"
      using chunk_run_take[OF M B(1)] by blast
    have C: "bs = []" "fst (cfg_of c') \<in> {CHUNK_READ_DONE, CHUNK_READ_ERROR} \<longrightarrow> fst (cfg_of c') = CHUNK_READ_DONE"
      using T(1) T(2)[THEN mp, THEN conjunct1, symmetric] by auto
    have ns: "fst (cfg_of c') \<noteq> CHUNK_READ_SIZE_START" using chunk_run_no_start[of "cfg_of c" "take k (unread h r)" "cfg_of c'"] B(1) C(1) assms(3) by simp
    have "fst (cfg_of c') = CHUNK_READ_DONE" if "unread h' r' = []"
      using that B(1,3) M by (simp, metis fst_conv)
    then have "state c' = CHUNK_READ_DONE" using 1(3) C(2) ns by (auto simp: stopped_def cfg_of_def split: if_splits)
    then have "process_chunked_content (h, c) = Some (True, h', c')" using 1(1) by (simp add: process_chunked_content_def)
    then show ?case using B(4) C(1) growsD(7)[OF B(2)] \<open>state c' = CHUNK_READ_DONE\<close> by auto
  qed
qed

theorem chunk_size_wraps_witness:
  "\<exists>h r m h' c'. unread h r = hex_digits (2 ^ 32 * 1) @ CRLF @ CRLF @ [7] \<and> process_chunked_content (h, reading r m) = Some (True, h', c') \<and> state c' = CHUNK_READ_DONE"
proof -
  obtain h r m where S: "pipe_ok h r m" "unread h r = hex_digits (2 ^ 32 * 1) @ CRLF @ CRLF @ [7]" using sample_pipe by blast
  have "length (hex_digits (2 ^ 32 * 1)) < 1000" by (simp add: hex_digits_rec)
  then have "length (unread h r) < 2 ^ 31" using S(2) by (simp add: CRLF_def)
  from chunk_size_wraps[OF conjunct1[OF reading_ok[OF S(1)]] this conjunct2[OF reading_ok[OF S(1)]] S(2)] S(2) show ?thesis by blast
qed

text \<open>C24: whatever the event and the input, \<^verbatim>\<open>producer_handler_chunked\<close> returns and keeps the handler well-formed: its reader and
  buffer on their own blocks, the rest of a chunk within 31 bits, the state a reading one. For an event it handles,
  an error or a stream that ends inside the message is marked as truncated, \<^verbatim>\<open>READ_READY\<close> becomes
  \<^verbatim>\<open>READ_COMPLETE\<close> exactly when the message is complete, and in the flow control the server is stopped.\<close>

theorem producer_handler_chunked_typed:
  assumes "dechunks h (chunked_handler p) r m" "length (unread h r) < 2 ^ 31"
  shows "\<exists>ev h' p' r' m'. producer_handler_chunked event (h, p) = Some (ev, h', p') \<and> dechunks h' (chunked_handler p') r' m' \<and>
    (let st = state (chunked_handler p') in
     event \<in> {VC_EVENT_READ_READY, VC_EVENT_READ_COMPLETE, HTTP_TUNNEL_EVENT_PRECOMPLETE, VC_EVENT_EOS} \<longrightarrow>
       (st = CHUNK_READ_ERROR \<longrightarrow> ev = VC_EVENT_EOS \<and> truncation (chunked_handler p')) \<and>
       (st = CHUNK_FLOW_CONTROL \<and> read_vio p \<noteq> None \<longrightarrow> ev = VC_EVENT_READ_READY \<and> (\<exists>v. read_vio p' = Some v \<and> nbytes v = ndone v)) \<and>
       (st \<notin> {CHUNK_READ_ERROR, CHUNK_FLOW_CONTROL} \<longrightarrow>
          (if event = VC_EVENT_READ_READY then ev = (if st = CHUNK_READ_DONE then VC_EVENT_READ_COMPLETE else VC_EVENT_READ_READY)
           else ev = event \<and> (st \<noteq> CHUNK_READ_DONE \<longrightarrow> truncation (chunked_handler p')))))"
proof (cases "event \<in> {VC_EVENT_READ_READY, VC_EVENT_READ_COMPLETE, HTTP_TUNNEL_EVENT_PRECOMPLETE, VC_EVENT_EOS}")
  case False
  then have "producer_handler_chunked event (h, p) = Some (event, h, p)" unfolding producer_handler_chunked_def prod.case by (simp only: if_True simp_thms)
  then show ?thesis using False assms(1) unfolding Let_def by blast
next
  case True
  define c where "c = (chunked_handler p)\<lparr>last_server_event := event\<rparr>"
  have D: "dechunks h c r m" using assms(1) by (simp add: c_def dechunks_def parse_inv_def)
  from process_loop_ok[OF D assms(2)] show ?thesis
  proof (elim exE conjE, goal_cases)
    case (1 n h' c' r' m')
    define p' where "p' = (if state c' = CHUNK_READ_ERROR then p\<lparr>chunked_handler := c'\<lparr>truncation := True\<rparr>\<rparr>
       else if read_vio p \<noteq> None \<and> state c' = CHUNK_FLOW_CONTROL then p\<lparr>chunked_handler := c', read_vio := map_option (\<lambda>v. v\<lparr>nbytes := ndone v\<rparr>) (read_vio p)\<rparr>
       else if event = VC_EVENT_READ_READY then p\<lparr>chunked_handler := c'\<rparr>
       else p\<lparr>chunked_handler := (if state c' \<noteq> CHUNK_READ_DONE then c'\<lparr>truncation := True\<rparr> else c')\<rparr>)"
    define ev where "ev = (if state c' = CHUNK_READ_ERROR then VC_EVENT_EOS
       else if read_vio p \<noteq> None \<and> state c' = CHUNK_FLOW_CONTROL then VC_EVENT_READ_READY
       else if event = VC_EVENT_READ_READY then (if state c' = CHUNK_READ_DONE then VC_EVENT_READ_COMPLETE else event) else event)"
    have P: "process_chunked_content (h, c) = Some (state c' \<in> {CHUNK_READ_DONE, CHUNK_READ_ERROR}, h', c')" using 1(1) by (simp add: process_chunked_content_def)
    have "\<not> event \<notin> {VC_EVENT_READ_READY, VC_EVENT_READ_COMPLETE, HTTP_TUNNEL_EVENT_PRECOMPLETE, VC_EVENT_EOS}" using True by blast
    then have E: "producer_handler_chunked event (h, p) = Some (ev, h', p')"
      unfolding producer_handler_chunked_def prod.case c_def[symmetric] P by (simp add: ev_def p'_def)
    have D': "dechunks h' c' r' m'" using 1(2) by (simp add: decoded_def)
    have cp: "chunked_handler p' = c' \<or> chunked_handler p' = c'\<lparr>truncation := True\<rparr>" by (simp add: p'_def)
    then have st: "state (chunked_handler p') = state c'" by auto
    have T1: "dechunks h' (chunked_handler p') r' m'" using cp D' by (auto simp: dechunks_def parse_inv_def)
    have T2: "state c' = CHUNK_READ_ERROR \<longrightarrow> ev = VC_EVENT_EOS \<and> truncation (chunked_handler p')" by (simp add: ev_def p'_def)
    have T3: "state c' = CHUNK_FLOW_CONTROL \<and> read_vio p \<noteq> None \<longrightarrow> ev = VC_EVENT_READ_READY \<and> (\<exists>v. read_vio p' = Some v \<and> nbytes v = ndone v)"
      by (auto simp: ev_def p'_def)
    have T4: "state c' \<notin> {CHUNK_READ_ERROR, CHUNK_FLOW_CONTROL} \<longrightarrow>
          (if event = VC_EVENT_READ_READY then ev = (if state c' = CHUNK_READ_DONE then VC_EVENT_READ_COMPLETE else VC_EVENT_READ_READY)
           else ev = event \<and> (state c' \<noteq> CHUNK_READ_DONE \<longrightarrow> truncation (chunked_handler p')))" by (auto simp: ev_def p'_def)
    show ?case unfolding Let_def
      by (intro exI[of _ ev] exI[of _ h'] exI[of _ p'] exI[of _ r'] exI[of _ m'] conjI E T1, unfold st, rule impI, intro conjI) (rule T2 T3 T4)+
  qed
qed

theorem producer_handler_chunked_typed_witness:
  "\<exists>h p r m. dechunks h (chunked_handler p) r m \<and> unread h r = [0x31, 13] \<and> (\<exists>h' p'. producer_handler_chunked 17 (h, p) = Some (17, h', p'))"
proof -
  obtain h r m where S: "pipe_ok h r m" "unread h r = [0x31, 13]" using sample_pipe by blast
  define p where "p = \<lparr>chunked_handler = reading r m, chunking_action = TCA_DECHUNK_CONTENT, read_vio = None\<rparr>"
  have D: "dechunks h (chunked_handler p) r m" using reading_ok[OF S(1)] by (simp add: p_def)
  have "\<exists>x. producer_handler_chunked 17 (h, p) = Some x" using producer_handler_chunked_typed[OF D, of 17] S(2) by auto
  then have "\<exists>h' p'. producer_handler_chunked 17 (h, p) = Some (17, h', p')" by (simp add: producer_handler_chunked_def event_defs)
  then show ?thesis using D S(2) by blast
qed

end
