(* ===== verification/Mime_Date.thy ===== *)
theory Mime_Date
  imports Parse_Rules "HOL-Library.Monad_Syntax"
begin

text \<open>
  The dates and numbers of MIME header fields (\<^verbatim>\<open>proxy/hdrs/MIME.cc\<close>): formatting and parsing of integers, the
  conversion of days since 1970 into month, day and year, by computation and through the table of
  \<^verbatim>\<open>mime_init_date_format_table\<close>, \<^verbatim>\<open>mime_format_date\<close>, and \<^verbatim>\<open>mime_parse_date\<close> with its four formats.

  Characters are \<^typ>\<open>u8\<close>, the pair of pointers \<^verbatim>\<open>buf\<close>, \<^verbatim>\<open>end\<close> is the list of the characters between them. A C
  \<^verbatim>\<open>int\<close> is an \<^typ>\<open>int\<close>, brought back into 32 bits by \<open>c_int\<close> where a parsed number can leave them. The automata
  \<^verbatim>\<open>day_names_dfa\<close> and \<^verbatim>\<open>month_names_dfa\<close>, which \<^verbatim>\<open>Regex.cc\<close> builds, are arguments. The value of an uninitialised
  variable is an argument, and a read outside of a table gives \<^term>\<open>None\<close>.
\<close>

definition ascii :: "string \<Rightarrow> u8 list" where
  "ascii s = map (\<lambda>c. of_nat (of_char c)) s"

section \<open>Characters and numbers\<close>

definition mime_is_digit :: "u8 \<Rightarrow> bool" where
  "mime_is_digit c \<longleftrightarrow> sint c \<le> 0x39 \<and> sint c \<ge> 0x30"

definition mime_is_ws :: "u8 \<Rightarrow> bool" where
  "mime_is_ws c \<longleftrightarrow> c = CHAR_SP \<or> c = CHAR_HT"

text \<open>The characters that the branches for 0 to 99999 store, from the last one to the first.\<close>

fun low_digits :: "nat \<Rightarrow> int \<Rightarrow> u8 list" where
  "low_digits 0 val = []"
| "low_digits (Suc n) val = low_digits n (val sdiv 10) @ [word_of_int (0x30 + val smod 10)]"

text \<open>The number returned and the characters in the buffer; \<^verbatim>\<open>snprintf\<close> stores at most \<^verbatim>\<open>buf_len - 1\<close> of them.\<close>

definition mime_format_int :: "int \<Rightarrow> nat \<Rightarrow> int \<times> u8 list" where
  "mime_format_int val buf_len =
     (if val < 0 \<or> val \<ge> 100000 then (int (length (decimal val)), take (buf_len - 1) (decimal val))
      else if val < 100 then (if val < 10 then (1, [word_of_int (0x30 + val)]) else (2, low_digits 2 val))
      else if val < 1000 then (3, low_digits 3 val)
      else if val < 10000 then (4, low_digits 4 val)
      else (5, low_digits 5 val))"

definition mime_format_uint :: "u32 \<Rightarrow> nat \<Rightarrow> int \<times> u8 list" where
  "mime_format_uint v buf_len =
     (let val = uint v
      in if val \<ge> 100000 then (int (length (decimal val)), take (buf_len - 1) (decimal val))
         else if val < 100 then (if val < 10 then (1, [word_of_int (0x30 + val)]) else (2, low_digits 2 val))
         else if val < 1000 then (3, low_digits 3 val)
         else if val < 10000 then (4, low_digits 4 val)
         else (5, low_digits 5 val))"

fun parse_pos :: "u32 \<Rightarrow> u8 list \<Rightarrow> u32" where
  "parse_pos num [] = num"
| "parse_pos num (c # cs) = (if mime_is_digit c then parse_pos (num * 10 + word_of_int (sint c - 0x30)) cs else num)"

fun parse_neg :: "u32 \<Rightarrow> u8 list \<Rightarrow> u32" where
  "parse_neg num [] = num"
| "parse_neg num (c # cs) = (if mime_is_digit c then parse_neg (num * 10 - word_of_int (sint c - 0x30)) cs else num)"

definition mime_parse_int :: "u8 list option \<Rightarrow> u32" where
  "mime_parse_int b = (case b of
     None \<Rightarrow> 0
   | Some [] \<Rightarrow> 0
   | Some (c # cs) \<Rightarrow>
       if mime_is_digit c then parse_pos (word_of_int (sint c - 0x30)) cs
       else
         let buf = dropWhile is_space (c # cs)
         in if buf \<noteq> [] \<and> hd buf = 0x2D then parse_neg 0 (tl buf) else - parse_neg 0 buf)"

definition mime_parse_uint :: "u8 list option \<Rightarrow> u32" where
  "mime_parse_uint b = (case b of
     None \<Rightarrow> 0
   | Some [] \<Rightarrow> 0
   | Some (c # cs) \<Rightarrow>
       if mime_is_digit c then parse_pos (word_of_int (sint c - 0x30)) cs
       else parse_pos 0 (dropWhile is_space (c # cs)))"

section \<open>Days since 1970\<close>

type_synonym mdy = "int \<times> int \<times> int"

definition DAYS_OFFSET :: int where "DAYS_OFFSET = 25508"

definition mdy_months :: "int list" where
  "mdy_months = replicate 32 2 @ replicate 30 3 @ replicate 31 4 @ replicate 30 5 @ replicate 31 6 @ replicate 31 7 @ replicate 30 8 @
     replicate 31 9 @ replicate 30 10 @ replicate 31 11 @ replicate 31 0 @ replicate 29 1"

definition mdy_days :: "int list" where
  "mdy_days = [305, 336, -1, 30, 60, 91, 121, 152, 183, 213, 244, 274]"

definition days_to_year :: "int \<Rightarrow> int" where
  "days_to_year year = year * 365 + year sdiv 4 - year sdiv 100 + (year sdiv 100 + 3) sdiv 4"

lemma sdiv_mono: "a \<le> c \<Longrightarrow> 0 < b \<Longrightarrow> a sdiv b \<le> c sdiv b" for a b c :: int
proof -
  assume ac: "a \<le> c" and b: "0 < b"
  have neg: "x sdiv b = - ((- x) div b)" if "x < 0" for x using that b by (simp add: signed_divide_int_def)
  show ?thesis
  proof (cases "0 \<le> a")
    case True
    then show ?thesis using ac b by (simp add: sdiv_nonneg zdiv_mono1)
  next
    case a: False
    show ?thesis
    proof (cases "0 \<le> c")
      case True
      then show ?thesis using a b neg[of a] pos_imp_zdiv_nonneg_iff[OF b, of "- a"] pos_imp_zdiv_nonneg_iff[OF b, of c] by (simp add: sdiv_nonneg)
    next
      case False
      then show ?thesis using a ac b neg zdiv_mono1[of "- c" "- a" b] by simp
    qed
  qed
qed

lemma sdiv_step: "0 < b \<Longrightarrow> (a + 1) sdiv b \<le> a sdiv b + 1" for a b :: int
proof -
  assume b: "0 < b"
  show ?thesis
  proof (cases "0 \<le> a")
    case True
    then show ?thesis using b zdiv_mono1[of "a + 1" "a + b" b] div_add_self2[of b a] by (simp add: sdiv_nonneg)
  next
    case False
    show ?thesis
    proof (cases "a = -1")
      case True
      then show ?thesis using b zdiv_mono2[of 1 1 b] by (simp add: signed_divide_int_def)
    next
      case na: False
      have "(- a) div b \<le> (- a - 1 + b) div b" using b by (intro zdiv_mono1) auto
      then have "(- a) div b \<le> (- (a + 1)) div b + 1" using b div_add_self2[of b "- a - 1"] by simp
      then show ?thesis using False na b by (simp add: signed_divide_int_def)
    qed
  qed
qed

lemma days_to_year_mono: "days_to_year year < days_to_year (year + 1)"
  using sdiv_mono[of year "year + 1" 4] sdiv_step[of 100 year] sdiv_mono[of "year sdiv 100 + 3" "(year + 1) sdiv 100 + 3" 4] sdiv_mono[of year "year + 1" 100]
  by (simp add: days_to_year_def)

text \<open>The loop that refines the guess of the year; at each test \<^verbatim>\<open>dp\<close> is the value for \<^verbatim>\<open>year\<close>.\<close>

function refine_year :: "int \<Rightarrow> int \<Rightarrow> int \<Rightarrow> int \<times> int" where
  "refine_year mday d year =
     (let dp = days_to_year year - DAYS_OFFSET - 1
      in if dp < mday then refine_year mday dp (year + 1) else (d, year))"
  by auto
termination
proof (relation "measure (\<lambda>(mday, d, year). nat (mday - (days_to_year year - DAYS_OFFSET - 1)))", simp, goal_cases)
  case (1 mday d year dp)
  then show ?case using days_to_year_mono[of year] by simp
qed

declare refine_year.simps [simp del]

text \<open>A bad date leaves the variables of the caller, \<open>u\<close>, as they are.\<close>

definition mime_days_since_epoch_to_mdy_slowcase :: "u32 \<Rightarrow> mdy \<Rightarrow> mdy" where
  "mime_days_since_epoch_to_mdy_slowcase days_since_jan_1_1970 u =
     (let mday = sint days_since_jan_1_1970;
          year = mday sdiv 365 + 69;
          (d0, year1) = refine_year mday (days_to_year year - DAYS_OFFSET - 1) year;
          d = mday - d0
      in if d < 0 \<or> d > 366 then u
         else
           let month = mdy_months ! nat d;
               year2 = (if month > 1 then year1 - 1 else year1)
           in (month, d - mdy_days ! nat month - 1, year2 + 1900))"

record mdy_table =
  first_day :: u32
  last_day :: u32
  mdy_entries :: "(u8 \<times> u8 \<times> u16) list"

primrec fill_table :: "nat \<Rightarrow> int \<Rightarrow> mdy \<Rightarrow> (u8 \<times> u8 \<times> u16) list" where
  "fill_table 0 day v = []"
| "fill_table (Suc n) day v =
     (let (m, d, y) = mime_days_since_epoch_to_mdy_slowcase (word_of_int day) v
      in (word_of_int m, word_of_int d, word_of_int y) # fill_table n (day + 1) (m, d, y))"

definition mime_init_date_format_table :: "int \<Rightarrow> mdy \<Rightarrow> mdy_table" where
  "mime_init_date_format_table now_secs u =
     (let now_days = c_int (now_secs sdiv (60 * 60 * 24));
          first_days = now_days - 366;
          last_days = now_days + 366;
          num_days = last_days - first_days + 1
      in \<lparr>first_day = word_of_int first_days, last_day = word_of_int last_days, mdy_entries = fill_table (nat num_days) first_days u\<rparr>)"

definition mime_days_since_epoch_to_mdy :: "mdy_table \<Rightarrow> u32 \<Rightarrow> mdy \<Rightarrow> mdy" where
  "mime_days_since_epoch_to_mdy tbl days u =
     (if days \<ge> first_day tbl \<and> days \<le> last_day tbl then
        (case mdy_entries tbl ! unat (days - first_day tbl) of (m, d, y) \<Rightarrow> (uint m, uint d, uint y))
      else mime_days_since_epoch_to_mdy_slowcase days u)"

section \<open>Formatting a date\<close>

definition daystrs :: "u8 list list" where
  "daystrs = map ascii [''Sun'', ''Mon'', ''Tue'', ''Wed'', ''Thu'', ''Fri'', ''Sat'']"

definition monthstrs :: "u8 list list" where
  "monthstrs = map ascii [''Jan'', ''Feb'', ''Mar'', ''Apr'', ''May'', ''Jun'', ''Jul'', ''Aug'', ''Sep'', ''Oct'', ''Nov'', ''Dec'']"

definition digitstrs :: "u8 list list" where
  "digitstrs = map (\<lambda>n. [0x30 + of_nat (n div 10), 0x30 + of_nat (n mod 10)]) [0..<100]"

definition entry :: "u8 list list \<Rightarrow> int \<Rightarrow> u8 list option" where
  "entry strs i = (if 0 \<le> i \<and> i < int (length strs) then Some (strs ! nat i) else None)"

definition format_year :: "int \<Rightarrow> u8 list" where
  "format_year year =
     (if year \<ge> 2000 \<and> year \<le> 2009 then ascii ''200'' @ [word_of_int ((year - 2000) + 0x30)]
      else if year \<ge> 1990 \<and> year \<le> 1999 then ascii ''199'' @ [word_of_int ((year - 1990) + 0x30)]
      else low_digits 4 year)"

definition mime_format_date :: "mdy_table \<Rightarrow> mdy \<Rightarrow> int \<Rightarrow> u8 list option" where
  "mime_format_date tbl u value =
     (let sec = c_int (value smod 60); v1 = value sdiv 60;
          minute = c_int (v1 smod 60); v2 = v1 sdiv 60;
          hour = c_int (v2 smod 24); v3 = v2 sdiv 24;
          wday = c_int ((4 + v3) smod 7);
          (month, mday, year) = mime_days_since_epoch_to_mdy tbl (word_of_int v3) u
      in do {
        three_char_day \<leftarrow> entry daystrs wday;
        md \<leftarrow> entry digitstrs mday;
        three_char_month \<leftarrow> entry monthstrs month;
        hh \<leftarrow> entry digitstrs hour;
        mm \<leftarrow> entry digitstrs minute;
        ss \<leftarrow> entry digitstrs sec;
        Some (three_char_day @ ascii '', '' @ md @ ascii '' '' @ three_char_month @ ascii '' '' @ format_year year @ ascii '' '' @
          hh @ ascii '':'' @ mm @ ascii '':'' @ ss @ ascii '' GMT'')
      })"

section \<open>Parsing a date\<close>

text \<open>The parsers return what they store through their last argument and the rest of the input, \<^term>\<open>None\<close> for the result 0.\<close>

definition digits_value :: "u8 list \<Rightarrow> int" where
  "digits_value ds = c_int (foldl (\<lambda>val c. val * 10 + (sint c - 0x30)) 0 ds)"

definition mime_parse_integer :: "u8 list \<Rightarrow> (int \<times> u8 list) option" where
  "mime_parse_integer buf =
     (let b = dropWhile (\<lambda>c. c \<noteq> 0 \<and> \<not> mime_is_digit c \<and> c \<noteq> 0x2D) buf
      in if b = [] \<or> hd b = 0 then None
         else
           let negative = (hd b = 0x2D);
               b1 = (if negative then tl b else b);
               val = digits_value (takeWhile mime_is_digit b1)
           in Some (if negative then c_int (- val) else val, dropWhile mime_is_digit b1))"

definition mime_parse_mday :: "u8 list \<Rightarrow> (int \<times> u8 list) option" where
  "mime_parse_mday buf = mime_parse_integer buf"

definition mime_parse_time :: "u8 list \<Rightarrow> ((int \<times> int \<times> int) \<times> u8 list) option" where
  "mime_parse_time buf = do {
     (hour, b1) \<leftarrow> mime_parse_integer buf;
     (minute, b2) \<leftarrow> mime_parse_integer b1;
     (sec, b3) \<leftarrow> mime_parse_integer b2;
     Some ((hour, minute, sec), b3)
   }"

definition mime_parse_year :: "u8 list \<Rightarrow> (int \<times> u8 list) option" where
  "mime_parse_year buf =
     (let b = dropWhile (\<lambda>c. c \<noteq> 0 \<and> \<not> mime_is_digit c) buf
      in if b = [] \<or> hd b = 0 then None
         else
           let val = digits_value (takeWhile (\<lambda>c. c \<noteq> 0 \<and> mime_is_digit c) b);
               year = (if val \<ge> 1900 then val - 1900 else if val < 70 then val + 100 else val)
           in Some (year, dropWhile (\<lambda>c. c \<noteq> 0 \<and> mime_is_digit c) b))"

text \<open>\<^verbatim>\<open>mime_parse_day\<close> and \<^verbatim>\<open>mime_parse_month\<close>, which differ in the automaton.\<close>

definition parse_name :: "(u8 list \<Rightarrow> int) \<Rightarrow> u8 list \<Rightarrow> (int \<times> u8 list) option" where
  "parse_name dfa buf =
     (let b = dropWhile (\<lambda>c. c \<noteq> 0 \<and> \<not> is_alpha c) buf;
          i = dfa (takeWhile (\<lambda>c. c \<noteq> 0 \<and> is_alpha c) b)
      in if i < 0 then None else Some (i, dropWhile (\<lambda>c. c \<noteq> 0 \<and> is_alpha c) b))"

definition mime_parse_day :: "(u8 list \<Rightarrow> int) \<Rightarrow> u8 list \<Rightarrow> (int \<times> u8 list) option" where
  "mime_parse_day day_names_dfa buf = parse_name day_names_dfa buf"

definition mime_parse_month :: "(u8 list \<Rightarrow> int) \<Rightarrow> u8 list \<Rightarrow> (int \<times> u8 list) option" where
  "mime_parse_month month_names_dfa buf = parse_name month_names_dfa buf"

definition three_char :: "u8 list \<Rightarrow> nat \<Rightarrow> u32" where
  "three_char buf i = word_of_int (or (or (push_bit 16 (sint (chr_at buf i))) (push_bit 8 (sint (chr_at buf (i + 1))))) (sint (chr_at buf (i + 2))))"

definition fast_wday :: "u32 \<Rightarrow> int" where
  "fast_wday w =
     (if w \<le> 0x53756E then
        (if w = 0x467269 then 5 else if w = 0x4D6F6E then 1 else if w = 0x536174 then 6 else if w = 0x53756E then 0 else -1)
      else
        (if w = 0x546875 then 4 else if w = 0x547565 then 2 else if w = 0x576564 then 3 else -1))"

definition fast_mon :: "u32 \<Rightarrow> int" where
  "fast_mon w =
     (if w \<le> 0x4A756C then
        (if w \<le> 0x446563 then (if w = 0x417072 then 3 else if w = 0x417567 then 7 else if w = 0x446563 then 11 else -1)
         else (if w = 0x466562 then 1 else if w = 0x4A616E then 0 else if w = 0x4A756C then 6 else -1))
      else
        (if w \<le> 0x4D6179 then (if w = 0x4A756E then 5 else if w = 0x4D6172 then 2 else if w = 0x4D6179 then 4 else -1)
         else (if w = 0x4E6F76 then 10 else if w = 0x4F6374 then 9 else if w = 0x536570 then 8 else -1)))"

definition dig :: "u8 list \<Rightarrow> nat \<Rightarrow> int" where
  "dig buf i = sint (chr_at buf i) - 0x30"

record tm =
  tm_mday :: int
  tm_mon :: int
  tm_year :: int
  tm_hour :: int
  tm_min :: int
  tm_sec :: int

definition mime_parse_rfc822_date_fastcase :: "(u8 list \<Rightarrow> int) \<Rightarrow> (u8 list \<Rightarrow> int) \<Rightarrow> u8 list \<Rightarrow> tm option" where
  "mime_parse_rfc822_date_fastcase day_names_dfa month_names_dfa buf =
     (let w0 = fast_wday (three_char buf 0);
          wday = (if w0 < 0 then day_names_dfa buf else w0)
      in if wday < 0 then None
         else
           let m0 = fast_mon (three_char buf 8);
               mon = (if m0 < 0 then month_names_dfa buf else m0)
           in if mon < 0 then None
              else if chr_at buf 19 \<noteq> 0x3A \<or> chr_at buf 22 \<noteq> 0x3A then None
              else Some \<lparr>tm_mday = dig buf 5 * 10 + dig buf 6, tm_mon = mon,
                     tm_year = (dig buf 12 * 1000 + dig buf 13 * 100 + dig buf 14 * 10 + dig buf 15) - 1900,
                     tm_hour = dig buf 17 * 10 + dig buf 18, tm_min = dig buf 20 * 10 + dig buf 21, tm_sec = dig buf 23 * 10 + dig buf 24\<rparr>)"

text \<open>The choice of the format; \<^term>\<open>None\<close> is the return of 0 from within.\<close>

definition parse_fields :: "(u8 list \<Rightarrow> int) \<Rightarrow> (u8 list \<Rightarrow> int) \<Rightarrow> u8 list \<Rightarrow> tm option" where
  "parse_fields day_names_dfa month_names_dfa buf =
     (if buf \<noteq> [] \<and> mime_is_digit (hd buf) then do {
        (d, b1) \<leftarrow> mime_parse_mday buf;
        (m, b2) \<leftarrow> mime_parse_month month_names_dfa b1;
        (y, b3) \<leftarrow> mime_parse_year b2;
        ((hh, mm, ss), b4) \<leftarrow> mime_parse_time b3;
        Some \<lparr>tm_mday = d, tm_mon = m, tm_year = y, tm_hour = hh, tm_min = mm, tm_sec = ss\<rparr>
      }
      else if length buf \<ge> 29 \<and> buf ! 3 = 0x2C then mime_parse_rfc822_date_fastcase day_names_dfa month_names_dfa buf
      else do {
        (w, b1) \<leftarrow> mime_parse_day day_names_dfa buf;
        let b2 = dropWhile mime_is_ws b1;
        if b2 \<noteq> [] \<and> (hd b2 = 0x2C \<or> mime_is_digit (hd b2)) then do {
          (d, b3) \<leftarrow> mime_parse_mday b2;
          (m, b4) \<leftarrow> mime_parse_month month_names_dfa b3;
          (y, b5) \<leftarrow> mime_parse_year b4;
          ((hh, mm, ss), b6) \<leftarrow> mime_parse_time b5;
          Some \<lparr>tm_mday = d, tm_mon = m, tm_year = y, tm_hour = hh, tm_min = mm, tm_sec = ss\<rparr>
        }
        else do {
          (m, b3) \<leftarrow> mime_parse_month month_names_dfa b2;
          (d, b4) \<leftarrow> mime_parse_mday b3;
          ((hh, mm, ss), b5) \<leftarrow> mime_parse_time b4;
          (y, b6) \<leftarrow> mime_parse_year b5;
          Some \<lparr>tm_mday = d, tm_mon = m, tm_year = y, tm_hour = hh, tm_min = mm, tm_sec = ss\<rparr>
        }
      })"

definition time_of_tm :: "tm \<Rightarrow> int option" where
  "time_of_tm tp =
     (let year = tm_year tp; month = tm_mon tp; mday = tm_mday tp
      in if year > 137 then Some (2 ^ 31 - 1)
         else if year < 70 then Some 0
         else if month < 0 \<or> month \<ge> 12 then None
         else
           let mday1 = mday + mdy_days ! nat month;
               year1 = (if month < 2 then year - 1 else year);
               mday2 = mday1 + days_to_year year1 - DAYS_OFFSET
           in Some (c_int (((mday2 * 24 + tm_hour tp) * 60 + tm_min tp) * 60 + tm_sec tp)))"

definition mime_parse_date :: "(u8 list \<Rightarrow> int) \<Rightarrow> (u8 list \<Rightarrow> int) \<Rightarrow> u8 list option \<Rightarrow> int option" where
  "mime_parse_date day_names_dfa month_names_dfa b = (case b of
     None \<Rightarrow> Some 0
   | Some buf \<Rightarrow>
       (case parse_fields day_names_dfa month_names_dfa (dropWhile mime_is_ws buf) of
          None \<Rightarrow> Some 0
        | Some tp \<Rightarrow> time_of_tm tp))"

end
