(* ===== verification/Mime_Date_Main.thy ===== *)
theory Mime_Date_Main
  imports Mime_Date
begin

text \<open>
  The conversion of days into dates agrees with the Gregorian calendar, given by \<open>next_day\<close>, up to the year
  3232, through the table as well; parsing a formatted date gives back its time; parsing a formatted integer gives
  back the integer.
\<close>

section \<open>The calendar\<close>

definition leap :: "int \<Rightarrow> bool" where
  "leap y \<longleftrightarrow> y mod 4 = 0 \<and> (y mod 100 \<noteq> 0 \<or> y mod 400 = 0)"

definition month_days :: "bool \<Rightarrow> int \<Rightarrow> int" where
  "month_days lp m = (if m = 1 then (if lp then 29 else 28) else if m \<in> set [3, 5, 8, 10] then 30 else 31)"

definition next_day :: "mdy \<Rightarrow> mdy" where
  "next_day = (\<lambda>(m, d, y). if d < month_days (leap y) m then (m, d + 1, y) else if m < 11 then (m + 1, 1, y) else (0, 1, y + 1))"

definition calendar :: "nat \<Rightarrow> mdy" where
  "calendar n = (next_day ^^ n) (0, 1, 1970)"

section \<open>The length of a year\<close>

lemma div_step: "0 < k \<Longrightarrow> (y + 1) div k = y div k + of_bool ((y + 1) mod k = 0)" for y k :: int
proof -
  assume k: "0 < k"
  let ?q = "y div k" and ?r = "y mod k"
  have y: "y = k * ?q + ?r" and r: "0 \<le> ?r" "?r < k" using k by simp_all
  show ?thesis
  proof (cases "?r + 1 = k")
    case True
    then have "y + 1 = k * (?q + 1)" using y by (subst distrib_left) linarith
    then show ?thesis using k by (metis nonzero_mult_div_cancel_left mod_mult_self1_is_0 of_bool_eq(2) less_irrefl)
  next
    case False
    then have "y + 1 = k * ?q + (?r + 1)" "0 \<le> ?r + 1" "?r + 1 < k" using y r by linarith+
    then show ?thesis using r int_div_pos_eq[of "y + 1" k ?q "?r + 1"] int_mod_pos_eq[of "y + 1" k ?q "?r + 1"] by simp
  qed
qed

lemma days_to_year_nonneg: "0 \<le> y \<Longrightarrow> days_to_year y = y * 365 + y div 4 - y div 100 + (y + 300) div 400"
proof -
  assume y: "0 \<le> y"
  have "(y div 100 + 3) div 4 = (y + 3 * 100) div 100 div 4" by (subst div_mult_self1) simp_all
  also have "\<dots> = (y + 300) div 400" using zdiv_zmult2_eq[of 4 "y + 300" 100] by simp
  finally show ?thesis using y by (simp add: days_to_year_def sdiv_nonneg pos_imp_zdiv_nonneg_iff)
qed

lemma days_to_year_step: "0 \<le> y \<Longrightarrow> days_to_year (y + 1) - days_to_year y = (if leap (1901 + y) then 366 else 365)"
proof -
  assume y: "0 \<le> y"
  have m4: "(1901 + y) mod 4 = (y + 1) mod 4" using mod_mult_self1[of "y + 1" 475 4] by (simp add: add.commute)
  have m100: "(1901 + y) mod 100 = (y + 1) mod 100" using mod_mult_self1[of "y + 1" 19 100] by (simp add: add.commute)
  have m400: "(1901 + y) mod 400 = (y + 301) mod 400" using mod_mult_self1[of "y + 301" 4 400] by (simp add: add.commute)
  have i: "(y + 1) mod 100 = 0 \<Longrightarrow> (y + 1) mod 4 = 0" using mod_mod_cancel[of 4 100 "y + 1"] by simp
  have j: "(y + 301) mod 400 = 0 \<Longrightarrow> (y + 1) mod 100 = 0"
    using mod_mod_cancel[of 100 400 "y + 301"] mod_mult_self1[of "y + 1" 3 100] by (simp add: add.commute)
  have "days_to_year (y + 1) = (y + 1) * 365 + (y + 1) div 4 - (y + 1) div 100 + (y + 300 + 1) div 400"
    using y by (subst days_to_year_nonneg) (simp_all add: add.commute add.left_commute)
  moreover have "days_to_year y = y * 365 + y div 4 - y div 100 + (y + 300) div 400" using y by (rule days_to_year_nonneg)
  ultimately have "days_to_year (y + 1) - days_to_year y = 365 + of_bool ((y + 1) mod 4 = 0) - of_bool ((y + 1) mod 100 = 0) + of_bool ((y + 300 + 1) mod 400 = 0)"
    by (simp only: div_step zero_less_numeral distrib_right mult_1)
  also have "y + 300 + 1 = y + 301" by simp
  finally show ?thesis using i j unfolding leap_def m4 m100 m400 by (cases "(y + 1) mod 4 = 0"; cases "(y + 1) mod 100 = 0"; cases "(y + 301) mod 400 = 0"; simp only: simp_thms of_bool_eq if_True if_False)
qed

lemma days_to_year_le: "y \<le> z \<Longrightarrow> days_to_year y \<le> days_to_year z"
proof (induction z rule: int_ge_induct)
  case (step z)
  then show ?case using days_to_year_mono[of z] by simp
qed simp

lemma days_to_year_less: "days_to_year y < days_to_year z \<Longrightarrow> y < z"
  using days_to_year_le[of z y] by linarith

lemma leaps_bound: "0 \<le> y \<Longrightarrow> y \<le> 1331 \<Longrightarrow> days_to_year y \<le> y * 365 + 323"
proof -
  assume y: "0 \<le> y" "y \<le> 1331"
  show ?thesis
  proof (cases "y < 1300")
    case True
    have "y div 4 \<le> (y div 100 * 100 + 99) div 4" by (intro zdiv_mono1) (use pos_mod_bound[of 100 y] div_mult_mod_eq[of y 100] in linarith, simp)
    also have "\<dots> = y div 100 * 25 + 24" by simp
    finally have "y div 4 - y div 100 \<le> y div 100 * 24 + 24" by simp
    moreover have "y div 100 \<le> 12" "(y + 300) div 400 \<le> 3" using True zdiv_mono1[of y 1299 100] zdiv_mono1[of "y + 300" 1599 400] by simp_all
    ultimately show ?thesis using y by (simp add: days_to_year_nonneg)
  next
    case False
    then show ?thesis using y zdiv_mono1[of y 1331 4] zdiv_mono1[of 1300 y 100] zdiv_mono1[of "y + 300" 1631 400] by (simp add: days_to_year_nonneg)
  qed
qed

section \<open>Days into dates\<close>

text \<open>The day before the first of March of the year before \<open>y\<close>, counted from 1970; the date of the day \<open>d\<close> of that year.\<close>

definition year_start :: "int \<Rightarrow> int" where
  "year_start y = days_to_year (y - 1) - DAYS_OFFSET - 1"

definition date_in :: "int \<Rightarrow> int \<Rightarrow> mdy" where
  "date_in y d = (let month = mdy_months ! nat d in (month, d - mdy_days ! nat month - 1, (if month > 1 then y - 1 else y) + 1900))"

lemma refine_year_ok: "year_start (year + 1) < n \<Longrightarrow>
    \<exists>y. refine_year n d year = (year_start y, y) \<and> year < y \<and> year_start y < n \<and> n \<le> year_start (y + 1)"
proof (induction n d year rule: refine_year.induct)
  case (1 n d year)
  let ?dp = "days_to_year year - DAYS_OFFSET - 1"
  have dp: "?dp = year_start (year + 1)" by (simp add: year_start_def)
  have u: "refine_year n d year = refine_year n ?dp (year + 1)" using 1(2) refine_year.simps[of n d year] by (simp add: Let_def dp)
  show ?case
  proof (cases "year_start (year + 1 + 1) < n")
    case True
    obtain y where "refine_year n ?dp (year + 1) = (year_start y, y)" "year + 1 < y" "year_start y < n" "n \<le> year_start (y + 1)"
      using 1(1)[OF refl _ True] 1(2) dp by auto
    then show ?thesis using u by (intro exI[of _ y]) simp
  next
    case False
    then have "refine_year n ?dp (year + 1) = (?dp, year + 1)"
      using refine_year.simps[of n ?dp "year + 1"] by (simp only: Let_def year_start_def add_diff_cancel_right' if_False)
    then show ?thesis using False u 1(2) dp by (intro exI[of _ "year + 1"]) simp
  qed
qed

lemma year_start_less: "year_start y < year_start z \<Longrightarrow> y < z"
  using days_to_year_less[of "y - 1" "z - 1"] by (simp add: year_start_def)

lemma year_start_step: "1 \<le> y \<Longrightarrow> year_start (y + 1) - year_start y = (if leap (1900 + y) then 366 else 365)"
  using days_to_year_step[of "y - 1"] by (simp add: year_start_def)

lemma year_start_unique: "year_start y < n \<Longrightarrow> n \<le> year_start (y + 1) \<Longrightarrow> year_start z < n \<Longrightarrow> n \<le> year_start (z + 1) \<Longrightarrow> y = z"
  using year_start_less[of y "z + 1"] year_start_less[of z "y + 1"] by linarith

lemma slowcase_ok:
  assumes "0 \<le> n" "n < 460995"
  shows "\<exists>y. 70 \<le> y \<and> year_start y < n \<and> n \<le> year_start (y + 1)
    \<and> mime_days_since_epoch_to_mdy_slowcase (word_of_int n) u = date_in y (n - year_start y)"
proof -
  define q where "q = n div 365"
  define y0 where "y0 = q + 69"
  have q: "0 \<le> q" "q \<le> 1262" unfolding q_def using assms zdiv_mono1[of n 460994 365] pos_imp_zdiv_nonneg_iff[of 365 n] by simp_all
  have "q * 365 \<le> n" unfolding q_def using pos_mod_sign[of 365 n] div_mult_mod_eq[of n 365] by linarith
  moreover have "days_to_year y0 \<le> y0 * 365 + 323" using leaps_bound[of y0] q by (simp add: y0_def)
  ultimately have "year_start (y0 + 1) < n" unfolding year_start_def DAYS_OFFSET_def add_diff_cancel_right' using y0_def by linarith
  from refine_year_ok[OF this, of "days_to_year y0 - DAYS_OFFSET - 1"] show ?thesis
  proof (elim exE conjE, goal_cases)
    case (1 y)
    have s: "sint (word_of_int n :: u32) = n" using assms by (simp add: signed_of_int signed_take_bit_int_eq_self)
    have y: "70 \<le> y" using 1(2) q by (simp add: y0_def)
    have len: "n - year_start y \<le> 366" using 1(4) y year_start_step[of y] by (auto split: if_splits)
    have "mime_days_since_epoch_to_mdy_slowcase (word_of_int n) u = date_in y (n - year_start y)"
      using 1(1,3) len assms unfolding mime_days_since_epoch_to_mdy_slowcase_def
      by (simp add: s Let_def sdiv_nonneg date_in_def q_def y0_def)
    then show ?case using 1(3,4) y by blast
  qed
qed

definition month_at :: "int \<Rightarrow> int" where
  "month_at d =
     (if d < 32 then 2 else if d < 62 then 3 else if d < 93 then 4 else if d < 123 then 5 else if d < 154 then 6 else if d < 185 then 7
      else if d < 215 then 8 else if d < 246 then 9 else if d < 276 then 10 else if d < 307 then 11 else if d < 338 then 0 else 1)"

lemma mdy_months_eq: "mdy_months = map month_at [0..366]"
  by code_simp

lemma mdy_months_nth: "0 \<le> d \<Longrightarrow> d \<le> 366 \<Longrightarrow> mdy_months ! nat d = month_at d"
  unfolding mdy_months_eq by (subst nth_map) (simp_all add: nth_upto nat_less_iff)

text \<open>The day \<open>d\<close> of the year from March to February, by its month.\<close>

lemma date_in_cases:
  assumes "1 \<le> d" "d \<le> 366"
  shows "date_in y d =
    (if d < 32 then (2, d, y + 1899) else if d < 62 then (3, d - 31, y + 1899) else if d < 93 then (4, d - 61, y + 1899)
     else if d < 123 then (5, d - 92, y + 1899) else if d < 154 then (6, d - 122, y + 1899) else if d < 185 then (7, d - 153, y + 1899)
     else if d < 215 then (8, d - 184, y + 1899) else if d < 246 then (9, d - 214, y + 1899) else if d < 276 then (10, d - 245, y + 1899)
     else if d < 307 then (11, d - 275, y + 1899) else if d < 338 then (0, d - 306, y + 1900) else (1, d - 337, y + 1900))"
proof -
  let ?f = "\<lambda>m. (m, d - mdy_days ! nat m - 1, (if m > 1 then y - 1 else y) + 1900)"
  have "date_in y d = ?f (month_at d)" using assms by (simp add: date_in_def mdy_months_nth Let_def)
  then show ?thesis unfolding month_at_def if_distrib[of ?f] by (simp add: mdy_days_def)
qed

lemma next_day_within: "1 \<le> d \<Longrightarrow> d < (if leap (1900 + y) then 366 else 365) \<Longrightarrow> next_day (date_in y d) = date_in y (d + 1)"
  by (cases "leap (1900 + y)") (simp_all add: date_in_cases next_day_def month_days_def add.commute)

lemma next_day_across: "d = (if leap (1900 + y) then 366 else 365) \<Longrightarrow> next_day (date_in y d) = date_in (y + 1) 1"
  by (cases "leap (1900 + y)") (simp_all add: date_in_cases next_day_def month_days_def add.commute)

lemma slowcase_calendar: "n < 460995 \<Longrightarrow> mime_days_since_epoch_to_mdy_slowcase (word_of_int (int n)) u = calendar n"
proof (induction n)
  case 0
  show ?case unfolding calendar_def by code_simp
next
  case (Suc n)
  have "0 \<le> int n" "int n < 460995" "0 \<le> int n + 1" "int n + 1 < 460995" using Suc.prems by simp_all
  note r = slowcase_ok[OF this(1,2), of u] slowcase_ok[OF this(3,4), of u]
  obtain y where y: "70 \<le> y" "year_start y < int n" "int n \<le> year_start (y + 1)"
    "mime_days_since_epoch_to_mdy_slowcase (word_of_int (int n)) u = date_in y (int n - year_start y)"
    using r(1) by (elim exE conjE) (rule that)
  obtain z where z: "70 \<le> z" "year_start z < int n + 1" "int n + 1 \<le> year_start (z + 1)"
    "mime_days_since_epoch_to_mdy_slowcase (word_of_int (int n + 1)) u = date_in z (int n + 1 - year_start z)"
    using r(2) by (elim exE conjE) (rule that)
  have len: "year_start (x + 1) - year_start x = (if leap (1900 + x) then 366 else 365)" if "70 \<le> x" for x
    using year_start_step[of x] that by simp
  have c: "calendar (Suc n) = next_day (date_in y (int n - year_start y))" using Suc y(4) by (simp add: calendar_def)
  show ?case
  proof (cases "int n = year_start (y + 1)")
    case False
    then have "z = y" using y z by (intro year_start_unique[of z "int n + 1" y]) linarith+
    then show ?thesis using c y z False len[of y] next_day_within[of "int n - year_start y" y] by (simp add: add.commute add_diff_eq)
  next
    case True
    then have "z = y + 1" using y z len[of "y + 1"] by (intro year_start_unique[of z "int n + 1" "y + 1"]) (auto split: if_splits)
    then show ?thesis using c y z True len[of y] next_day_across[of "int n - year_start y" y] by (simp add: add.commute add_diff_eq)
  qed
qed

lemma date_in_range:
  assumes "1 \<le> d" "d \<le> 366" "date_in y d = (m, dd, yy)"
  shows "0 \<le> m" "m \<le> 11" "1 \<le> dd" "dd \<le> 31" "y + 1899 \<le> yy" "yy \<le> y + 1900"
  using assms by (simp_all add: date_in_cases split: if_splits)

text \<open>What the reverse computation of \<open>time_of_tm\<close> makes of a date.\<close>

lemma date_in_days:
  assumes "1 \<le> d" "d \<le> 366" "date_in y d = (m, dd, yy)"
  shows "dd + mdy_days ! nat m + days_to_year (if m < 2 then yy - 1901 else yy - 1900) - DAYS_OFFSET = year_start y + d"
  using assms by (auto simp: date_in_cases mdy_days_def year_start_def split: if_splits)

lemma calendar_date_in:
  assumes "n < 460995"
  shows "\<exists>y. 70 \<le> y \<and> y < 1400 \<and> year_start y < int n \<and> int n \<le> year_start y + 366 \<and> calendar n = date_in y (int n - year_start y)"
proof -
  have "0 \<le> int n" "int n < 460995" using assms by simp_all
  from slowcase_ok[OF this, of "(0, 0, 0)"] show ?thesis
  proof (elim exE conjE, goal_cases)
    case (1 y)
    have "calendar n = date_in y (int n - year_start y)" using 1(4) slowcase_calendar[OF assms] by simp
    moreover have "int n \<le> year_start y + 366" using 1 year_start_step[of y] by (simp split: if_splits)
    moreover have "y < 1400"
    proof (rule ccontr)
      assume "\<not> y < 1400"
      then have "days_to_year 1399 \<le> days_to_year (y - 1)" by (intro days_to_year_le) simp
      then show False using 1(2) assms by (simp add: year_start_def DAYS_OFFSET_def days_to_year_nonneg)
    qed
    ultimately show ?case using 1(1,2) by (intro exI[of _ y]) simp
  qed
qed

lemma calendar_range:
  assumes "n < 460995"
  shows "\<exists>m d y. calendar n = (m, d, y) \<and> 0 \<le> m \<and> m \<le> 11 \<and> 1 \<le> d \<and> d \<le> 31 \<and> 0 \<le> y \<and> y < 65536"
proof -
  from calendar_date_in[OF assms] show ?thesis
  proof (elim exE conjE, goal_cases)
    case (1 y)
    have d: "1 \<le> int n - year_start y" "int n - year_start y \<le> 366" using 1 by simp_all
    obtain m dd yy where e: "date_in y (int n - year_start y) = (m, dd, yy)" by (rule prod_cases3)
    show ?case using date_in_range[OF d e] 1 e by (intro exI[of _ m] exI[of _ dd] exI[of _ yy]) simp
  qed
qed

section \<open>The table\<close>

lemma fill_table_nth: "i < k \<Longrightarrow> 0 \<le> day \<Longrightarrow> day + int k \<le> 460995 \<Longrightarrow>
    fill_table k day v ! i = (case calendar (nat (day + int i)) of (m, d, y) \<Rightarrow> (word_of_int m, word_of_int d, word_of_int y))"
proof (induction k arbitrary: i day v)
  case (Suc k)
  have c: "mime_days_since_epoch_to_mdy_slowcase (word_of_int day) v = calendar (nat day)"
    using slowcase_calendar[of "nat day" v] Suc.prems by simp
  obtain m d y where e: "calendar (nat day) = (m, d, y)" by (rule prod_cases3)
  show ?case
  proof (cases i)
    case 0
    then show ?thesis by (simp add: c e)
  next
    case (Suc j)
    have "fill_table k (day + 1) (m, d, y) ! j = (case calendar (nat (day + 1 + int j)) of (m, d, y) \<Rightarrow> (word_of_int m, word_of_int d, word_of_int y))"
      using Suc.IH[of j "day + 1" "(m, d, y)"] Suc Suc.prems by simp
    then show ?thesis by (simp add: c e Suc add.assoc)
  qed
qed simp

lemma unat_word_diff: "0 \<le> b \<Longrightarrow> b \<le> a \<Longrightarrow> a < 2 ^ 32 \<Longrightarrow> unat (word_of_int a - word_of_int b :: u32) = nat (a - b)"
  by (simp add: of_int_diff[symmetric] unsigned_of_int take_bit_int_eq_self del: of_int_diff)

lemma word_of_int_le: "0 \<le> a \<Longrightarrow> 0 \<le> b \<Longrightarrow> a < 2 ^ 32 \<Longrightarrow> b < 2 ^ 32 \<Longrightarrow> (word_of_int a :: u32) \<le> word_of_int b \<longleftrightarrow> a \<le> b"
  by (simp add: word_le_def unsigned_of_int take_bit_int_eq_self)

lemma table_calendar:
  assumes now: "366 \<le> now div 86400" "now div 86400 + 366 < 460995" and n: "n < 460995"
  shows "mime_days_since_epoch_to_mdy (mime_init_date_format_table now u) (word_of_int (int n)) u' = calendar n"
proof -
  define nd where "nd = now div 86400"
  have pos: "0 \<le> now" using now(1) pos_imp_zdiv_nonneg_iff[of 86400 now] by linarith
  have t: "mime_init_date_format_table now u =
      \<lparr>first_day = word_of_int (nd - 366), last_day = word_of_int (nd + 366), mdy_entries = fill_table 733 (nd - 366) u\<rparr>"
    using now pos by (simp add: mime_init_date_format_table_def sdiv_nonneg c_int_id nd_def Let_def)
  have r: "366 \<le> nd" "nd + 366 < 460995" using now by (simp_all add: nd_def)
  show ?thesis
  proof (cases "nd - 366 \<le> int n \<and> int n \<le> nd + 366")
    case True
    have c: "first_day (mime_init_date_format_table now u) \<le> word_of_int (int n)" "word_of_int (int n) \<le> last_day (mime_init_date_format_table now u)"
      using True r n word_of_int_le[of "nd - 366" "int n"] word_of_int_le[of "int n" "nd + 366"] unfolding t by simp_all
    obtain m d y where e: "calendar n = (m, d, y)" "0 \<le> m" "m \<le> 11" "1 \<le> d" "d \<le> 31" "0 \<le> y" "y < 65536"
      using calendar_range[OF n] by (elim exE conjE) (rule that)
    have i: "unat (word_of_int (int n) - word_of_int (nd - 366) :: u32) = nat (int n - (nd - 366))" using True r n by (intro unat_word_diff) simp_all
    have "fill_table 733 (nd - 366) u ! nat (int n - (nd - 366)) = (word_of_int m, word_of_int d, word_of_int y)"
      using True r by (subst fill_table_nth) (auto simp: e(1))
    then show ?thesis using c e unfolding mime_days_since_epoch_to_mdy_def t mdy_table.simps i
      by (simp add: unsigned_of_int take_bit_int_eq_self)
  next
    case False
    then have "\<not> (first_day (mime_init_date_format_table now u) \<le> word_of_int (int n) \<and> word_of_int (int n) \<le> last_day (mime_init_date_format_table now u))"
      using r n word_of_int_le[of "nd - 366" "int n"] word_of_int_le[of "int n" "nd + 366"] unfolding t by simp
    then show ?thesis using slowcase_calendar[OF n] unfolding mime_days_since_epoch_to_mdy_def by (simp only: if_False)
  qed
qed

section \<open>Formatting and parsing a date\<close>

definition two_digits :: "u8 \<Rightarrow> u8 \<Rightarrow> int \<Rightarrow> bool" where
  "two_digits a b i \<longleftrightarrow> (sint a - 48) * 10 + (sint b - 48) = i"

lemma entry_digitstrs:
  assumes "0 \<le> i" "i < 100"
  shows "\<exists>a b. entry digitstrs i = Some [a, b] \<and> two_digits a b i"
proof -
  obtain k where k: "i = int k" "k < 100" using assms by (metis nat_0_le nat_less_iff of_nat_numeral zero_le_numeral nat_numeral nat_mono_iff zless_nat_conj)
  have "entry digitstrs i = Some [48 + of_nat (k div 10), 48 + of_nat (k mod 10)]" using k by (simp add: entry_def digitstrs_def)
  moreover have "k div 10 < 10" "k mod 10 < 10" using k by simp_all
  then have "two_digits (48 + of_nat (k div 10)) (48 + of_nat (k mod 10)) i" unfolding two_digits_def k(1) by (simp only: digit_char(1)) (simp add: zdiv_int zmod_int)
  ultimately show ?thesis by blast
qed

lemma entry_daystrs: "list_all (\<lambda>w. case entry daystrs w of
    Some [a, b, c] \<Rightarrow> 0 \<le> fast_wday (three_char [a, b, c] 0) \<and> \<not> mime_is_digit a \<and> \<not> mime_is_ws a | _ \<Rightarrow> False) [0..6]"
  by code_simp

lemma entry_monthstrs: "list_all (\<lambda>m. case entry monthstrs m of
    Some [a, b, c] \<Rightarrow> fast_mon (three_char [a, b, c] 0) = m | _ \<Rightarrow> False) [0..11]"
  by code_simp

lemma format_year_digits: "list_all (\<lambda>y. case format_year y of
    [a, b, c, d] \<Rightarrow> (sint a - 48) * 1000 + (sint b - 48) * 100 + (sint c - 48) * 10 + (sint d - 48) = y | _ \<Rightarrow> False) [1970..2037]"
  by code_simp

lemma digits_mod: "0 < k \<Longrightarrow> k \<le> 100 \<Longrightarrow> \<exists>a b. entry digitstrs (x mod k) = Some [a, b] \<and> two_digits a b (x mod k)"
  using pos_mod_bound[of k x] pos_mod_sign[of k x] by (intro entry_digitstrs) linarith+

lemma daystrs_entry:
  assumes "0 \<le> w" "w < 7"
  shows "\<exists>a b c. entry daystrs w = Some [a, b, c] \<and> 0 \<le> fast_wday (three_char [a, b, c] 0) \<and> \<not> mime_is_digit a \<and> \<not> mime_is_ws a"
proof -
  have "w \<in> set [0..6]" using assms by simp
  from bspec[OF entry_daystrs[unfolded list_all_iff] this] show ?thesis by (simp split: option.split_asm list.split_asm)
qed

lemma monthstrs_entry:
  assumes "0 \<le> m" "m < 12"
  shows "\<exists>a b c. entry monthstrs m = Some [a, b, c] \<and> fast_mon (three_char [a, b, c] 0) = m"
proof -
  have "m \<in> set [0..11]" using assms by simp
  from bspec[OF entry_monthstrs[unfolded list_all_iff] this] show ?thesis by (simp split: option.split_asm list.split_asm)
qed

lemma format_year_entry:
  assumes "1970 \<le> y" "y \<le> 2037"
  shows "\<exists>a b c d. format_year y = [a, b, c, d] \<and> (sint a - 48) * 1000 + (sint b - 48) * 100 + (sint c - 48) * 10 + (sint d - 48) = y"
proof -
  have "y \<in> set [1970..2037]" using assms by (simp only: set_upto atLeastAtMost_iff)
  from bspec[OF format_year_digits[unfolded list_all_iff] this] show ?thesis by (simp split: list.split_asm)
qed

text \<open>A date of 29 characters in the form that the fast parser reads.\<close>

lemma parse_fixed_date:
  assumes "0 \<le> fast_wday (three_char [a1, a2, a3] 0)" "\<not> mime_is_digit a1" "\<not> mime_is_ws a1" "two_digits b1 b2 mday"
    "fast_mon (three_char [c1, c2, c3] 0) = mon" "0 \<le> mon"
    "(sint d1 - 48) * 1000 + (sint d2 - 48) * 100 + (sint d3 - 48) * 10 + (sint d4 - 48) = year"
    "two_digits e1 e2 hour" "two_digits f1 f2 minute" "two_digits g1 g2 sec"
  shows "mime_parse_date dd md (Some ([a1, a2, a3] @ ascii '', '' @ [b1, b2] @ ascii '' '' @ [c1, c2, c3] @ ascii '' '' @ [d1, d2, d3, d4] @ ascii '' '' @
      [e1, e2] @ ascii '':'' @ [f1, f2] @ ascii '':'' @ [g1, g2] @ ascii '' GMT'')) =
    time_of_tm \<lparr>tm_mday = mday, tm_mon = mon, tm_year = year - 1900, tm_hour = hour, tm_min = minute, tm_sec = sec\<rparr>"
proof -
  let ?s = "[a1, a2, a3] @ ascii '', '' @ [b1, b2] @ ascii '' '' @ [c1, c2, c3] @ ascii '' '' @ [d1, d2, d3, d4] @ ascii '' '' @
      [e1, e2] @ ascii '':'' @ [f1, f2] @ ascii '':'' @ [g1, g2] @ ascii '' GMT''"
  have w: "three_char ?s 0 = three_char [a1, a2, a3] 0" and m: "three_char ?s 8 = three_char [c1, c2, c3] 0"
    by (simp_all add: three_char_def chr_at_def ascii_def)
  have "mime_parse_rfc822_date_fastcase dd md ?s =
      Some \<lparr>tm_mday = mday, tm_mon = mon, tm_year = year - 1900, tm_hour = hour, tm_min = minute, tm_sec = sec\<rparr>"
    using assms unfolding mime_parse_rfc822_date_fastcase_def w m by (simp add: dig_def chr_at_def ascii_def two_digits_def)
  then have "parse_fields dd md ?s = Some \<lparr>tm_mday = mday, tm_mon = mon, tm_year = year - 1900, tm_hour = hour, tm_min = minute, tm_sec = sec\<rparr>"
    using assms(2) by (simp add: parse_fields_def ascii_def)
  then show ?thesis using assms(3) by (simp add: mime_parse_date_def)
qed

lemma mdy_days_range: "list_all (\<lambda>m. if m < 2 then 305 \<le> mdy_days ! nat m \<and> mdy_days ! nat m \<le> 336
    else -1 \<le> mdy_days ! nat m \<and> mdy_days ! nat m \<le> 274) [0..11]"
  by code_simp

text \<open>The fields of a time before 2038 are in range, and \<open>time_of_tm\<close> gives back the day.\<close>

lemma calendar_before_2038:
  assumes "n < 24837" "calendar n = (m, d, y)"
  shows "0 \<le> m" "m \<le> 11" "1 \<le> d" "d \<le> 31" "1970 \<le> y" "y \<le> 2037"
    "d + mdy_days ! nat m + days_to_year (if m < 2 then y - 1901 else y - 1900) - DAYS_OFFSET = int n"
proof -
  have "n < 460995" using assms(1) by simp
  from calendar_date_in[OF this] have "0 \<le> m \<and> m \<le> 11 \<and> 1 \<le> d \<and> d \<le> 31 \<and> 1969 \<le> y
      \<and> d + mdy_days ! nat m + days_to_year (if m < 2 then y - 1901 else y - 1900) - DAYS_OFFSET = int n"
  proof (elim exE conjE, goal_cases)
    case (1 z)
    have r: "1 \<le> int n - year_start z" "int n - year_start z \<le> 366" using 1 by simp_all
    have e: "date_in z (int n - year_start z) = (m, d, y)" using 1 assms(2) by simp
    show ?case using date_in_range[OF r e] date_in_days[OF r e] 1(1) by simp
  qed
  then have r: "0 \<le> m" "m \<le> 11" "1 \<le> d" "d \<le> 31" "1969 \<le> y"
    and n: "d + mdy_days ! nat m + days_to_year (if m < 2 then y - 1901 else y - 1900) - DAYS_OFFSET = int n" by simp_all
  have "m \<in> set [0..11]" using r by simp
  then have md: "if m < 2 then 305 \<le> mdy_days ! nat m \<and> mdy_days ! nat m \<le> 336 else -1 \<le> mdy_days ! nat m \<and> mdy_days ! nat m \<le> 274"
    using mdy_days_range unfolding list_all_iff by (rule bspec[rotated])
  have y0: "days_to_year 68 = 24837" "days_to_year 69 = 25202" "days_to_year 137 = 50039" "days_to_year 138 = 50404" by (simp_all add: days_to_year_nonneg)
  show "1970 \<le> y"
  proof (rule ccontr)
    assume "\<not> 1970 \<le> y"
    then have "y = 1969" using r by simp
    then show False using n md r y0 by (simp add: DAYS_OFFSET_def split: if_splits)
  qed
  show "y \<le> 2037"
  proof (rule ccontr)
    assume "\<not> y \<le> 2037"
    then have "days_to_year 137 \<le> days_to_year (y - 1901)" "days_to_year 138 \<le> days_to_year (y - 1900)" by (simp_all add: days_to_year_le)
    then show False using n md r y0 assms(1) by (simp add: DAYS_OFFSET_def split: if_splits)
  qed
  show "0 \<le> m" "m \<le> 11" "1 \<le> d" "d \<le> 31" by (rule r)+
  show "d + mdy_days ! nat m + days_to_year (if m < 2 then y - 1901 else y - 1900) - DAYS_OFFSET = int n" by (rule n)
qed

lemma time_of_fields:
  assumes "n < 24837" "calendar n = (m, d, y)"
  shows "time_of_tm \<lparr>tm_mday = d, tm_mon = m, tm_year = y - 1900, tm_hour = hour, tm_min = minute, tm_sec = sec\<rparr> =
    Some (c_int (((int n * 24 + hour) * 60 + minute) * 60 + sec))"
proof -
  note r = calendar_before_2038[OF assms]
  have "\<not> y - 1900 > 137" "\<not> y - 1900 < 70" "\<not> (m < 0 \<or> m \<ge> 12)" using r(1,2,5,6) by simp_all
  moreover have "(if m < 2 then y - 1900 - 1 else y - 1900) = (if m < 2 then y - 1901 else y - 1900)" by simp
  ultimately show ?thesis unfolding time_of_tm_def Let_def by (simp only: tm.simps if_False r(7))
qed

lemma c_int_mod: "0 < k \<Longrightarrow> k \<le> 100 \<Longrightarrow> c_int (x mod k) = x mod k"
proof -
  assume k: "0 < k" "k \<le> 100"
  then have "0 \<le> x mod k" "x mod k < 100" using pos_mod_bound[of k x] pos_mod_sign[of k x] by linarith+
  then show ?thesis by (intro c_int_id) simp_all
qed

lemmas c_int_mods = c_int_mod[of 60, simplified] c_int_mod[of 24, simplified] c_int_mod[of 7, simplified]

lemma split_time:
  fixes t :: int
  assumes "0 \<le> t" "t < 2145916800"
  shows "t div 60 div 60 div 24 < 24837" "0 \<le> t div 60 div 60 div 24"
    "((t div 60 div 60 div 24 * 24 + t div 60 div 60 mod 24) * 60 + t div 60 mod 60) * 60 + t mod 60 = t"
proof -
  have "t div 60 div 60 div 24 = t div 86400" by (simp add: zdiv_zmult2_eq[symmetric])
  then show "t div 60 div 60 div 24 < 24837" "0 \<le> t div 60 div 60 div 24"
    using assms zdiv_mono1[of t 2145916799 86400] pos_imp_zdiv_nonneg_iff[of 86400 t] by simp_all
qed simp

lemma fields_roundtrip:
  assumes n: "n < 24837" "calendar n = (m, d, y)" and f: "0 \<le> w" "w < 7" "0 \<le> hour" "hour < 24" "0 \<le> minute" "minute < 60" "0 \<le> sec" "sec < 60"
  shows "\<exists>s. do {
        three_char_day \<leftarrow> entry daystrs w;
        md \<leftarrow> entry digitstrs d;
        three_char_month \<leftarrow> entry monthstrs m;
        hh \<leftarrow> entry digitstrs hour;
        mm \<leftarrow> entry digitstrs minute;
        ss \<leftarrow> entry digitstrs sec;
        Some (three_char_day @ ascii '', '' @ md @ ascii '' '' @ three_char_month @ ascii '' '' @ format_year y @ ascii '' '' @
          hh @ ascii '':'' @ mm @ ascii '':'' @ ss @ ascii '' GMT'')
      } = Some s \<and> length s = 29 \<and>
    mime_parse_date day_names_dfa month_names_dfa (Some s) = Some (c_int (((int n * 24 + hour) * 60 + minute) * 60 + sec))"
proof -
  note r = calendar_before_2038[OF n]
  have e: "\<exists>a b. entry digitstrs x = Some [a, b] \<and> two_digits a b x" if "0 \<le> x" "x < 60" for x using entry_digitstrs[of x] that by simp
  have m: "m < 12" "d < 60" "0 \<le> d" "hour < 60" using r f by simp_all
  obtain a1 a2 a3 where A: "entry daystrs w = Some [a1, a2, a3]" "0 \<le> fast_wday (three_char [a1, a2, a3] 0)" "\<not> mime_is_digit a1" "\<not> mime_is_ws a1"
    using daystrs_entry[OF f(1,2)] by (elim exE conjE) (rule that)
  obtain c1 c2 c3 where C: "entry monthstrs m = Some [c1, c2, c3]" "fast_mon (three_char [c1, c2, c3] 0) = m"
    using monthstrs_entry[OF r(1) m(1)] by (elim exE conjE) (rule that)
  obtain d1 d2 d3 d4 where D: "format_year y = [d1, d2, d3, d4]"
      "(sint d1 - 48) * 1000 + (sint d2 - 48) * 100 + (sint d3 - 48) * 10 + (sint d4 - 48) = y"
    using format_year_entry[OF r(5,6)] by (elim exE conjE) (rule that)
  obtain b1 b2 e1 e2 where B: "entry digitstrs d = Some [b1, b2]" "two_digits b1 b2 d" and E: "entry digitstrs hour = Some [e1, e2]" "two_digits e1 e2 hour"
    using e[OF m(3,2)] e[OF f(3) m(4)] by (elim exE conjE) (rule that)
  obtain f1 f2 g1 g2 where F: "entry digitstrs minute = Some [f1, f2]" "two_digits f1 f2 minute" and G: "entry digitstrs sec = Some [g1, g2]" "two_digits g1 g2 sec"
    using e[OF f(5,6)] e[OF f(7,8)] by (elim exE conjE) (rule that)
  note parse_fixed_date[OF A(2-4) B(2) C(2) r(1) D(2) E(2) F(2) G(2), of day_names_dfa month_names_dfa]
  also note time_of_fields[OF n]
  finally show ?thesis by (intro exI conjI, simp only: A(1) B(1) C(1) D(1) E(1) F(1) G(1) bind.bind_lunit) (simp add: ascii_def, assumption)
qed

text \<open>C20: A time from 1970 up to the end of 2037 is formatted as a date of 29 characters, and parsing that date gives back
  the time, whatever the automata for the names of days and months are.\<close>

theorem mime_date_roundtrip:
  assumes now: "366 \<le> now div 86400" "now div 86400 + 366 < 460995" and t: "0 \<le> t" "t < 2145916800"
  shows "\<exists>s. mime_format_date (mime_init_date_format_table now u) u' t = Some s \<and> length s = 29
    \<and> mime_parse_date day_names_dfa month_names_dfa (Some s) = Some t"
proof -
  define n where "n = t div 60 div 60 div 24"
  note st = split_time[OF t, folded n_def]
  obtain m d y where c: "calendar (nat n) = (m, d, y)" by (rule prod_cases3)
  have nn: "nat n < 24837" using st by simp
  have tab: "mime_days_since_epoch_to_mdy (mime_init_date_format_table now u) (word_of_int n) u' = (m, d, y)"
    using table_calendar[OF now, of "nat n" u u'] st c by simp
  have p: "0 \<le> t div 60" "0 \<le> t div 60 div 60" using t by (simp_all add: pos_imp_zdiv_nonneg_iff)
  have f: "t smod 60 = t mod 60" "t sdiv 60 = t div 60" "t div 60 smod 60 = t div 60 mod 60" "t div 60 sdiv 60 = t div 60 div 60"
    "t div 60 div 60 smod 24 = t div 60 div 60 mod 24" "t div 60 div 60 sdiv 24 = n" "(4 + n) smod 7 = (4 + n) mod 7"
    unfolding n_def using t(1) p st(2)[unfolded n_def] by (intro smod_nonneg sdiv_nonneg; linarith)+
  have "c_int (((int (nat n) * 24 + t div 60 div 60 mod 24) * 60 + t div 60 mod 60) * 60 + t mod 60) = t"
    using st t by (simp only: nat_0_le) (simp add: c_int_id)
  moreover note fields_roundtrip[OF nn c, of "(4 + n) mod 7" "t div 60 div 60 mod 24" "t div 60 mod 60" "t mod 60" day_names_dfa month_names_dfa]
  ultimately show ?thesis unfolding mime_format_date_def Let_def f tab prod.case c_int_mods by (simp only: pos_mod_sign pos_mod_bound zero_less_numeral)
qed

theorem mime_date_roundtrip_witness:
  "\<exists>s. mime_format_date (mime_init_date_format_table 1240000000 (0, 0, 0)) (0, 0, 0) 784111777 = Some s \<and> length s = 29
    \<and> mime_parse_date (\<lambda>_. -1) (\<lambda>_. -1) (Some s) = Some 784111777"
  using mime_date_roundtrip[of 1240000000 784111777 "(0, 0, 0)" "(0, 0, 0)" "\<lambda>_. -1" "\<lambda>_. -1"] by simp

text \<open>C23: For every day up to the 28th of February 3232 the computed date is the one that the Gregorian calendar gives, and the
  table, whenever it was filled in between, agrees with the computation. The next day, the 29th, is the first that
  is computed wrongly, as day 0 of March 3231.\<close>

theorem mime_days_calendar:
  assumes "366 \<le> now div 86400" "now div 86400 + 366 < 460995" "n < 460995"
  shows "mime_days_since_epoch_to_mdy_slowcase (word_of_int (int n)) u = calendar n
    \<and> mime_days_since_epoch_to_mdy (mime_init_date_format_table now v) (word_of_int (int n)) u = calendar n
    \<and> calendar 460994 = (1, 28, 3232) \<and> calendar 460995 = (1, 29, 3232)
    \<and> mime_days_since_epoch_to_mdy_slowcase 460995 u = (2, 0, 3231)"
proof -
  have s: "calendar 460994 = (1, 28, 3232)" unfolding slowcase_calendar[of 460994 "(0, 0, 0)", symmetric, simplified] by code_simp
  have "calendar (Suc 460994) = next_day (calendar 460994)" by (simp only: calendar_def funpow.simps o_apply)
  also have "\<dots> = (1, 29, 3232)" unfolding s by code_simp
  finally have e: "calendar 460995 = (1, 29, 3232)" by simp
  have w: "mime_days_since_epoch_to_mdy_slowcase 460995 u = (2, 0, 3231)" by code_simp
  show ?thesis using slowcase_calendar[OF assms(3)] table_calendar[OF assms] s e w by (intro conjI)
qed

theorem mime_days_calendar_witness:
  "mime_days_since_epoch_to_mdy (mime_init_date_format_table 1240000000 (0, 0, 0)) 9075 (0, 0, 0) = (10, 6, 1994)"
proof -
  have "mime_days_since_epoch_to_mdy_slowcase 9075 (0, 0, 0) = (10, 6, 1994)" by code_simp
  then show ?thesis using mime_days_calendar[of 1240000000 9075 "(0, 0, 0)" "(0, 0, 0)"] by simp
qed

section \<open>Formatting and parsing an integer\<close>

lemma mime_is_digit_eq: "mime_is_digit c \<longleftrightarrow> c \<noteq> 0 \<and> is_digit c"
  by (auto simp: mime_is_digit_def is_digit_rule_def)

lemma parse_neg_atoi: "parse_neg num cs = atoi_neg num cs"
  by (induction cs arbitrary: num) (simp_all add: mime_is_digit_eq)

lemma parse_pos_neg: "parse_pos num cs = - parse_neg (- num) cs"
  by (induction cs arbitrary: num) (simp_all add: algebra_simps)

lemma parse_neg_digits: "parse_neg 0 (dec_digits n) = - of_nat n"
  using atoi_neg_digits[of "0 :: u32" n "[]"] by (auto simp: parse_neg_atoi)

lemma is_space_eq: "is_space c = is_space_rule c"
  unfolding is_space_def by (subst is_type_rule) (simp_all add: ctype_rules_def)

lemma mime_parse_decimal: "mime_parse_int (Some (decimal z)) = word_of_int z"
proof (cases "z < 0")
  case True
  have "\<not> mime_is_digit 0x2D" "\<not> is_space 0x2D" by (simp_all add: mime_is_digit_def is_space_eq is_space_rule_def char_defs)
  then show ?thesis using True parse_neg_digits[of "nat (- z)"] by (simp add: mime_parse_int_def decimal_def)
next
  case False
  obtain d ds where d: "dec_digits (nat z) = (0x30 + of_nat d) # ds" "d < 10" using dec_digits_hd by blast
  have g: "mime_is_digit (0x30 + of_nat d)" using digit_char(1,2)[OF d(2)] d(2) by (simp add: mime_is_digit_def)
  have "parse_pos (word_of_int (sint (0x30 + of_nat d :: u8) - 0x30)) ds = parse_pos 0 (dec_digits (nat z))" using d g by simp
  also have "\<dots> = of_nat (nat z)" using parse_neg_digits[of "nat z"] by (simp add: parse_pos_neg)
  finally show ?thesis using False d g by (simp add: mime_parse_int_def decimal_def)
qed

lemma low_digits_decimal: "10 ^ k \<le> v \<Longrightarrow> v < 10 ^ Suc k \<Longrightarrow> low_digits (Suc k) v = dec_digits (nat v)"
proof (induction k arbitrary: v)
  case 0
  then show ?case by (simp add: dec_digits.simps[of "nat v"] smod_nonneg nat_less_iff)
next
  case (Suc k)
  have "10 * 1 \<le> (10 :: int) * 10 ^ k" by (intro mult_left_mono one_le_power) simp_all
  then have v: "0 < v" "10 \<le> v" using Suc.prems(1) unfolding power_Suc by linarith+
  have "10 ^ k \<le> v div 10" "v div 10 < 10 ^ Suc k" using Suc.prems zdiv_mono1[of "10 ^ Suc k" v 10] by simp_all
  from Suc.IH[OF this] show ?case using v
    by (simp add: dec_digits.simps[of "nat v"] sdiv_nonneg smod_nonneg nat_div_distrib nat_mod_distrib nat_less_iff flip: of_nat_nat)
qed

lemma dec_digits_length: "n < 10 ^ Suc k \<Longrightarrow> length (dec_digits n) \<le> Suc k"
proof (induction k arbitrary: n)
  case (Suc k)
  then show ?case using Suc.IH[of "n div 10"] by (simp add: dec_digits.simps[of n])
qed (simp add: dec_digits.simps)

lemma mime_format_int_decimal:
  assumes "- (2 ^ 31) \<le> v" "v < 2 ^ 31" "12 \<le> buf_len"
  shows "mime_format_int v buf_len = (int (length (decimal v)), decimal v)"
proof -
  have "length (decimal v) \<le> 11"
    using assms(1,2) dec_digits_length[of "nat v" 9] dec_digits_length[of "nat (- v)" 9] by (auto simp: decimal_def nat_less_iff)
  then have big: ?thesis if "v < 0 \<or> v \<ge> 100000" using that assms(3) by (simp add: mime_format_int_def)
  have l: "length (low_digits k x) = k" for k x by (induction k arbitrary: x) simp_all
  have *: "int (length (decimal v)) = int (Suc k) \<and> low_digits (Suc k) v = decimal v" if "10 ^ k \<le> v" "v < 10 ^ Suc k" for k
  proof -
    have "0 \<le> v" using that(1) zero_le_power[of "10 :: int" k] by linarith
    then show ?thesis using low_digits_decimal[OF that] l[of "Suc k" v] by (simp add: decimal_def)
  qed
  consider "v < 0 \<or> v \<ge> 100000" | "0 \<le> v" "v < 10" | "10 \<le> v" "v < 100" | "100 \<le> v" "v < 1000" | "1000 \<le> v" "v < 10000" | "10000 \<le> v" "v < 100000"
    by linarith
  then show ?thesis
  proof cases
    case 2
    then show ?thesis by (simp add: mime_format_int_def decimal_def dec_digits.simps[of "nat v"] nat_less_iff)
  qed (use big *[of 1] *[of 2] *[of 3] *[of 4] in \<open>simp_all only: mime_format_int_def eval_nat_numeral, simp_all\<close>)
qed

text \<open>Parsing what \<^verbatim>\<open>mime_format_int\<close> writes for a 32-bit integer, the least one included, gives back the integer,
  and the length returned is the number of characters written.\<close>

theorem mime_int_roundtrip:
  assumes "- (2 ^ 31) \<le> v" "v < 2 ^ 31" "12 \<le> buf_len"
  shows "case mime_format_int v buf_len of (n, s) \<Rightarrow> n = int (length s) \<and> mime_parse_int (Some s) = word_of_int v"
  using mime_format_int_decimal[OF assms] mime_parse_decimal[of v] by simp

theorem mime_int_roundtrip_witness:
  "case mime_format_int (-2147483648) 12 of (n, s) \<Rightarrow> n = int (length s) \<and> mime_parse_int (Some s) = word_of_int (-2147483648)"
  using mime_int_roundtrip[of "-2147483648" 12] by simp

end
