(* ===== verification/Ram_Cache.thy ===== *)
theory Ram_Cache
  imports Intrusive_List Cache_Key Io_Buffer "HOL-Library.Monad_Syntax"
begin

text \<open>
  The memory cache in front of the disk cache (\<^verbatim>\<open>iocore/cache/RamCache.cc\<close>, \<^verbatim>\<open>P_RamCache.h\<close>): documents are found
  through hash buckets, which are lists of type \<^verbatim>\<open>DLL\<close>, and evicted in the order of a \<^verbatim>\<open>Queue\<close>, the least recently used
  one first. A document under a new key is only taken in when the key is the last one seen at its place of the
  table \<^verbatim>\<open>seen\<close>, or while the cache is not nearly full.

  An entry is an address with a record of its fields; its two links are cells of two link stores, one for
  \<^verbatim>\<open>hash_link\<close>, one for \<^verbatim>\<open>lru_link\<close>. \<^verbatim>\<open>n_partitions\<close> is 1, so \<^verbatim>\<open>k / n_partitions\<close> is \<^verbatim>\<open>k\<close> and the partition is
  \<^verbatim>\<open>one_partition\<close>. The address that the allocator of entries returns is an argument of \<open>ram_put\<close>; as in
  \<^verbatim>\<open>thread_alloc\<close> the links of an entry that is used again are not cleared. The data of an entry is an index of an
  \<^verbatim>\<open>IOBufferData\<close> of the heap of buffers, which gives its size. The statistics and the back pointer \<^verbatim>\<open>part\<close>, which only
  they use, are left out. \<^term>\<open>None\<close> is a null pointer that is followed or a loop that does not end.
\<close>

section \<open>State\<close>

definition RAM_CACHE_SEEN_PER_OBJECT :: int where "RAM_CACHE_SEEN_PER_OBJECT = 2"
definition RAM_CACHE_FAST_LOAD_SIZE :: int where "RAM_CACHE_FAST_LOAD_SIZE = 32768"

record RamCacheEntry =
  e_key :: "u8 list"
  e_auxkey1 :: u32
  e_auxkey2 :: u32
  e_data :: "nat option"

record RamCachePartition =
  cur_bytes :: int
  cur_objects :: int
  bucket :: "nat dll list"
  lru :: "nat queue"
  seen :: "u16 list"

record RamCache =
  rc_bytes :: int
  objects :: int
  partition_size :: int
  seen_size :: int
  cutoff_size :: u32
  one_partition :: RamCachePartition
  entries :: "nat \<Rightarrow> RamCacheEntry"
  hash_link :: "nat links"
  lru_link :: "nat links"

definition upd_part :: "(RamCachePartition \<Rightarrow> RamCachePartition) \<Rightarrow> RamCache \<Rightarrow> RamCache" where
  "upd_part f rc = rc\<lparr>one_partition := f (one_partition rc)\<rparr>"

definition new_RamCache :: RamCache where
  "new_RamCache = \<lparr>rc_bytes = 0, objects = 0, partition_size = 0, seen_size = 0, cutoff_size = 0,
     one_partition = \<lparr>cur_bytes = 0, cur_objects = 0, bucket = [], lru = \<lparr>head = None, tail = None\<rparr>, seen = []\<rparr>,
     entries = (\<lambda>_. \<lparr>e_key = [], e_auxkey1 = 0, e_auxkey2 = 0, e_data = None\<rparr>),
     hash_link = \<lparr>lnext = (\<lambda>_. None), lprev = (\<lambda>_. None)\<rparr>, lru_link = \<lparr>lnext = (\<lambda>_. None), lprev = (\<lambda>_. None)\<rparr>\<rparr>"

definition ram_init :: "int \<Rightarrow> int \<Rightarrow> u32 \<Rightarrow> RamCache \<Rightarrow> RamCache" where
  "ram_init abytes aobjects cutoff rc =
     (let rc1 = rc\<lparr>partition_size := aobjects, cutoff_size := cutoff\<rparr>
      in if partition_size rc1 = 0 then rc1
         else
           let rc2 = rc1\<lparr>seen_size := partition_size rc1 * RAM_CACHE_SEEN_PER_OBJECT - 1, rc_bytes := abytes, objects := aobjects\<rparr>
           in upd_part (\<lambda>p. p\<lparr>bucket := replicate (nat (partition_size rc2)) \<lparr>head = None\<rparr>, seen := replicate (nat (seen_size rc2)) 0\<rparr>) rc2)"

section \<open>Lookup\<close>

definition bucket_index :: "RamCache \<Rightarrow> u8 list \<Rightarrow> nat" where
  "bucket_index rc key = nat (uint (key_word key 3) smod partition_size rc)"

definition bucket_head :: "RamCache \<Rightarrow> u8 list \<Rightarrow> nat option" where
  "bucket_head rc key = head (bucket (one_partition rc) ! bucket_index rc key)"

definition entry_matches :: "RamCache \<Rightarrow> u8 list \<Rightarrow> u32 \<Rightarrow> u32 \<Rightarrow> nat \<Rightarrow> bool" where
  "entry_matches rc key auxkey1 auxkey2 e \<longleftrightarrow>
     e_key (entries rc e) = key \<and> e_auxkey1 (entries rc e) = auxkey1 \<and> e_auxkey2 (entries rc e) = auxkey2"

partial_function (option) bucket_find :: "(nat \<Rightarrow> bool) \<Rightarrow> nat links \<Rightarrow> nat option \<Rightarrow> nat option option" where
  "bucket_find matches h e = (case e of
     None \<Rightarrow> Some None
   | Some a \<Rightarrow> if matches a then Some (Some a) else bucket_find matches h (lnext h a))"

definition upd_lru :: "(nat links \<times> nat queue \<Rightarrow> nat links \<times> nat queue) \<Rightarrow> RamCache \<Rightarrow> RamCache" where
  "upd_lru f rc = (let (l, q) = f (lru_link rc, lru (one_partition rc)) in upd_part (\<lambda>p. p\<lparr>lru := q\<rparr>) (rc\<lparr>lru_link := l\<rparr>))"

definition ram_get :: "u8 list \<Rightarrow> u32 \<Rightarrow> u32 \<Rightarrow> RamCache \<Rightarrow> (int \<times> nat option \<times> RamCache) option" where
  "ram_get key auxkey1 auxkey2 rc =
     (if partition_size rc = 0 then Some (0, None, rc)
      else do {
        f \<leftarrow> bucket_find (entry_matches rc key auxkey1 auxkey2) (hash_link rc) (bucket_head rc key);
        Some (case f of
          Some e \<Rightarrow> (1, e_data (entries rc e), upd_lru (queue_enqueue e) (upd_lru (queue_remove e) rc))
        | None \<Rightarrow> (0, None, rc))
      })"

text \<open>With the lock of the partition, whose attempt gives \<open>l\<close>; without partitions there is no lock to try.\<close>

definition ram_get_lock :: "bool \<Rightarrow> u8 list \<Rightarrow> u32 \<Rightarrow> u32 \<Rightarrow> RamCache \<Rightarrow> (int \<times> nat option \<times> RamCache) option" where
  "ram_get_lock l key auxkey1 auxkey2 rc =
     (if partition_size rc = 0 then None else if \<not> l then Some (-1, None, rc) else ram_get key auxkey1 auxkey2 rc)"

definition ram_fixup :: "u8 list \<Rightarrow> u32 \<Rightarrow> u32 \<Rightarrow> u32 \<Rightarrow> u32 \<Rightarrow> RamCache \<Rightarrow> (int \<times> RamCache) option" where
  "ram_fixup key old_auxkey1 old_auxkey2 new_auxkey1 new_auxkey2 rc =
     (if partition_size rc = 0 then Some (0, rc)
      else do {
        f \<leftarrow> bucket_find (entry_matches rc key old_auxkey1 old_auxkey2) (hash_link rc) (bucket_head rc key);
        Some (case f of
          Some e \<Rightarrow> (1, rc\<lparr>entries := (entries rc)(e := (entries rc e)\<lparr>e_auxkey1 := new_auxkey1, e_auxkey2 := new_auxkey2\<rparr>)\<rparr>)
        | None \<Rightarrow> (0, rc))
      })"

section \<open>Storing and eviction\<close>

definition ram_remove_entry :: "ioheap \<Rightarrow> nat \<Rightarrow> RamCache \<Rightarrow> RamCache option" where
  "ram_remove_entry h ee rc = do {
     let ii = bucket_index rc (e_key (entries rc ee));
     let (l, b) = dll_remove ee (hash_link rc, bucket (one_partition rc) ! ii);
     d \<leftarrow> e_data (entries rc ee);
     Some (upd_part (\<lambda>p. p\<lparr>bucket := (bucket p)[ii := b], cur_bytes := c_int (cur_bytes p - data_block_size h d)\<rparr>)
       (rc\<lparr>hash_link := l, entries := (entries rc)(ee := (entries rc ee)\<lparr>e_data := None\<rparr>)\<rparr>))
   }"

text \<open>The loop over the bucket that looks for the document and drops the others under the same key.\<close>

partial_function (option) put_scan :: "ioheap \<Rightarrow> u8 list \<Rightarrow> u32 \<Rightarrow> u32 \<Rightarrow> nat option \<Rightarrow> RamCache \<Rightarrow> (bool \<times> RamCache) option" where
  "put_scan h key auxkey1 auxkey2 e rc = (case e of
     None \<Rightarrow> Some (False, rc)
   | Some a \<Rightarrow>
       let n = lnext (hash_link rc) a
       in if e_key (entries rc a) = key then
            if e_auxkey1 (entries rc a) = auxkey1 \<and> e_auxkey2 (entries rc a) = auxkey2 then Some (True, rc)
            else do {
              rc' \<leftarrow> ram_remove_entry h a (upd_lru (queue_remove a) rc);
              put_scan h key auxkey1 auxkey2 n rc'
            }
          else put_scan h key auxkey1 auxkey2 n rc)"

partial_function (option) evict_loop :: "ioheap \<Rightarrow> RamCache \<Rightarrow> RamCache option" where
  "evict_loop h rc =
     (if cur_bytes (one_partition rc) > rc_bytes rc then
        (case queue_dequeue (lru_link rc, lru (one_partition rc)) of
           (None, s) \<Rightarrow> Some (upd_lru (\<lambda>_. s) rc)
         | (Some ee, s) \<Rightarrow> do {
             rc' \<leftarrow> ram_remove_entry h ee (upd_lru (\<lambda>_. s) rc);
             evict_loop h rc'
           })
      else Some rc)"

definition add_entry :: "ioheap \<Rightarrow> u8 list \<Rightarrow> nat \<Rightarrow> u32 \<Rightarrow> u32 \<Rightarrow> nat \<Rightarrow> RamCache \<Rightarrow> RamCache" where
  "add_entry h key data auxkey1 auxkey2 e rc =
     (let i = bucket_index rc key;
          rc1 = rc\<lparr>entries := (entries rc)(e := \<lparr>e_key = key, e_auxkey1 = auxkey1, e_auxkey2 = auxkey2, e_data = Some data\<rparr>)\<rparr>;
          (l, b) = dll_push e (hash_link rc1, bucket (one_partition rc1) ! i);
          rc2 = upd_lru (queue_enqueue e) (upd_part (\<lambda>p. p\<lparr>bucket := (bucket p)[i := b]\<rparr>) (rc1\<lparr>hash_link := l\<rparr>))
      in upd_part (\<lambda>p. p\<lparr>cur_bytes := c_int (cur_bytes p + data_block_size h data)\<rparr>) rc2)"

definition ram_put :: "ioheap \<Rightarrow> u8 list \<Rightarrow> nat \<Rightarrow> u32 \<Rightarrow> u32 \<Rightarrow> nat \<Rightarrow> RamCache \<Rightarrow> (int \<times> RamCache) option" where
  "ram_put h key data auxkey1 auxkey2 e rc =
     (if partition_size rc = 0 then Some (0, rc)
      else
        let k3 = key_word key 3;
            s = nat (uint k3 smod seen_size rc);
            oldseen = seen (one_partition rc) ! s;
            rc1 = upd_part (\<lambda>p. p\<lparr>seen := (seen p)[s := ucast k3]\<rparr>) rc
        in if oldseen \<noteq> ucast k3 \<and> rc_bytes rc \<le> c_int (cur_bytes (one_partition rc1) + RAM_CACHE_FAST_LOAD_SIZE) then Some (0, rc1)
           else do {
             (present, rc2) \<leftarrow> put_scan h key auxkey1 auxkey2 (bucket_head rc1 key) rc1;
             if present then Some (1, rc2)
             else do {
               rc3 \<leftarrow> evict_loop h (add_entry h key data auxkey1 auxkey2 e rc2);
               Some (1, rc3)
             }
           })"

definition ram_put_lock :: "bool \<Rightarrow> ioheap \<Rightarrow> u8 list \<Rightarrow> nat \<Rightarrow> u32 \<Rightarrow> u32 \<Rightarrow> nat \<Rightarrow> RamCache \<Rightarrow> (int \<times> RamCache) option" where
  "ram_put_lock l h key data auxkey1 auxkey2 e rc =
     (if partition_size rc = 0 then None else if \<not> l then Some (-1, rc) else ram_put h key data auxkey1 auxkey2 e rc)"

end
