(* ===== verification/Ram_Cache_Main.thy ===== *)
theory Ram_Cache_Main
  imports Ram_Cache
begin

text \<open>
  The memory cache is a list of documents in the order of their last use: \<open>cache_ok\<close> relates the buckets, the queue, the
  two link stores and the counter of bytes to that list, and every operation returns and does on it what its
  specification says.
\<close>

section \<open>Frames of the list operations\<close>

lemma same_outside_refl [simp]: "same_outside A h h"
  by (simp add: same_outside_def)

lemma unlinked_frame: "same_outside A h h' \<Longrightarrow> c \<notin> A \<Longrightarrow> unlinked h' c = unlinked h c"
  by (simp add: same_outside_def unlinked_def)

lemma queue_remove_frame:
  assumes "queue_rep h q (us @ c # vs)" "queue_remove c (h, q) = (h', q')"
  shows "same_outside (set (us @ c # vs)) h h'"
proof -
  let ?q = "if tail q = Some c then q\<lparr>tail := lprev h c\<rparr> else q"
  have "dll_rep h ?q (us @ c # vs)" using assms(1) by (simp add: queue_rep_def)
  from dll_remove_rep[OF this] show ?thesis using assms(2) by (simp add: queue_remove_def)
qed

lemma queue_enqueue_frame:
  assumes "queue_rep h q xs" "queue_enqueue c (h, q) = (h', q')" "c \<notin> set xs" "unlinked h c"
  shows "same_outside (insert c (set xs)) h h'"
proof (cases "xs = []")
  case True
  then have "tail q = None" "dll_rep h q []" using assms(1) by (simp_all add: queue_rep_def link_simps)
  moreover obtain h1 q1 where p: "dll_push c (h, q) = (h1, q1)" by fastforce
  ultimately show ?thesis using dll_push_rep[OF _ _ assms(4) p, of "[]"] assms(2) True by (simp add: queue_enqueue_def)
next
  case False
  then obtain us a where xs: "xs = us @ [a]" by (metis rev_exhaust)
  then have t: "tail q = Some a" and s: "lseg h None (head q) (us @ [a]) None" using assms(1) by (simp_all add: queue_rep_def dll_rep_def link_simps)
  have "lnext h a = None" using lseg_at(2)[OF s] by (simp add: link_simps)
  moreover have "c \<noteq> a" using assms(3) xs by simp
  ultimately show ?thesis using assms(2) xs t
    by (auto simp: queue_enqueue_def queue_insert_def dll_insert_def Let_def link_simps same_outside_def split: if_splits)
qed

lemma dll_rep_unique: "dll_rep h q xs \<Longrightarrow> dll_rep h q ys \<Longrightarrow> xs = ys"
proof -
  have "lseg h p x xs None \<Longrightarrow> lseg h p x ys None \<Longrightarrow> xs = ys" for p x
  proof (induction xs arbitrary: p x ys)
    case Nil
    then show ?case by (cases ys) simp_all
  next
    case (Cons a as)
    then show ?case by (cases ys) auto
  qed
  then show "dll_rep h q xs \<Longrightarrow> dll_rep h q ys \<Longrightarrow> xs = ys" by (auto simp: dll_rep_def)
qed

section \<open>Walking a bucket\<close>

lemma bucket_find_lseg: "lseg h p x ys None \<Longrightarrow> bucket_find matches h x = Some (find matches ys)"
proof (induction ys arbitrary: p x)
  case Nil
  then show ?case by (subst bucket_find.simps) simp
next
  case (Cons y ys)
  then show ?case using Cons.IH[of "Some y" "lnext h y"] by (subst bucket_find.simps) simp
qed

lemma put_scan_skip: "lseg (hash_link rc) p x ys None \<Longrightarrow> \<forall>a\<in>set ys. e_key (entries rc a) \<noteq> key \<Longrightarrow>
    put_scan h key auxkey1 auxkey2 x rc = Some (False, rc)"
proof (induction ys arbitrary: p x)
  case Nil
  then show ?case by (subst put_scan.simps) simp
next
  case (Cons y ys)
  then show ?case using Cons.IH[of "Some y" "lnext (hash_link rc) y"] by (subst put_scan.simps) (simp add: Let_def)
qed

lemma put_scan_prefix: "lseg (hash_link rc) p x (us @ a # vs) None \<Longrightarrow> \<forall>b\<in>set us. e_key (entries rc b) \<noteq> key \<Longrightarrow>
    put_scan h key auxkey1 auxkey2 x rc = put_scan h key auxkey1 auxkey2 (Some a) rc"
proof (induction us arbitrary: p x)
  case Nil
  then show ?case by simp
next
  case (Cons y ys)
  then have "put_scan h key auxkey1 auxkey2 x rc = put_scan h key auxkey1 auxkey2 (lnext (hash_link rc) y) rc"
    by (subst put_scan.simps) (simp add: Let_def)
  then show ?case using Cons.prems Cons.IH[of "Some y" "lnext (hash_link rc) y"] by simp
qed

section \<open>The list of documents\<close>

definition size_of :: "ioheap \<Rightarrow> RamCache \<Rightarrow> nat \<Rightarrow> int" where
  "size_of h rc a = data_block_size h (the (e_data (entries rc a)))"

definition buckets_ok :: "RamCache \<Rightarrow> nat set \<Rightarrow> bool" where
  "buckets_ok rc A \<longleftrightarrow> (\<forall>i < nat (partition_size rc). \<exists>ys. dll_rep (hash_link rc) (bucket (one_partition rc) ! i) ys
     \<and> set ys = {a \<in> A. bucket_index rc (e_key (entries rc a)) = i})"

definition cache_ok :: "ioheap \<Rightarrow> RamCache \<Rightarrow> nat list \<Rightarrow> bool" where
  "cache_ok h rc xs \<longleftrightarrow>
     0 < partition_size rc \<and> length (bucket (one_partition rc)) = nat (partition_size rc) \<and>
     0 < seen_size rc \<and> length (seen (one_partition rc)) = nat (seen_size rc) \<and>
     queue_rep (lru_link rc) (lru (one_partition rc)) xs \<and> buckets_ok rc (set xs) \<and>
     (\<forall>a. a \<notin> set xs \<longrightarrow> unlinked (hash_link rc) a \<and> unlinked (lru_link rc) a) \<and>
     (\<forall>a\<in>set xs. e_data (entries rc a) \<noteq> None) \<and> distinct (map (\<lambda>a. e_key (entries rc a)) xs) \<and>
     cur_bytes (one_partition rc) = (\<Sum>a\<leftarrow>xs. size_of h rc a) \<and> cur_bytes (one_partition rc) < 2 ^ 31"

lemma data_block_size_nonneg: "0 \<le> data_block_size h k"
  by (simp add: data_block_size_def index_to_buffer_size_def BUFFER_SIZE_FOR_INDEX_def BUFFER_SIZE_INDEX_IS_XMALLOCED_def
      BUFFER_SIZE_INDEX_IS_CONSTANT_def)

lemma sizes_nonneg: "0 \<le> (\<Sum>a\<leftarrow>xs. size_of h rc a)"
  by (induction xs) (simp_all add: size_of_def data_block_size_nonneg)

lemma upd_part_sel [simp]:
  "one_partition (upd_part f rc) = f (one_partition rc)" "rc_bytes (upd_part f rc) = rc_bytes rc" "objects (upd_part f rc) = objects rc"
  "partition_size (upd_part f rc) = partition_size rc" "seen_size (upd_part f rc) = seen_size rc" "cutoff_size (upd_part f rc) = cutoff_size rc"
  "entries (upd_part f rc) = entries rc" "hash_link (upd_part f rc) = hash_link rc" "lru_link (upd_part f rc) = lru_link rc"
  by (simp_all add: upd_part_def)

lemma upd_lru_sel [simp]:
  "rc_bytes (upd_lru f rc) = rc_bytes rc" "partition_size (upd_lru f rc) = partition_size rc" "seen_size (upd_lru f rc) = seen_size rc"
  "entries (upd_lru f rc) = entries rc" "hash_link (upd_lru f rc) = hash_link rc"
  "cur_bytes (one_partition (upd_lru f rc)) = cur_bytes (one_partition rc)" "bucket (one_partition (upd_lru f rc)) = bucket (one_partition rc)"
  "seen (one_partition (upd_lru f rc)) = seen (one_partition rc)"
  by (simp_all add: upd_lru_def split: prod.splits)

lemma upd_lru_pair: "f (lru_link rc, lru (one_partition rc)) = (l, q) \<Longrightarrow> lru_link (upd_lru f rc) = l \<and> lru (one_partition (upd_lru f rc)) = q"
  by (simp add: upd_lru_def)

lemma bucket_index_cong: "partition_size rc' = partition_size rc \<Longrightarrow> bucket_index rc' key = bucket_index rc key"
  by (simp add: bucket_index_def)

lemma bucket_index_less: "0 < partition_size rc \<Longrightarrow> bucket_index rc key < nat (partition_size rc)"
  by (simp add: bucket_index_def smod_nonneg nat_less_iff)

text \<open>A change of one bucket leaves the others as they are.\<close>

lemma buckets_okI:
  assumes "buckets_ok rc A" "same_outside {a. a = e \<or> a \<in> A \<and> bucket_index rc (e_key (entries rc a)) = i} (hash_link rc) (hash_link rc')"
    and "partition_size rc' = partition_size rc" "bucket (one_partition rc') = (bucket (one_partition rc))[i := b]"
    and "i < length (bucket (one_partition rc))"
    and "dll_rep (hash_link rc') b ys" "set ys = {a \<in> A'. bucket_index rc (e_key (entries rc' a)) = i}"
    and "\<And>j. j \<noteq> i \<Longrightarrow> {a \<in> A'. bucket_index rc (e_key (entries rc' a)) = j} = {a \<in> A. bucket_index rc (e_key (entries rc a)) = j}"
    and "\<And>j. j \<noteq> i \<Longrightarrow> e \<notin> {a \<in> A. bucket_index rc (e_key (entries rc a)) = j}"
  shows "buckets_ok rc' A'"
  unfolding buckets_ok_def
proof (intro allI impI)
  fix j assume j: "j < nat (partition_size rc')"
  show "\<exists>zs. dll_rep (hash_link rc') (bucket (one_partition rc') ! j) zs \<and> set zs = {a \<in> A'. bucket_index rc' (e_key (entries rc' a)) = j}"
  proof (cases "j = i")
    case True
    then show ?thesis using assms(4-7) by (intro exI[of _ ys]) (simp add: bucket_index_cong[OF assms(3)])
  next
    case False
    obtain zs where zs: "dll_rep (hash_link rc) (bucket (one_partition rc) ! j) zs" "set zs = {a \<in> A. bucket_index rc (e_key (entries rc a)) = j}"
      using assms(1,3) j unfolding buckets_ok_def by auto
    have "{a. a = e \<or> a \<in> A \<and> bucket_index rc (e_key (entries rc a)) = i} \<inter> set zs = {}" using assms(9)[OF False] False zs(2) by auto
    then have "dll_rep (hash_link rc') (bucket (one_partition rc) ! j) zs" using zs(1) lseg_frame[OF assms(2)] by (simp add: dll_rep_def)
    then show ?thesis using False zs(2) assms(4) assms(8)[OF False] by (intro exI[of _ zs]) (simp add: bucket_index_cong[OF assms(3)])
  qed
qed

lemma cache_okD:
  assumes "cache_ok h rc xs"
  shows "0 < partition_size rc" "length (bucket (one_partition rc)) = nat (partition_size rc)"
    "0 < seen_size rc" "length (seen (one_partition rc)) = nat (seen_size rc)"
    "queue_rep (lru_link rc) (lru (one_partition rc)) xs" "buckets_ok rc (set xs)"
    "a \<notin> set xs \<Longrightarrow> unlinked (hash_link rc) a" "a \<notin> set xs \<Longrightarrow> unlinked (lru_link rc) a"
    "a \<in> set xs \<Longrightarrow> \<exists>d. e_data (entries rc a) = Some d" "distinct (map (\<lambda>a. e_key (entries rc a)) xs)"
    "cur_bytes (one_partition rc) = (\<Sum>a\<leftarrow>xs. size_of h rc a)" "cur_bytes (one_partition rc) < 2 ^ 31"
  using assms by (auto simp: cache_ok_def)

lemma cache_distinct: "cache_ok h rc xs \<Longrightarrow> distinct xs"
  using cache_okD(5) queue_rep_distinct by blast

lemma bucket_of:
  assumes "cache_ok h rc xs"
  shows "\<exists>ys. dll_rep (hash_link rc) (bucket (one_partition rc) ! bucket_index rc key) ys
    \<and> set ys = {a \<in> set xs. bucket_index rc (e_key (entries rc a)) = bucket_index rc key}"
  using cache_okD(6)[OF assms] bucket_index_less[OF cache_okD(1)[OF assms], of key] unfolding buckets_ok_def by blast

lemma bucket_set:
  assumes "cache_ok h rc xs" "dll_rep (hash_link rc) (bucket (one_partition rc) ! bucket_index rc key) ys"
  shows "set ys = {a \<in> set xs. bucket_index rc (e_key (entries rc a)) = bucket_index rc key}"
  using bucket_of[OF assms(1), of key] dll_rep_unique[OF assms(2)] by metis

text \<open>What does not change but for the entry \<open>a\<close> and the lists.\<close>

definition same_params :: "RamCache \<Rightarrow> RamCache \<Rightarrow> bool" where
  "same_params rc rc' \<longleftrightarrow> rc_bytes rc' = rc_bytes rc \<and> partition_size rc' = partition_size rc \<and> seen_size rc' = seen_size rc
     \<and> seen (one_partition rc') = seen (one_partition rc)"

lemma remove_ok:
  assumes ok: "cache_ok h rc (us @ a # vs)" and ys: "dll_rep (hash_link rc) (bucket (one_partition rc) ! bucket_index rc (e_key (entries rc a))) (bs @ a # cs)"
  shows "\<exists>rc'. ram_remove_entry h a (upd_lru (queue_remove a) rc) = Some rc' \<and> cache_ok h rc' (us @ vs) \<and> same_params rc rc'
    \<and> (\<forall>x. x \<noteq> a \<longrightarrow> entries rc' x = entries rc x)
    \<and> dll_rep (hash_link rc') (bucket (one_partition rc') ! bucket_index rc (e_key (entries rc a))) (bs @ cs)"
proof -
  note D = cache_okD[OF ok]
  let ?i = "bucket_index rc (e_key (entries rc a))" and ?xs = "us @ a # vs"
  obtain l q where q: "queue_remove a (lru_link rc, lru (one_partition rc)) = (l, q)" by fastforce
  obtain hl b where b: "dll_remove a (hash_link rc, bucket (one_partition rc) ! ?i) = (hl, b)" by fastforce
  obtain d where d: "e_data (entries rc a) = Some d" using D(9)[of a] by auto
  define rc' where "rc' = upd_part (\<lambda>p. p\<lparr>bucket := (bucket p)[?i := b], cur_bytes := c_int (cur_bytes p - data_block_size h d)\<rparr>)
    ((upd_lru (queue_remove a) rc)\<lparr>hash_link := hl, entries := (entries rc)(a := (entries rc a)\<lparr>e_data := None\<rparr>)\<rparr>)"
  have lq: "lru_link rc' = l" "lru (one_partition rc') = q" using upd_lru_pair[of "queue_remove a" rc l q, OF q] by (simp_all add: rc'_def)
  have sel: "hash_link rc' = hl" "bucket (one_partition rc') = (bucket (one_partition rc))[?i := b]" "partition_size rc' = partition_size rc"
    "entries rc' = (entries rc)(a := (entries rc a)\<lparr>e_data := None\<rparr>)" by (simp_all add: rc'_def)
  have Q: "queue_rep l q (us @ vs)" "unlinked l a" "same_outside (set ?xs) (lru_link rc) l"
    using queue_remove_rep[OF D(5) q] queue_remove_frame[OF D(5) q] by simp_all
  have B: "dll_rep hl b (bs @ cs)" "unlinked hl a" "same_outside (set (bs @ a # cs)) (hash_link rc) hl" using dll_remove_rep[OF ys b] by simp_all
  have i: "?i < length (bucket (one_partition rc))" using bucket_index_less[OF D(1)] D(2) by simp
  have dx: "distinct ?xs" using cache_distinct[OF ok] .
  have sy: "set (bs @ a # cs) = {x \<in> set ?xs. bucket_index rc (e_key (entries rc x)) = ?i}"
    by (rule bucket_set[OF ok ys])
  have dy: "distinct (bs @ a # cs)" using ys by (simp add: dll_rep_def)
  have "buckets_ok rc' (set (us @ vs))"
  proof (rule buckets_okI[OF D(6), of a ?i rc' b "bs @ cs"])
    show "same_outside {x. x = a \<or> x \<in> set ?xs \<and> bucket_index rc (e_key (entries rc x)) = ?i} (hash_link rc) (hash_link rc')"
    proof -
      have "{x. x = a \<or> x \<in> set ?xs \<and> bucket_index rc (e_key (entries rc x)) = ?i} = set (bs @ a # cs)" unfolding sy by auto
      then show ?thesis using B(3) by (simp only: sel)
    qed
    show "set (bs @ cs) = {x \<in> set (us @ vs). bucket_index rc (e_key (entries rc' x)) = ?i}" using sy dy dx by (auto simp: sel)
  qed (use B(1) i sel dx in \<open>auto simp: sel\<close>)
  moreover have "unlinked (hash_link rc') x \<and> unlinked (lru_link rc') x" if "x \<notin> set (us @ vs)" for x
  proof (cases "x = a")
    case False
    then show ?thesis using that D(7,8)[of x] unlinked_frame[OF Q(3), of x] unlinked_frame[OF B(3), of x] sy lq sel by auto
  qed (simp add: lq sel B(2) Q(2))
  moreover have s: "size_of h rc' x = size_of h rc x" if "x \<in> set (us @ vs)" for x using that dx by (auto simp: size_of_def sel)
  then have "(\<Sum>x\<leftarrow>us @ vs. size_of h rc' x) = (\<Sum>x\<leftarrow>us @ vs. size_of h rc x)" by (metis map_cong)
  then have c: "cur_bytes (one_partition rc') = (\<Sum>x\<leftarrow>us @ vs. size_of h rc' x)" "cur_bytes (one_partition rc') < 2 ^ 31"
    using D(11,12) d sizes_nonneg[of h rc "us @ vs"] data_block_size_nonneg[of h d] by (simp_all add: rc'_def size_of_def c_int_id)
  moreover have "distinct (map (\<lambda>x. e_key (entries rc' x)) (us @ vs))"
  proof -
    have m: "map (\<lambda>x. e_key (entries rc' x)) (us @ vs) = map (\<lambda>x. e_key (entries rc x)) (us @ vs)" by (simp add: sel)
    show ?thesis using D(10) unfolding m by simp
  qed
  ultimately have "cache_ok h rc' (us @ vs)"
    using D(1-4,9) Q(1) lq sel dx unfolding cache_ok_def by (auto simp: rc'_def)
  moreover have "ram_remove_entry h a (upd_lru (queue_remove a) rc) = Some rc'"
    using b d by (simp add: ram_remove_entry_def rc'_def bucket_index_def)
  moreover have "same_params rc rc'" by (simp add: same_params_def rc'_def)
  ultimately show ?thesis using B(1) i sel by (intro exI[of _ rc']) simp
qed

lemma add_ok:
  assumes ok: "cache_ok h rc xs" and e: "e \<notin> set xs" and k: "key \<notin> (\<lambda>a. e_key (entries rc a)) ` set xs"
    and fits: "cur_bytes (one_partition rc) + data_block_size h data < 2 ^ 31" and rc': "rc' = add_entry h key data auxkey1 auxkey2 e rc"
  shows "cache_ok h rc' (xs @ [e]) \<and> same_params rc rc'
    \<and> entries rc' = (entries rc)(e := \<lparr>e_key = key, e_auxkey1 = auxkey1, e_auxkey2 = auxkey2, e_data = Some data\<rparr>)"
proof -
  note D = cache_okD[OF ok]
  let ?i = "bucket_index rc key" and ?n = "\<lparr>e_key = key, e_auxkey1 = auxkey1, e_auxkey2 = auxkey2, e_data = Some data\<rparr>"
  obtain l q where q: "queue_enqueue e (lru_link rc, lru (one_partition rc)) = (l, q)" by fastforce
  obtain hl b where b: "dll_push e (hash_link rc, bucket (one_partition rc) ! ?i) = (hl, b)" by fastforce
  obtain ys where ys: "dll_rep (hash_link rc) (bucket (one_partition rc) ! ?i) ys" "set ys = {a \<in> set xs. bucket_index rc (e_key (entries rc a)) = ?i}"
    using bucket_of[OF ok, of key] by blast
  have sel: "hash_link rc' = hl" "bucket (one_partition rc') = (bucket (one_partition rc))[?i := b]" "partition_size rc' = partition_size rc"
    "entries rc' = (entries rc)(e := ?n)" "lru_link rc' = l" "lru (one_partition rc') = q" "seen (one_partition rc') = seen (one_partition rc)"
    "seen_size rc' = seen_size rc" "rc_bytes rc' = rc_bytes rc"
    "cur_bytes (one_partition rc') = c_int (cur_bytes (one_partition rc) + data_block_size h data)"
    using q b unfolding rc' by (simp_all add: add_entry_def upd_lru_def upd_part_def bucket_index_def)
  have Q: "queue_rep l q (xs @ [e])" "same_outside (insert e (set xs)) (lru_link rc) l"
    using queue_enqueue_rep[OF D(5) e D(8)[OF e] q] queue_enqueue_frame[OF D(5) q e D(8)[OF e]] by simp_all
  have "e \<notin> set ys" using e ys(2) by simp
  then have B: "dll_rep hl b (e # ys)" "same_outside (insert e (set ys)) (hash_link rc) hl" using dll_push_rep[OF ys(1) _ D(7)[OF e] b] by simp_all
  have i: "?i < length (bucket (one_partition rc))" using bucket_index_less[OF D(1)] D(2) by simp
  have bk: "buckets_ok rc' (set (xs @ [e]))"
  proof (rule buckets_okI[OF D(6), of e ?i rc' b "e # ys"])
    show "same_outside {x. x = e \<or> x \<in> set xs \<and> bucket_index rc (e_key (entries rc x)) = ?i} (hash_link rc) (hash_link rc')"
    proof -
      have "{x. x = e \<or> x \<in> set xs \<and> bucket_index rc (e_key (entries rc x)) = ?i} = insert e (set ys)" unfolding ys(2) by auto
      then show ?thesis using B(2) by (simp only: sel)
    qed
    show "set (e # ys) = {x \<in> set (xs @ [e]). bucket_index rc (e_key (entries rc' x)) = ?i}" using ys(2) e by (auto simp: sel)
  qed (use B(1) i e in \<open>auto simp: sel\<close>)
  have ul: "unlinked (hash_link rc') x \<and> unlinked (lru_link rc') x" if "x \<notin> set (xs @ [e])" for x
    using that D(7,8)[of x] unlinked_frame[OF Q(2), of x] unlinked_frame[OF B(2), of x] ys(2) by (simp add: sel)
  have p: "0 < partition_size rc'" "length (bucket (one_partition rc')) = nat (partition_size rc')" "0 < seen_size rc'"
      "length (seen (one_partition rc')) = nat (seen_size rc')" "queue_rep (lru_link rc') (lru (one_partition rc')) (xs @ [e])"
    using D(1-4) Q(1) by (simp_all add: sel)
  have same: "map (size_of h rc') xs = map (size_of h rc) xs" "map (\<lambda>a. e_key (entries rc' a)) xs = map (\<lambda>a. e_key (entries rc a)) xs"
    using e by (auto simp: size_of_def sel)
  have "size_of h rc' e = data_block_size h data" by (simp add: size_of_def sel)
  moreover have "c_int (cur_bytes (one_partition rc) + data_block_size h data) = cur_bytes (one_partition rc) + data_block_size h data"
    using fits D(11) sizes_nonneg[of h rc xs] data_block_size_nonneg[of h data] by (intro c_int_id) simp_all
  ultimately have "cur_bytes (one_partition rc') = (\<Sum>x\<leftarrow>xs @ [e]. size_of h rc' x) \<and> cur_bytes (one_partition rc') < 2 ^ 31"
    using D(11) fits by (simp only: sel map_append same sum_list.append list.map sum_list.Cons sum_list.Nil add_0_right)
  moreover have "distinct (map (\<lambda>a. e_key (entries rc' a)) (xs @ [e]))"
    using D(10) k unfolding map_append same(2) by (simp add: sel)
  moreover have "\<forall>a\<in>set (xs @ [e]). e_data (entries rc' a) \<noteq> None" using D(9) by (auto simp: sel)
  ultimately have "cache_ok h rc' (xs @ [e])"
    using bk ul p unfolding cache_ok_def by blast
  then show ?thesis by (simp add: sel same_params_def)
qed

lemma filter_other_keys:
  assumes "distinct (map f (us @ a # vs))"
  shows "filter (\<lambda>x. f x \<noteq> f a) (us @ a # vs) = us @ vs"
proof -
  have "f a \<notin> f ` set us" "f a \<notin> f ` set vs" using assms by auto
  then have "filter (\<lambda>x. f x \<noteq> f a) us = us" "filter (\<lambda>x. f x \<noteq> f a) vs = vs" by (simp_all add: filter_id_conv image_iff) metis+
  then show ?thesis by simp
qed

lemma put_scan_ok:
  assumes ok: "cache_ok h rc xs"
  shows "if \<exists>a\<in>set xs. entry_matches rc key auxkey1 auxkey2 a then put_scan h key auxkey1 auxkey2 (bucket_head rc key) rc = Some (True, rc)
    else \<exists>rc'. put_scan h key auxkey1 auxkey2 (bucket_head rc key) rc = Some (False, rc') \<and>
      cache_ok h rc' (filter (\<lambda>a. e_key (entries rc a) \<noteq> key) xs) \<and> same_params rc rc' \<and> (\<forall>x. e_key (entries rc x) \<noteq> key \<longrightarrow> entries rc' x = entries rc x)"
proof -
  obtain ys where ys: "dll_rep (hash_link rc) (bucket (one_partition rc) ! bucket_index rc key) ys"
      "set ys = {a \<in> set xs. bucket_index rc (e_key (entries rc a)) = bucket_index rc key}"
    using bucket_of[OF ok, of key] by blast
  have sg: "lseg (hash_link rc) None (bucket_head rc key) ys None" using ys(1) by (simp add: dll_rep_def bucket_head_def)
  show ?thesis
  proof (cases "\<exists>a\<in>set xs. e_key (entries rc a) = key")
    case False
    then have "put_scan h key auxkey1 auxkey2 (bucket_head rc key) rc = Some (False, rc)" using put_scan_skip[OF sg] ys(2) by auto
    moreover have "filter (\<lambda>a. e_key (entries rc a) \<noteq> key) xs = xs" using False by (intro filter_True) auto
    ultimately show ?thesis using False ok by (auto simp: entry_matches_def same_params_def)
  next
    case True
    then obtain a where a: "a \<in> set xs" "e_key (entries rc a) = key" by blast
    obtain us vs where xs: "xs = us @ a # vs" using a(1) by (metis split_list)
    have "a \<in> set ys" using a ys(2) by simp
    then obtain bs cs where bc: "ys = bs @ a # cs" by (metis split_list)
    have dk: "distinct (map (\<lambda>a. e_key (entries rc a)) xs)" by (rule cache_okD(10)[OF ok])
    have uniq: "b = a" if "b \<in> set xs" "e_key (entries rc b) = key" for b using dk that a by (auto simp: distinct_map inj_on_def)
    have dy: "distinct ys" using ys(1) by (simp add: dll_rep_def)
    have other: "\<forall>b\<in>set bs. e_key (entries rc b) \<noteq> key" "\<forall>b\<in>set cs. e_key (entries rc b) \<noteq> key" using uniq dy ys(2) bc by auto
    have scan: "put_scan h key auxkey1 auxkey2 (bucket_head rc key) rc = put_scan h key auxkey1 auxkey2 (Some a) rc"
      using put_scan_prefix[OF sg[unfolded bc] other(1)] .
    show ?thesis
    proof (cases "entry_matches rc key auxkey1 auxkey2 a")
      case True
      then show ?thesis using scan a by (subst scan, subst put_scan.simps) (auto simp: entry_matches_def Let_def)
    next
      case no: False
      from remove_ok[OF ok[unfolded xs], of bs cs] obtain rc' where r: "ram_remove_entry h a (upd_lru (queue_remove a) rc) = Some rc'"
        "cache_ok h rc' (us @ vs)" "same_params rc rc'" "\<forall>x. x \<noteq> a \<longrightarrow> entries rc' x = entries rc x"
        "dll_rep (hash_link rc') (bucket (one_partition rc') ! bucket_index rc key) (bs @ cs)"
        using ys(1) bc a(2) by auto
      have n: "lnext (hash_link rc) a = head_opt cs" using lseg_at(2)[OF sg[unfolded bc]] .
      obtain p y where cs: "lseg (hash_link rc') p y cs None" using r(5) by (auto simp: dll_rep_def link_simps)
      have "a \<notin> set cs" using dy bc by simp
      then have "\<forall>b\<in>set cs. e_key (entries rc' b) \<noteq> key" using other(2) r(4) by metis
      then have "put_scan h key auxkey1 auxkey2 (head_opt cs) rc' = Some (False, rc')" using put_scan_skip[OF cs] lseg_start[OF cs] by simp
      then have "put_scan h key auxkey1 auxkey2 (Some a) rc = Some (False, rc')"
        using no a n r(1) by (subst put_scan.simps) (auto simp: entry_matches_def Let_def)
      moreover have "filter (\<lambda>x. e_key (entries rc x) \<noteq> key) xs = us @ vs" using filter_other_keys[OF dk[unfolded xs]] a(2) xs by simp
      moreover have "\<not> (\<exists>b\<in>set xs. entry_matches rc key auxkey1 auxkey2 b)" using no uniq by (auto simp: entry_matches_def)
      ultimately show ?thesis using scan r(2-4) a(2) by auto
    qed
  qed
qed

section \<open>Eviction\<close>

text \<open>The oldest documents are dropped until the rest fits.\<close>

fun evict :: "('a \<Rightarrow> int) \<Rightarrow> int \<Rightarrow> 'a list \<Rightarrow> 'a list" where
  "evict f limit [] = []"
| "evict f limit (x # xs) = (if (\<Sum>y\<leftarrow>x # xs. f y) > limit then evict f limit xs else x # xs)"

lemma evict_cong: "(\<And>x. x \<in> set xs \<Longrightarrow> f x = g x) \<Longrightarrow> evict f limit xs = evict g limit xs"
proof (induction xs)
  case (Cons x xs)
  then have "(\<Sum>y\<leftarrow>xs. f y) = (\<Sum>y\<leftarrow>xs. g y)" by (metis list.set_intros(2) map_cong)
  then show ?case using Cons.IH Cons.prems by (simp only: evict.simps list.map sum_list.Cons list.set_intros)
qed simp

lemma evict_map: "evict f limit (map g xs) = map g (evict (\<lambda>x. f (g x)) limit xs)"
  by (induction xs) (simp_all add: comp_def)

lemma evict_ok:
  assumes "cache_ok h rc xs" "0 \<le> rc_bytes rc"
  shows "\<exists>rc'. evict_loop h rc = Some rc' \<and> cache_ok h rc' (evict (size_of h rc) (rc_bytes rc) xs) \<and> same_params rc rc'
    \<and> (\<forall>x\<in>set (evict (size_of h rc) (rc_bytes rc) xs). entries rc' x = entries rc x)"
  using assms
proof (induction xs arbitrary: rc)
  case Nil
  then have "\<not> cur_bytes (one_partition rc) > rc_bytes rc" using cache_okD(11)[OF Nil(1)] by simp
  then show ?case using Nil by (subst evict_loop.simps) (simp add: same_params_def)
next
  case (Cons a xs)
  note c = cache_okD(11)[OF Cons.prems(1)]
  show ?case
  proof (cases "cur_bytes (one_partition rc) > rc_bytes rc")
    case False
    then show ?thesis using Cons.prems(1) c by (subst evict_loop.simps) (simp add: same_params_def)
  next
    case True
    have "head (lru (one_partition rc)) = Some a" using cache_okD(5)[OF Cons.prems(1)] by (simp add: queue_rep_def dll_rep_def)
    then have dq: "queue_dequeue (lru_link rc, lru (one_partition rc)) = (Some a, queue_remove a (lru_link rc, lru (one_partition rc)))"
      by (simp add: queue_dequeue_def)
    have u: "upd_lru (\<lambda>_. queue_remove a (lru_link rc, lru (one_partition rc))) rc = upd_lru (queue_remove a) rc" by (simp add: upd_lru_def)
    obtain ys where ys: "dll_rep (hash_link rc) (bucket (one_partition rc) ! bucket_index rc (e_key (entries rc a))) ys" "a \<in> set ys"
      using bucket_of[OF Cons.prems(1), of "e_key (entries rc a)"] by auto
    obtain bs cs where "ys = bs @ a # cs" using ys(2) by (metis split_list)
    then obtain rc1 where r: "ram_remove_entry h a (upd_lru (queue_remove a) rc) = Some rc1" "cache_ok h rc1 xs" "same_params rc rc1"
      "\<forall>x. x \<noteq> a \<longrightarrow> entries rc1 x = entries rc x"
      using remove_ok[of h rc "[]" a xs bs cs] Cons.prems(1) ys(1) by auto
    have na: "a \<notin> set xs" using cache_distinct[OF Cons.prems(1)] by simp
    have b: "rc_bytes rc1 = rc_bytes rc" using r(3) by (simp add: same_params_def)
    have e: "evict (size_of h rc1) (rc_bytes rc) xs = evict (size_of h rc) (rc_bytes rc) xs"
      using na r(4) by (intro evict_cong) (auto simp: size_of_def)
    have sub: "set (evict f m ws) \<subseteq> set ws" for f m and ws :: "nat list" by (induction ws) auto
    obtain rc2 where "evict_loop h rc1 = Some rc2" "cache_ok h rc2 (evict (size_of h rc) (rc_bytes rc) xs)" "same_params rc1 rc2"
      "\<forall>x\<in>set (evict (size_of h rc) (rc_bytes rc) xs). entries rc2 x = entries rc1 x"
      using Cons.IH[OF r(2)] Cons.prems(2) b e by auto
    moreover have "evict_loop h rc = evict_loop h rc1" using True dq u r(1) by (subst evict_loop.simps) simp
    moreover have "evict (size_of h rc) (rc_bytes rc) (a # xs) = evict (size_of h rc) (rc_bytes rc) xs" using True c by simp
    ultimately show ?thesis using r(3,4) na sub[of "size_of h rc" "rc_bytes rc" xs] by (intro exI[of _ rc2]) (auto simp: same_params_def)
  qed
qed

section \<open>The cache as a list of documents\<close>

text \<open>A document with its key, its two auxiliary keys and its data; the least recently used one comes first.\<close>

type_synonym item = "u8 list \<times> u32 \<times> u32 \<times> nat"

definition item :: "RamCache \<Rightarrow> nat \<Rightarrow> item" where
  "item rc a = (e_key (entries rc a), e_auxkey1 (entries rc a), e_auxkey2 (entries rc a), the (e_data (entries rc a)))"

definition item_size :: "ioheap \<Rightarrow> item \<Rightarrow> int" where
  "item_size h = (\<lambda>(k, a1, a2, d). data_block_size h d)"

definition holds :: "ioheap \<Rightarrow> RamCache \<Rightarrow> item list \<Rightarrow> bool" where
  "holds h rc its \<longleftrightarrow> (\<exists>xs. cache_ok h rc xs \<and> its = map (item rc) xs)"

definition is_item :: "u8 list \<Rightarrow> u32 \<Rightarrow> u32 \<Rightarrow> item \<Rightarrow> bool" where
  "is_item key auxkey1 auxkey2 = (\<lambda>(k, a1, a2, d). k = key \<and> a1 = auxkey1 \<and> a2 = auxkey2)"

definition put_items :: "(item \<Rightarrow> int) \<Rightarrow> int \<Rightarrow> u8 list \<Rightarrow> nat \<Rightarrow> u32 \<Rightarrow> u32 \<Rightarrow> item list \<Rightarrow> item list" where
  "put_items sz limit key data auxkey1 auxkey2 its =
     (if find (is_item key auxkey1 auxkey2) its \<noteq> None then its
      else evict sz limit (filter (\<lambda>it. fst it \<noteq> key) its @ [(key, auxkey1, auxkey2, data)]))"

text \<open>Whether a document is taken in: its key was seen last at its place, or the cache is not nearly full.\<close>

definition admits :: "RamCache \<Rightarrow> u8 list \<Rightarrow> bool" where
  "admits rc key \<longleftrightarrow> seen (one_partition rc) ! nat (uint (key_word key 3) mod seen_size rc) = ucast (key_word key 3)
     \<or> cur_bytes (one_partition rc) + RAM_CACHE_FAST_LOAD_SIZE < rc_bytes rc"

text \<open>The entry \<open>e\<close> is not in use, and the counter of bytes stays below 2 to the 31 with the data added.\<close>

definition ready :: "ioheap \<Rightarrow> RamCache \<Rightarrow> nat \<Rightarrow> nat \<Rightarrow> bool" where
  "ready h rc data e \<longleftrightarrow> (\<exists>xs. cache_ok h rc xs \<and> e \<notin> set xs) \<and> 0 \<le> rc_bytes rc
     \<and> cur_bytes (one_partition rc) + data_block_size h data < 2 ^ 31
     \<and> cur_bytes (one_partition rc) + RAM_CACHE_FAST_LOAD_SIZE < 2 ^ 31"

lemma item_size_item: "item_size h (item rc a) = size_of h rc a"
  by (simp add: item_size_def item_def size_of_def)

lemma is_item_item: "is_item key auxkey1 auxkey2 (item rc a) = entry_matches rc key auxkey1 auxkey2 a"
  by (simp add: is_item_def item_def entry_matches_def)

lemma fst_item: "fst (item rc a) = e_key (entries rc a)"
  by (simp add: item_def)

lemma cache_ok_unique: "cache_ok h rc xs \<Longrightarrow> cache_ok h rc ys \<Longrightarrow> xs = ys"
  using cache_okD(5) dll_rep_unique unfolding queue_rep_def by blast

lemma item_cong: "entries rc' a = entries rc a \<Longrightarrow> item rc' a = item rc a"
  by (simp add: item_def)

lemma find_map_None: "find P (map f xs) \<noteq> None \<longleftrightarrow> (\<exists>x\<in>set xs. P (f x))"
  by (auto simp: find_None_iff)

lemma evict_subset: "set (evict f limit xs) \<subseteq> set xs"
  by (induction xs) auto

lemma evict_fits: "0 \<le> limit \<Longrightarrow> (\<Sum>x\<leftarrow>evict f limit xs. f x) \<le> limit"
  by (induction xs) simp_all

lemma insert_ok:
  assumes ok: "cache_ok h rc xs" and e: "e \<notin> set xs" and new: "\<not> (\<exists>a\<in>set xs. entry_matches rc key auxkey1 auxkey2 a)"
    and lim: "0 \<le> rc_bytes rc" and fits: "cur_bytes (one_partition rc) + data_block_size h data < 2 ^ 31"
  shows "\<exists>rc2 rc3. put_scan h key auxkey1 auxkey2 (bucket_head rc key) rc = Some (False, rc2)
    \<and> evict_loop h (add_entry h key data auxkey1 auxkey2 e rc2) = Some rc3 \<and> same_params rc rc3
    \<and> holds h rc3 (put_items (item_size h) (rc_bytes rc) key data auxkey1 auxkey2 (map (item rc) xs))
    \<and> cur_bytes (one_partition rc3) \<le> rc_bytes rc"
proof -
  define zs where "zs = filter (\<lambda>a. e_key (entries rc a) \<noteq> key) xs"
  obtain rc2 where s: "put_scan h key auxkey1 auxkey2 (bucket_head rc key) rc = Some (False, rc2)" "cache_ok h rc2 zs" "same_params rc rc2"
    "\<forall>x. e_key (entries rc x) \<noteq> key \<longrightarrow> entries rc2 x = entries rc x"
    using put_scan_ok[OF ok, of key auxkey1 auxkey2] new by (auto simp: zs_def)
  have z: "entries rc2 x = entries rc x" if "x \<in> set zs" for x using s(4) that by (simp add: zs_def)
  have "(\<Sum>a\<leftarrow>zs. size_of h rc a) \<le> (\<Sum>a\<leftarrow>xs. size_of h rc a)"
    unfolding zs_def by (induction xs) (auto simp: size_of_def data_block_size_nonneg add_increasing)
  moreover have "(\<Sum>a\<leftarrow>zs. size_of h rc2 a) = (\<Sum>a\<leftarrow>zs. size_of h rc a)" using z by (metis (mono_tags, lifting) map_cong size_of_def)
  ultimately have fits2: "cur_bytes (one_partition rc2) + data_block_size h data < 2 ^ 31" using fits cache_okD(11)[OF ok] cache_okD(11)[OF s(2)] by simp
  have e2: "e \<notin> set zs" using e by (simp add: zs_def)
  have k2: "key \<notin> (\<lambda>a. e_key (entries rc2 a)) ` set zs" using z by (auto simp: zs_def)
  define rc' where "rc' = add_entry h key data auxkey1 auxkey2 e rc2"
  have A: "cache_ok h rc' (zs @ [e])" "same_params rc2 rc'"
    "entries rc' = (entries rc2)(e := \<lparr>e_key = key, e_auxkey1 = auxkey1, e_auxkey2 = auxkey2, e_data = Some data\<rparr>)"
    using add_ok[OF s(2) e2 k2 fits2 rc'_def] by simp_all
  have lim': "rc_bytes rc' = rc_bytes rc" using s(3) A(2) by (simp add: same_params_def)
  let ?ev = "evict (size_of h rc') (rc_bytes rc) (zs @ [e])"
  obtain rc3 where E: "evict_loop h rc' = Some rc3" "cache_ok h rc3 ?ev" "same_params rc' rc3" "\<forall>x\<in>set ?ev. entries rc3 x = entries rc' x"
    using evict_ok[OF A(1)] lim lim' by auto
  have "map (item rc3) ?ev = map (item rc') ?ev" using E(4) item_cong by (metis (mono_tags, lifting) map_cong)
  also have "\<dots> = evict (item_size h) (rc_bytes rc) (map (item rc') (zs @ [e]))" by (simp only: evict_map item_size_item)
  also have "map (item rc') (zs @ [e]) = map (item rc) zs @ [(key, auxkey1, auxkey2, data)]" using z e2 A(3) by (auto simp: item_def)
  also have "map (item rc) zs = filter (\<lambda>it. fst it \<noteq> key) (map (item rc) xs)" by (simp add: zs_def filter_map comp_def fst_item)
  finally have "holds h rc3 (put_items (item_size h) (rc_bytes rc) key data auxkey1 auxkey2 (map (item rc) xs))"
    using E(2) new unfolding holds_def put_items_def find_map_None is_item_item by metis
  moreover have "(\<Sum>x\<leftarrow>?ev. size_of h rc3 x) = (\<Sum>x\<leftarrow>?ev. size_of h rc' x)" using E(4) by (metis (mono_tags, lifting) map_cong size_of_def)
  then have "cur_bytes (one_partition rc3) \<le> rc_bytes rc" using cache_okD(11)[OF E(2)] evict_fits[OF lim, of "size_of h rc'" "zs @ [e]"] by simp
  moreover have "same_params rc rc3" using s(3) A(2) E(3) by (simp add: same_params_def)
  ultimately show ?thesis using s(1) E(1) unfolding rc'_def by blast
qed

section \<open>The contract of a cache of documents\<close>

locale document_cache =
  fixes keeps :: "'s \<Rightarrow> item list \<Rightarrow> bool"
    and accepts :: "'s \<Rightarrow> u8 list \<Rightarrow> bool"
    and prepared :: "'s \<Rightarrow> nat \<Rightarrow> nat \<Rightarrow> bool"
    and limit :: "'s \<Rightarrow> int"
    and sz :: "item \<Rightarrow> int"
    and get :: "u8 list \<Rightarrow> u32 \<Rightarrow> u32 \<Rightarrow> 's \<Rightarrow> (int \<times> nat option \<times> 's) option"
    and put :: "u8 list \<Rightarrow> nat \<Rightarrow> u32 \<Rightarrow> u32 \<Rightarrow> nat \<Rightarrow> 's \<Rightarrow> (int \<times> 's) option"
  assumes get_keeps: "keeps s its \<Longrightarrow>
      \<exists>s'. get key a1 a2 s = (case find (is_item key a1 a2) its of None \<Rightarrow> Some (0, None, s) | Some it \<Rightarrow> Some (1, Some (snd (snd (snd it))), s'))
        \<and> keeps s' (case find (is_item key a1 a2) its of None \<Rightarrow> its | Some it \<Rightarrow> filter (\<lambda>x. fst x \<noteq> key) its @ [it])"
    and put_keeps: "keeps s its \<Longrightarrow> prepared s d e \<Longrightarrow>
      \<exists>s'. put key d a1 a2 e s = Some (if accepts s key then 1 else 0, s')
        \<and> keeps s' (if accepts s key then put_items sz (limit s) key d a1 a2 its else its)"
    and sz_nonneg: "0 \<le> sz it"
begin

lemma evict_last: "sz x \<le> m \<Longrightarrow> \<exists>zs. evict sz m (xs @ [x]) = zs @ [x] \<and> set zs \<subseteq> set xs"
proof (induction xs)
  case (Cons y ys)
  then obtain zs where "evict sz m (ys @ [x]) = zs @ [x]" "set zs \<subseteq> set ys" by blast
  then show ?case by (cases "(\<Sum>z\<leftarrow>y # ys @ [x]. sz z) > m") auto
qed simp

lemma evict_all: "m < sz x \<Longrightarrow> evict sz m (xs @ [x]) = []"
proof (induction xs)
  case (Cons y ys)
  have "0 \<le> (\<Sum>z\<leftarrow>ys. sz z)" by (induction ys) (simp_all add: sz_nonneg)
  then show ?case using Cons sz_nonneg[of y] by simp
qed simp

lemma find_new:
  assumes "\<forall>it\<in>set zs. fst it \<noteq> key"
  shows "find (is_item key a1 a2) (zs @ [(key, a1, a2, d)]) = Some (key, a1, a2, d)"
  using assms by (induction zs) (auto simp: is_item_def)

text \<open>A new document that was accepted is found again, unless it alone is above the limit.\<close>

lemma put_get:
  assumes "keeps s its" "prepared s d e" "accepts s key" "find (is_item key a1 a2) its = None"
  shows "\<exists>s' s''. put key d a1 a2 e s = Some (1, s') \<and>
    get key a1 a2 s' = Some (if sz (key, a1, a2, d) \<le> limit s then (1, Some d, s'') else (0, None, s'))"
proof -
  let ?rest = "filter (\<lambda>it. fst it \<noteq> key) its"
  obtain s' where p: "put key d a1 a2 e s = Some (1, s')" "keeps s' (evict sz (limit s) (?rest @ [(key, a1, a2, d)]))"
    using put_keeps[OF assms(1,2), of key a1 a2] assms(3,4) by (auto simp: put_items_def)
  show ?thesis
  proof (cases "sz (key, a1, a2, d) \<le> limit s")
    case True
    obtain zs where z: "evict sz (limit s) (?rest @ [(key, a1, a2, d)]) = zs @ [(key, a1, a2, d)]" "set zs \<subseteq> set ?rest"
      using evict_last[OF True] by blast
    have "find (is_item key a1 a2) (zs @ [(key, a1, a2, d)]) = Some (key, a1, a2, d)" using z(2) by (intro find_new) auto
    then obtain s'' where "get key a1 a2 s' = Some (1, Some d, s'')" using get_keeps[OF p(2), of key a1 a2] z(1) by auto
    then show ?thesis using p(1) True by auto
  next
    case False
    then have "evict sz (limit s) (?rest @ [(key, a1, a2, d)]) = []" by (intro evict_all) simp
    then have "get key a1 a2 s' = Some (0, None, s')" using get_keeps[OF p(2), of key a1 a2] by auto
    then show ?thesis using p(1) False by auto
  qed
qed

end

lemma ram_put_holds:
  assumes "holds h rc its" "ready h rc data e"
  shows "\<exists>rc'. ram_put h key data auxkey1 auxkey2 e rc = Some (if admits rc key then 1 else 0, rc')
    \<and> holds h rc' (if admits rc key then put_items (item_size h) (rc_bytes rc) key data auxkey1 auxkey2 its else its)
    \<and> rc_bytes rc' = rc_bytes rc \<and> (cur_bytes (one_partition rc) \<le> rc_bytes rc \<longrightarrow> cur_bytes (one_partition rc') \<le> rc_bytes rc)
    \<and> seen (one_partition rc') = (seen (one_partition rc))[nat (uint (key_word key 3) mod seen_size rc) := ucast (key_word key 3)]"
proof -
  obtain xs where xs: "cache_ok h rc xs" "its = map (item rc) xs" using assms(1) by (auto simp: holds_def)
  have R: "e \<notin> set xs" "0 \<le> rc_bytes rc" "cur_bytes (one_partition rc) + data_block_size h data < 2 ^ 31"
      "cur_bytes (one_partition rc) + RAM_CACHE_FAST_LOAD_SIZE < 2 ^ 31"
    using assms(2) cache_ok_unique[OF xs(1)] by (auto simp: ready_def)
  note D = cache_okD[OF xs(1)]
  let ?s = "nat (uint (key_word key 3) mod seen_size rc)"
  define rc1 where "rc1 = upd_part (\<lambda>p. p\<lparr>seen := (seen p)[?s := ucast (key_word key 3)]\<rparr>) rc"
  have items1: "item rc1 = item rc" "bucket_head rc1 = bucket_head rc" "size_of h rc1 = size_of h rc"
    by (auto simp: rc1_def item_def bucket_head_def bucket_index_def size_of_def)
  have b1: "buckets_ok rc1 A = buckets_ok rc A" for A by (simp add: rc1_def buckets_ok_def bucket_index_def)
  have ok1: "cache_ok h rc1 xs" using xs(1) items1(3) b1 by (simp add: cache_ok_def rc1_def)
  have seen: "uint (key_word key 3) smod seen_size rc = uint (key_word key 3) mod seen_size rc" using D(3) by (simp add: smod_nonneg)
  have "c_int (cur_bytes (one_partition rc) + RAM_CACHE_FAST_LOAD_SIZE) = cur_bytes (one_partition rc) + RAM_CACHE_FAST_LOAD_SIZE"
    using R(4) D(11) sizes_nonneg[of h rc xs] by (intro c_int_id) (simp_all add: RAM_CACHE_FAST_LOAD_SIZE_def)
  then have put: "ram_put h key data auxkey1 auxkey2 e rc = (if \<not> admits rc key then Some (0, rc1)
      else do {
        (present, rc2) \<leftarrow> put_scan h key auxkey1 auxkey2 (bucket_head rc1 key) rc1;
        if present then Some (1, rc2)
        else do { rc3 \<leftarrow> evict_loop h (add_entry h key data auxkey1 auxkey2 e rc2); Some (1, rc3) }
      })"
    using D(1) unfolding ram_put_def Let_def seen rc1_def[symmetric] admits_def by (auto simp: rc1_def)
  have keep: "holds h rc1 its" "rc_bytes rc1 = rc_bytes rc" "cur_bytes (one_partition rc1) = cur_bytes (one_partition rc)"
    "seen (one_partition rc1) = (seen (one_partition rc))[?s := ucast (key_word key 3)]"
    using ok1 xs(2) items1(1) by (auto simp: holds_def rc1_def)
  consider "\<not> admits rc key" | "admits rc key" "\<exists>a\<in>set xs. entry_matches rc1 key auxkey1 auxkey2 a"
    | "admits rc key" "\<not> (\<exists>a\<in>set xs. entry_matches rc1 key auxkey1 auxkey2 a)" by blast
  then show ?thesis
  proof cases
    case 1
    then show ?thesis using put keep by (intro exI[of _ rc1]) simp
  next
    case 2
    then have "put_scan h key auxkey1 auxkey2 (bucket_head rc1 key) rc1 = Some (True, rc1)" using put_scan_ok[OF ok1, of key auxkey1 auxkey2] by auto
    moreover have "put_items (item_size h) (rc_bytes rc) key data auxkey1 auxkey2 its = its"
      using 2(2) by (simp add: put_items_def xs(2) find_map_None is_item_item[symmetric] items1(1) del: not_None_eq)
    ultimately show ?thesis using put 2(1) keep by (intro exI[of _ rc1]) simp
  next
    case 3
    have "cur_bytes (one_partition rc1) + data_block_size h data < 2 ^ 31" "0 \<le> rc_bytes rc1" using R keep by simp_all
    from insert_ok[OF ok1 R(1) 3(2) this(2,1)] obtain rc2 rc3 where r: "put_scan h key auxkey1 auxkey2 (bucket_head rc1 key) rc1 = Some (False, rc2)"
      "evict_loop h (add_entry h key data auxkey1 auxkey2 e rc2) = Some rc3" "same_params rc1 rc3"
      "holds h rc3 (put_items (item_size h) (rc_bytes rc) key data auxkey1 auxkey2 its)" "cur_bytes (one_partition rc3) \<le> rc_bytes rc"
      unfolding items1(1) keep(2) xs(2)[symmetric] by blast
    then show ?thesis using put 3(1) keep by (intro exI[of _ rc3]) (simp add: same_params_def)
  qed
qed

lemma find_unique:
  assumes "a \<in> set ys" "P a" "\<forall>x\<in>set ys. P x \<longrightarrow> x = a"
  shows "find P ys = Some a"
proof -
  obtain b where b: "find P ys = Some b" using assms(1,2) by (cases "find P ys") (auto simp: find_None_iff)
  then have "b \<in> set ys \<and> P b" by (auto simp: find_Some_iff)
  then show ?thesis using assms(3) b by metis
qed

lemma touch_ok:
  assumes ok: "cache_ok h rc (us @ a # vs)" and rc': "rc' = upd_lru (queue_enqueue a) (upd_lru (queue_remove a) rc)"
  shows "cache_ok h rc' (us @ vs @ [a]) \<and> entries rc' = entries rc"
proof -
  note D = cache_okD[OF ok]
  obtain l q where q: "queue_remove a (lru_link rc, lru (one_partition rc)) = (l, q)" by fastforce
  obtain l' q' where q': "queue_enqueue a (l, q) = (l', q')" by fastforce
  have sel: "lru_link rc' = l'" "lru (one_partition rc') = q'" "entries rc' = entries rc" "hash_link rc' = hash_link rc"
    "bucket (one_partition rc') = bucket (one_partition rc)" "seen (one_partition rc') = seen (one_partition rc)" "seen_size rc' = seen_size rc"
    "partition_size rc' = partition_size rc" "cur_bytes (one_partition rc') = cur_bytes (one_partition rc)"
    using q q' unfolding rc' by (simp_all add: upd_lru_def)
  have dx: "distinct (us @ a # vs)" by (rule cache_distinct[OF ok])
  have R: "queue_rep l q (us @ vs)" "unlinked l a" using queue_remove_rep[OF D(5) q] by simp_all
  have a: "a \<notin> set (us @ vs)" using dx by simp
  have "queue_rep l' q' (us @ vs @ [a])" using que.touch_moves_to_back[OF D(5) q q'] .
  moreover have "buckets_ok rc' (set (us @ vs @ [a]))" using D(6) by (simp add: buckets_ok_def bucket_index_def sel insert_commute Un_commute)
  moreover have "unlinked (hash_link rc') x \<and> unlinked (lru_link rc') x" if "x \<notin> set (us @ vs @ [a])" for x
    using that D(7,8)[of x] unlinked_frame[OF queue_remove_frame[OF D(5) q], of x] unlinked_frame[OF queue_enqueue_frame[OF R(1) q' a R(2)], of x] by (simp add: sel)
  moreover have "size_of h rc' = size_of h rc" by (simp add: size_of_def sel fun_eq_iff)
  ultimately have "cache_ok h rc' (us @ vs @ [a])"
    using D(1-4,9-12) unfolding cache_ok_def by (simp add: sel)
  then show ?thesis using sel by simp
qed

lemma matching_entry:
  assumes ok: "cache_ok h rc xs"
  shows "(\<exists>us a vs. xs = us @ a # vs \<and> entry_matches rc key auxkey1 auxkey2 a \<and>
      bucket_find (entry_matches rc key auxkey1 auxkey2) (hash_link rc) (bucket_head rc key) = Some (Some a) \<and>
      find (is_item key auxkey1 auxkey2) (map (item rc) xs) = Some (item rc a))
    \<or> (bucket_find (entry_matches rc key auxkey1 auxkey2) (hash_link rc) (bucket_head rc key) = Some None \<and>
      find (is_item key auxkey1 auxkey2) (map (item rc) xs) = None)"
proof -
  let ?P = "entry_matches rc key auxkey1 auxkey2"
  obtain ys where ys: "dll_rep (hash_link rc) (bucket (one_partition rc) ! bucket_index rc key) ys"
      "set ys = {a \<in> set xs. bucket_index rc (e_key (entries rc a)) = bucket_index rc key}"
    using bucket_of[OF ok, of key] by blast
  have f: "bucket_find ?P (hash_link rc) (bucket_head rc key) = Some (find ?P ys)"
    using ys(1) by (intro bucket_find_lseg[of _ None]) (simp add: dll_rep_def bucket_head_def)
  show ?thesis
  proof (cases "\<exists>a\<in>set xs. ?P a")
    case True
    then obtain a where a: "a \<in> set xs" "?P a" by blast
    have inj: "inj_on (\<lambda>a. e_key (entries rc a)) (set xs)" using cache_okD(10)[OF ok] by (simp add: distinct_map)
    have u: "x = a" if "x \<in> set xs" "?P x" for x using inj that a by (auto simp: entry_matches_def inj_on_def)
    have "a \<in> set ys" using a ys(2) by (simp add: entry_matches_def)
    moreover have "\<forall>x\<in>set ys. ?P x \<longrightarrow> x = a" using u ys(2) by blast
    ultimately have "find ?P ys = Some a" using a(2) by (metis find_unique)
    moreover have "\<forall>it\<in>set (map (item rc) xs). is_item key auxkey1 auxkey2 it \<longrightarrow> it = item rc a"
      using u unfolding set_map ball_simps is_item_item by metis
    then have "find (is_item key auxkey1 auxkey2) (map (item rc) xs) = Some (item rc a)"
      using a by (intro find_unique) (simp_all only: set_map imageI is_item_item)
    ultimately show ?thesis using f a split_list[OF a(1)] by auto
  next
    case False
    then have "find ?P ys = None" using ys(2) by (auto simp: find_None_iff)
    moreover have "find (is_item key auxkey1 auxkey2) (map (item rc) xs) = None" using False by (auto simp: find_None_iff is_item_item)
    ultimately show ?thesis using f by simp
  qed
qed

lemma ram_get_holds:
  assumes "holds h rc its"
  shows "\<exists>rc'. ram_get key auxkey1 auxkey2 rc = (case find (is_item key auxkey1 auxkey2) its of
        None \<Rightarrow> Some (0, None, rc) | Some it \<Rightarrow> Some (1, Some (snd (snd (snd it))), rc'))
    \<and> holds h rc' (case find (is_item key auxkey1 auxkey2) its of None \<Rightarrow> its | Some it \<Rightarrow> filter (\<lambda>x. fst x \<noteq> key) its @ [it])"
proof -
  obtain xs where xs: "cache_ok h rc xs" "its = map (item rc) xs" using assms by (auto simp: holds_def)
  have ps: "partition_size rc \<noteq> 0" using cache_okD(1)[OF xs(1)] by simp
  from matching_entry[OF xs(1), of key auxkey1 auxkey2] show ?thesis
  proof (elim disjE exE conjE, goal_cases)
    case (1 us a vs)
    define rc' where "rc' = upd_lru (queue_enqueue a) (upd_lru (queue_remove a) rc)"
    have t: "cache_ok h rc' (us @ vs @ [a])" "entries rc' = entries rc" using touch_ok[OF _ rc'_def] xs(1) 1(1) by auto
    have i: "item rc' = item rc" using t(2) by (simp add: item_def fun_eq_iff)
    have d: "e_data (entries rc a) = Some (the (e_data (entries rc a)))" using cache_okD(9)[OF xs(1), of a] 1(1) by auto
    have k: "e_key (entries rc a) = key" using 1(2) by (simp add: entry_matches_def)
    have "filter (\<lambda>x. e_key (entries rc x) \<noteq> key) xs = us @ vs"
      using filter_other_keys[of "\<lambda>a. e_key (entries rc a)" us a vs] cache_okD(10)[OF xs(1)] unfolding 1(1) k by simp
    then have "filter (\<lambda>x. fst x \<noteq> key) its = map (item rc) (us @ vs)" unfolding xs(2) filter_map comp_def fst_item by (simp only:)
    then have "holds h rc' (filter (\<lambda>x. fst x \<noteq> key) its @ [item rc a])" using t(1) i unfolding holds_def by (intro exI[of _ "us @ vs @ [a]"]) simp
    then show ?case using 1(3,4) ps xs(2) d by (intro exI[of _ rc']) (simp add: ram_get_def rc'_def item_def)
  next
    case 2
    then show ?case using ps xs assms by (intro exI[of _ rc]) (simp add: ram_get_def)
  qed
qed

lemma ram_fixup_holds:
  assumes "holds h rc its"
  shows "\<exists>rc'. ram_fixup key o1 o2 n1 n2 rc = Some (if find (is_item key o1 o2) its = None then 0 else 1, rc')
    \<and> holds h rc' (map (\<lambda>it. if is_item key o1 o2 it then (key, n1, n2, snd (snd (snd it))) else it) its)"
proof -
  obtain xs where xs: "cache_ok h rc xs" "its = map (item rc) xs" using assms by (auto simp: holds_def)
  have ps: "partition_size rc \<noteq> 0" using cache_okD(1)[OF xs(1)] by simp
  from matching_entry[OF xs(1), of key o1 o2] show ?thesis
  proof (elim disjE exE conjE, goal_cases)
    case (1 us a vs)
    define rc' where "rc' = rc\<lparr>entries := (entries rc)(a := (entries rc a)\<lparr>e_auxkey1 := n1, e_auxkey2 := n2\<rparr>)\<rparr>"
    have same: "e_key (entries rc' x) = e_key (entries rc x)" "e_data (entries rc' x) = e_data (entries rc x)" for x by (simp_all add: rc'_def)
    have "buckets_ok rc' (set xs) = buckets_ok rc (set xs)" by (simp add: buckets_ok_def bucket_index_def same) (simp add: rc'_def)
    moreover have "size_of h rc' = size_of h rc" by (simp add: size_of_def same fun_eq_iff)
    ultimately have ok: "cache_ok h rc' xs" using xs(1) unfolding cache_ok_def by (simp add: same) (simp add: rc'_def)
    have inj: "inj_on (\<lambda>a. e_key (entries rc a)) (set xs)" using cache_okD(10)[OF xs(1)] by (simp add: distinct_map)
    have u: "is_item key o1 o2 (item rc x) \<longleftrightarrow> x = a" if "x \<in> set xs" for x
      using inj that 1(1,2) by (auto simp: is_item_item entry_matches_def inj_on_def)
    have "map (item rc') xs = map (\<lambda>it. if is_item key o1 o2 it then (key, n1, n2, snd (snd (snd it))) else it) its"
      using u 1(2) by (auto simp: xs(2) rc'_def item_def entry_matches_def)
    then show ?case using ok 1(3,4) ps xs(2) unfolding holds_def ram_fixup_def by (intro exI[of _ rc']) (auto simp: rc'_def)
  next
    case 2
    then have m: "map (\<lambda>it. if is_item key o1 o2 it then (key, n1, n2, snd (snd (snd it))) else it) its = its"
      using xs(2) by (intro map_idI) (auto simp: find_None_iff)
    show ?case unfolding m using 2 ps xs assms by (intro exI[of _ rc]) (simp add: ram_fixup_def)
  qed
qed

lemma ram_init_ok:
  assumes "0 < aobjects"
  shows "cache_ok h (ram_init abytes aobjects cutoff new_RamCache) []"
  using assms by (simp add: cache_ok_def ram_init_def new_RamCache_def upd_part_def RAM_CACHE_SEEN_PER_OBJECT_def queue_rep_def dll_rep_def
      unlinked_def buckets_ok_def link_simps)

interpretation ram: document_cache "holds h" admits "ready h" rc_bytes "item_size h" ram_get "ram_put h" for h
proof (unfold_locales, goal_cases)
  case (1 s its key a1 a2)
  then show ?case by (rule ram_get_holds)
next
  case (2 s its d e key a1 a2)
  then show ?case using ram_put_holds[of h s its d e key a1 a2] by blast
next
  case (3 it)
  then show ?case by (simp add: item_size_def data_block_size_nonneg split: prod.splits)
qed

section \<open>Sequences of operations\<close>

inductive ram_reach :: "ioheap \<Rightarrow> int \<Rightarrow> RamCache \<Rightarrow> bool" for h :: ioheap and abytes :: int where
  init: "0 < aobjects \<Longrightarrow> ram_reach h abytes (ram_init abytes aobjects cutoff new_RamCache)"
| get: "ram_reach h abytes rc \<Longrightarrow> ram_get key a1 a2 rc = Some (r, d, rc') \<Longrightarrow> ram_reach h abytes rc'"
| put: "ram_reach h abytes rc \<Longrightarrow> ready h rc data e \<Longrightarrow> ram_put h key data a1 a2 e rc = Some (r, rc') \<Longrightarrow> ram_reach h abytes rc'"
| fixup: "ram_reach h abytes rc \<Longrightarrow> ram_fixup key o1 o2 n1 n2 rc = Some (r, rc') \<Longrightarrow> ram_reach h abytes rc'"

lemma holds_sum: "holds h rc its \<Longrightarrow> cur_bytes (one_partition rc) = (\<Sum>it\<leftarrow>its. item_size h it)"
  using cache_okD(11) by (auto simp: holds_def item_size_item comp_def)

lemma get_fixup_keep:
  "ram_get key a1 a2 rc = Some (r, d, rc') \<Longrightarrow> rc_bytes rc' = rc_bytes rc \<and> cur_bytes (one_partition rc') = cur_bytes (one_partition rc)"
  "ram_fixup key o1 o2 n1 n2 rc = Some (r, rc') \<Longrightarrow> rc_bytes rc' = rc_bytes rc \<and> cur_bytes (one_partition rc') = cur_bytes (one_partition rc)"
  by (auto simp: ram_get_def ram_fixup_def split: if_splits option.splits bind_splits)

lemma ram_reach_inv: "ram_reach h abytes rc \<Longrightarrow> 0 \<le> abytes \<Longrightarrow>
    (\<exists>its. holds h rc its) \<and> rc_bytes rc = abytes \<and> cur_bytes (one_partition rc) \<le> abytes"
proof (induction rule: ram_reach.induct)
  case (init aobjects cutoff)
  then show ?case using ram_init_ok[of aobjects h abytes cutoff] cache_okD(11)[OF ram_init_ok[of aobjects h abytes cutoff]]
    by (auto simp: holds_def) (simp add: ram_init_def upd_part_def)
next
  case (get rc key a1 a2 r d rc')
  then obtain its where "holds h rc its" by blast
  from ram_get_holds[OF this, of key a1 a2] show ?case using get get_fixup_keep(1)[OF get(2)] by (auto split: option.splits)
next
  case (put rc data e key a1 a2 r rc')
  then obtain its where "holds h rc its" by blast
  from ram_put_holds[OF this put(2), of key a1 a2] show ?case using put by auto
next
  case (fixup rc key o1 o2 n1 n2 r rc')
  then obtain its where "holds h rc its" by blast
  from ram_fixup_holds[OF this, of key o1 o2 n1 n2] show ?case using fixup get_fixup_keep(2)[OF fixup(2)] by auto
qed

section \<open>Properties\<close>

text \<open>C7: \<^verbatim>\<open>RamCache::put\<close> returns, and does to the list of documents what its specification says: a document that is not
  admitted is not stored; one that is present is left as it is; otherwise the other documents under its key are
  dropped, the new one becomes the most recently used, and the oldest are evicted until the bytes are within the
  limit. The key is noted as seen in every case.\<close>

theorem ram_put_refines:
  assumes "holds h rc its" "ready h rc data e"
  shows "\<exists>rc'. ram_put h key data auxkey1 auxkey2 e rc = Some (if admits rc key then 1 else 0, rc')
    \<and> holds h rc' (if admits rc key then put_items (item_size h) (rc_bytes rc) key data auxkey1 auxkey2 its else its)
    \<and> rc_bytes rc' = rc_bytes rc \<and> (cur_bytes (one_partition rc) \<le> rc_bytes rc \<longrightarrow> cur_bytes (one_partition rc') \<le> rc_bytes rc)
    \<and> seen (one_partition rc') = (seen (one_partition rc))[nat (uint (key_word key 3) mod seen_size rc) := ucast (key_word key 3)]"
  using assms by (rule ram_put_holds)

text \<open>C14: \<^verbatim>\<open>RamCache::get\<close> returns; it finds exactly the document with the key and both auxiliary keys, returns its data and makes
  it the most recently used; a miss changes nothing.\<close>

theorem ram_get_refines:
  assumes "holds h rc its"
  shows "\<exists>rc'. ram_get key auxkey1 auxkey2 rc = (case find (is_item key auxkey1 auxkey2) its of
        None \<Rightarrow> Some (0, None, rc) | Some it \<Rightarrow> Some (1, Some (snd (snd (snd it))), rc'))
    \<and> holds h rc' (case find (is_item key auxkey1 auxkey2) its of None \<Rightarrow> its | Some it \<Rightarrow> filter (\<lambda>x. fst x \<noteq> key) its @ [it])"
  using assms by (rule ram_get_holds)

text \<open>C13: A new document that \<^verbatim>\<open>put\<close> admits is what \<^verbatim>\<open>get\<close> returns next, unless it alone is larger than the cache: then
  \<^verbatim>\<open>put\<close> has returned 1 for a document that is not there.\<close>

theorem ram_put_then_get:
  assumes "holds h rc its" "ready h rc data e" "admits rc key" "find (is_item key auxkey1 auxkey2) its = None"
  shows "\<exists>rc' rc''. ram_put h key data auxkey1 auxkey2 e rc = Some (1, rc') \<and>
    ram_get key auxkey1 auxkey2 rc' =
      Some (if item_size h (key, auxkey1, auxkey2, data) \<le> rc_bytes rc then (1, Some data, rc'') else (0, None, rc'))"
  using assms by (rule ram.put_get)

text \<open>C11: However the cache is used, from its initialisation on, its lists are consistent, its counter is the sum of the
  sizes of its documents, and the counter is never above the limit. Every \<^verbatim>\<open>put\<close> is given an entry that is not in use, and
  the counter is assumed to stay below 2 to the 31 while it runs (\<open>ready\<close>).\<close>

theorem ram_cache_bounded:
  assumes "ram_reach h abytes rc" "0 \<le> abytes"
  shows "(\<exists>its. holds h rc its \<and> cur_bytes (one_partition rc) = (\<Sum>it\<leftarrow>its. item_size h it)) \<and> cur_bytes (one_partition rc) \<le> abytes"
  using ram_reach_inv[OF assms] holds_sum by blast

section \<open>Witnesses\<close>

text \<open>A heap with one piece of data of 1024 bytes, an empty cache, and a key.\<close>

definition demo_heap :: ioheap where
  "demo_heap = \<lparr>datas = [\<lparr>d_size_index = 3, d_bytes = []\<rparr>], blocks = [], accessors = [], junk = (\<lambda>_ _. 0)\<rparr>"

definition demo_cache :: RamCache where
  "demo_cache = ram_init 100000 4 0 new_RamCache"

definition demo_key :: "u8 list" where
  "demo_key = [1, 2, 3, 4, 5, 6, 7, 8, 9, 10, 11, 12, 13, 14, 15, 16]"

lemma demo_holds: "holds demo_heap demo_cache []"
  using ram_init_ok[of 4 demo_heap 100000 0] by (auto simp: holds_def demo_cache_def)

lemma demo_sel: "rc_bytes demo_cache = 100000" "cur_bytes (one_partition demo_cache) = 0" "data_block_size demo_heap 0 = 1024"
  by code_simp+

lemma demo_ready: "ready demo_heap demo_cache 0 7"
  using ram_init_ok[of 4 demo_heap 100000 0] unfolding ready_def demo_sel RAM_CACHE_FAST_LOAD_SIZE_def by (auto simp: demo_cache_def)

lemma demo_admits: "admits demo_cache demo_key"
  by (simp add: admits_def demo_sel RAM_CACHE_FAST_LOAD_SIZE_def)

lemma demo_put_items: "put_items (item_size demo_heap) 100000 demo_key 0 1 2 [] = [(demo_key, 1, 2, 0)]"
  by (simp add: put_items_def item_size_def demo_sel)

theorem ram_put_refines_witness:
  "\<exists>rc'. ram_put demo_heap demo_key 0 1 2 7 demo_cache = Some (1, rc') \<and> holds demo_heap rc' [(demo_key, 1, 2, 0)]"
  using ram_put_refines[OF demo_holds demo_ready, of demo_key 1 2] demo_admits by (auto simp: demo_sel demo_put_items)

theorem ram_put_then_get_witness:
  "\<exists>rc' rc''. ram_put demo_heap demo_key 0 1 2 7 demo_cache = Some (1, rc') \<and> ram_get demo_key 1 2 rc' = Some (1, Some 0, rc'')"
  using ram_put_then_get[OF demo_holds demo_ready demo_admits, of 1 2] by (simp add: item_size_def demo_sel)

theorem ram_get_refines_witness:
  "let rc = snd (the (ram_put demo_heap demo_key 0 1 2 7 demo_cache))
   in \<exists>rc'. ram_get demo_key 1 2 rc = Some (1, Some 0, rc') \<and> holds demo_heap rc' [(demo_key, 1, 2, 0)]"
proof -
  obtain rc where r: "ram_put demo_heap demo_key 0 1 2 7 demo_cache = Some (1, rc)" "holds demo_heap rc [(demo_key, 1, 2, 0)]"
    using ram_put_holds[OF demo_holds demo_ready, of demo_key 1 2] demo_admits by (auto simp: demo_sel demo_put_items)
  show ?thesis using ram_get_refines[OF r(2), of demo_key 1 2] by (simp add: r(1) is_item_def)
qed

theorem ram_cache_bounded_witness:
  "(\<exists>its. holds demo_heap demo_cache its \<and> cur_bytes (one_partition demo_cache) = (\<Sum>it\<leftarrow>its. item_size demo_heap it))
    \<and> cur_bytes (one_partition demo_cache) \<le> 100000"
  using ram_cache_bounded[OF ram_reach.init[of 4 demo_heap 100000 0, folded demo_cache_def]] by simp

end
