(* ===== verification/Base64.thy ===== *)
theory Base64
  imports Prelude "HOL-Library.Monad_Syntax"
begin

unbundle bit_operations_syntax

text \<open>
  Base 64 (\<^verbatim>\<open>libinktomi++/ink_base64.cc\<close>): an encoder and a decoder that allocate their results, and a decoder and an
  encoder that work on a buffer of the caller.

  The input of an encoder is a list of bytes where the code stays within it. The two decoders and \<^verbatim>\<open>ink_base64_uuencode\<close> read
  behind the end of their input, so theirs is the memory from the pointer on, as a function of the distance; the output buffer of
  \<^verbatim>\<open>ink_base64_decode\<close> is a memory too, so that what it stores behind the buffer can be seen. A character is a
  \<^typ>\<open>u8\<close>, read with \<open>sint\<close> where the source uses it as a \<^verbatim>\<open>char\<close> and with \<open>uint\<close> where it is unsigned. \<^term>\<open>None\<close> is an
  access in front of a table or buffer, or a loop that does not end.
\<close>

type_synonym memory = "nat \<Rightarrow> u8"

section \<open>Encoding\<close>

definition codes :: "u8 list" where
  "codes = map (\<lambda>c. of_nat (of_char c)) ''ABCDEFGHIJKLMNOPQRSTUVWXYZabcdefghijklmnopqrstuvwxyz0123456789+/''"

definition pad :: u8 where "pad = 0x3D"

text \<open>The four characters of a group of three bytes.\<close>

definition encode_group :: "int \<Rightarrow> int \<Rightarrow> int \<Rightarrow> u8 list" where
  "encode_group x0 x1 x2 =
     [codes ! nat (drop_bit 2 x0 AND 63),
      codes ! nat (push_bit 4 (x0 AND 3) OR (drop_bit 4 x1 AND 15)),
      codes ! nat (push_bit 2 (x1 AND 15) OR (drop_bit 6 x2 AND 15)),
      codes ! nat (x2 AND 63)]"

fun ink_base64_encode_unsigned :: "u8 list \<Rightarrow> u8 list" where
  "ink_base64_encode_unsigned (a # b # c # input) = encode_group (uint a) (uint b) (uint c) @ ink_base64_encode_unsigned input"
| "ink_base64_encode_unsigned [] = []"
| "ink_base64_encode_unsigned [a] = (encode_group (sint a) 0 0)[2 := pad, 3 := pad]"
| "ink_base64_encode_unsigned [a, b] = (encode_group (sint a) (sint b) 0)[3 := pad]"

definition ink_base64_encode :: "u8 list \<Rightarrow> u8 list" where
  "ink_base64_encode input = ink_base64_encode_unsigned input"

section \<open>Decoding into allocated memory\<close>

definition decode_codes :: "int list" where
  "decode_codes =
     (let t = replicate 256 0;
          t = fold (\<lambda>(i, cc) t. t[i := cc]) (zip [0x41..<0x5B] [0..25]) t;
          t = fold (\<lambda>(i, cc) t. t[i := cc]) (zip [0x61..<0x7B] [26..51]) t;
          t = fold (\<lambda>(i, cc) t. t[i := cc]) (zip [0x30..<0x3A] [52..61]) t
      in t[0x2B := 62, 0x2F := 63])"

text \<open>The three bytes that the four values of a group give.\<close>

definition decode_group :: "(u8 \<Rightarrow> int) \<Rightarrow> u8 \<Rightarrow> u8 \<Rightarrow> u8 \<Rightarrow> u8 \<Rightarrow> u8 list" where
  "decode_group decode c0 c1 c2 c3 =
     [word_of_int (push_bit 2 (decode c0) OR drop_bit 4 (decode c1)),
      word_of_int (push_bit 4 (decode c1) OR drop_bit 2 (decode c2)),
      word_of_int (push_bit 6 (decode c2) OR decode c3)]"

definition cipher_length :: "memory \<Rightarrow> nat \<Rightarrow> nat" where
  "cipher_length input n = length (takeWhile (\<lambda>i. input i \<noteq> pad) [0..<n])"

fun decode_alloc_loop :: "memory \<Rightarrow> nat \<Rightarrow> u8 list" where
  "decode_alloc_loop input len =
     (if len > 0 then
        decode_group (\<lambda>c. decode_codes ! unat c) (input 0) (input 1) (input 2) (input 3) @ decode_alloc_loop (\<lambda>i. input (i + 4)) (len - 4)
      else [])"

declare decode_alloc_loop.simps [simp del]

text \<open>The bytes up to \<^verbatim>\<open>output_len\<close>, and the number of bytes that are allocated.\<close>

definition ink_base64_decode_alloc :: "memory \<Rightarrow> nat \<Rightarrow> u8 list \<times> int" where
  "ink_base64_decode_alloc input input_len =
     (let len = cipher_length input input_len
      in (decode_alloc_loop input len, int len * 6 div 8 + 4))"

section \<open>Decoding into a buffer\<close>

definition printableToSixBit :: "int list" where
  "printableToSixBit =
    [64, 64, 64, 64, 64, 64, 64, 64, 64, 64, 64, 64, 64, 64, 64, 64, 64, 64, 64, 64, 64, 64, 64, 64, 64, 64, 64, 64, 64, 64, 64, 64,
     64, 64, 64, 64, 64, 64, 64, 64, 64, 64, 64, 62, 64, 64, 64, 63, 52, 53, 54, 55, 56, 57, 58, 59, 60, 61, 64, 64, 64, 64, 64, 64,
     64, 0, 1, 2, 3, 4, 5, 6, 7, 8, 9, 10, 11, 12, 13, 14, 15, 16, 17, 18, 19, 20, 21, 22, 23, 24, 25, 64, 64, 64, 64, 64,
     64, 26, 27, 28, 29, 30, 31, 32, 33, 34, 35, 36, 37, 38, 39, 40, 41, 42, 43, 44, 45, 46, 47, 48, 49, 50, 51, 64, 64, 64, 64, 64,
     64, 64, 64, 64, 64, 64, 64, 64, 64, 64, 64, 64, 64, 64, 64, 64, 64, 64, 64, 64, 64, 64, 64, 64, 64, 64, 64, 64, 64, 64, 64, 64,
     64, 64, 64, 64, 64, 64, 64, 64, 64, 64, 64, 64, 64, 64, 64, 64, 64, 64, 64, 64, 64, 64, 64, 64, 64, 64, 64, 64, 64, 64, 64, 64,
     64, 64, 64, 64, 64, 64, 64, 64, 64, 64, 64, 64, 64, 64, 64, 64, 64, 64, 64, 64, 64, 64, 64, 64, 64, 64, 64, 64, 64, 64, 64, 64,
     64, 64, 64, 64, 64, 64, 64, 64, 64, 64, 64, 64, 64, 64, 64, 64, 64, 64, 64, 64, 64, 64, 64, 64, 64, 64, 64, 64, 64, 64, 64, 64]"

definition MAX_PRINT_VAL :: int where "MAX_PRINT_VAL = 63"

definition DECODE :: "u8 \<Rightarrow> int" where
  "DECODE x = printableToSixBit ! unat x"

partial_function (option) count_input :: "memory \<Rightarrow> nat \<Rightarrow> nat option" where
  "count_input inBuffer inBytes =
     (if sint (inBuffer inBytes) < 0 then None
      else if printableToSixBit ! nat (sint (inBuffer inBytes)) \<le> MAX_PRINT_VAL then count_input inBuffer (inBytes + 1)
      else Some inBytes)"

declare count_input.simps [code]

text \<open>The output, the number of bytes decoded and the number of characters read.\<close>

function decode_loop :: "memory \<Rightarrow> int \<Rightarrow> nat \<Rightarrow> nat \<Rightarrow> memory \<Rightarrow> memory \<times> nat \<times> nat" where
  "decode_loop inBuffer inBytes i decodedBytes out =
     (if int i < inBytes then
        let bs = decode_group DECODE (inBuffer i) (inBuffer (i + 1)) (inBuffer (i + 2)) (inBuffer (i + 3))
        in decode_loop inBuffer inBytes (i + 4) (decodedBytes + 3)
             (out(decodedBytes := bs ! 0, decodedBytes + 1 := bs ! 1, decodedBytes + 2 := bs ! 2))
      else (out, decodedBytes, i))"
  by auto
termination
  by (relation "measure (\<lambda>(inBuffer, inBytes, i, decodedBytes, out). nat (inBytes - int i))") auto

declare decode_loop.simps [simp del]

definition ink_base64_decode :: "memory \<Rightarrow> int \<Rightarrow> memory \<Rightarrow> (int \<times> memory) option" where
  "ink_base64_decode inBuffer outBufSize outBuffer = do {
     n \<leftarrow> count_input inBuffer 0;
     let inBytes = (if ((int n + 3) sdiv 4) * 3 > outBufSize - 1 then ((outBufSize - 1) * 4) sdiv 3 else int n);
     let (out, decodedBytes, inputBytesDecoded) = decode_loop inBuffer inBytes 0 0 outBuffer;
     if (inBytes - int inputBytesDecoded) AND 3 \<noteq> 0 then
       if inputBytesDecoded < 2 then None
       else
         let d = (if DECODE (inBuffer (inputBytesDecoded - 2)) > MAX_PRINT_VAL then decodedBytes - 2 else decodedBytes - 1)
         in Some (int d, out(d := 0))
     else Some (int decodedBytes, out(decodedBytes := 0))
   }"

section \<open>Encoding a string of the caller\<close>

definition six2pr :: "u8 list" where
  "six2pr = map (\<lambda>c. of_nat (of_char c)) ''ABCDEFGHIJKLMNOPQRSTUVWXYZabcdefghijklmnopqrstuvwxyz0123456789+/''"

definition six2pr_at :: "int \<Rightarrow> u8 option" where
  "six2pr_at i = (if 0 \<le> i \<and> i < 64 then Some (six2pr ! nat i) else None)"

function uuencode_loop :: "memory \<Rightarrow> int \<Rightarrow> nat \<Rightarrow> (u8 list \<times> nat) option" where
  "uuencode_loop bufin nbytes i =
     (if int i < nbytes then do {
        c1 \<leftarrow> six2pr_at (drop_bit 2 (sint (bufin i)));
        c2 \<leftarrow> six2pr_at ((push_bit 4 (sint (bufin i)) AND 48) OR (drop_bit 4 (sint (bufin (i + 1))) AND 15));
        c3 \<leftarrow> six2pr_at ((push_bit 2 (sint (bufin (i + 1))) AND 60) OR (drop_bit 6 (sint (bufin (i + 2))) AND 3));
        c4 \<leftarrow> six2pr_at (sint (bufin (i + 2)) AND 63);
        (cs, j) \<leftarrow> uuencode_loop bufin nbytes (i + 3);
        Some ([c1, c2, c3, c4] @ cs, j)
      }
      else Some ([], i))"
  by auto
termination
  by (relation "measure (\<lambda>(bufin, nbytes, i). nat (nbytes - int i))") auto

declare uuencode_loop.simps [simp del]

definition ink_base64_uuencode :: "memory \<Rightarrow> int \<Rightarrow> u8 list option" where
  "ink_base64_uuencode bufin nbytes = do {
     (cs, i) \<leftarrow> uuencode_loop bufin nbytes 0;
     let n = length cs;
     Some (if int i = nbytes + 1 then cs[n - 1 := pad]
           else if int i = nbytes + 2 then cs[n - 1 := pad, n - 2 := pad]
           else cs)
   }"

end
