(* ===== verification/Base64_Main.thy ===== *)
theory Base64_Main
  imports Base64
begin

text \<open>
  Both decoders give back what was encoded; the decoder into a buffer stays within the buffer except for one byte when the size
  of the buffer is 2 modulo 3; the encoder of strings agrees with the allocating one where it is defined.
\<close>

section \<open>Tables\<close>

lemma codes_eq: "codes = [65, 66, 67, 68, 69, 70, 71, 72, 73, 74, 75, 76, 77, 78, 79, 80, 81, 82, 83, 84, 85, 86, 87, 88, 89, 90,
    97, 98, 99, 100, 101, 102, 103, 104, 105, 106, 107, 108, 109, 110, 111, 112, 113, 114, 115, 116, 117, 118, 119, 120, 121, 122,
    48, 49, 50, 51, 52, 53, 54, 55, 56, 57, 43, 47]"
  by (simp add: codes_def)

lemma codes_values: "map (\<lambda>c. printableToSixBit ! unat c) codes = [0..63]"
  unfolding codes_eq by code_simp

lemma codes_chars: "list_all (\<lambda>c. unat c < 128 \<and> c \<noteq> pad) codes"
  unfolding codes_eq by code_simp

lemma codes_length: "length codes = 64"
  by (simp add: codes_eq)

lemma decode_codes_eq: "decode_codes = map (\<lambda>v. if v \<le> 63 then v else 0) printableToSixBit"
  by code_simp

lemma codes_at:
  assumes "0 \<le> v" "v < 64"
  shows "DECODE (codes ! nat v) = v" "decode_codes ! unat (codes ! nat v) = v" "codes ! nat v \<noteq> pad" "0 \<le> sint (codes ! nat v)"
proof -
  have n: "nat v < length codes" using assms by (simp add: codes_length nat_less_iff)
  have "printableToSixBit ! unat (codes ! nat v) = [0..63] ! nat v" unfolding codes_values[symmetric] using n by simp
  also have "\<dots> = v" using assms by (simp add: nth_upto)
  finally have t: "unat (codes ! nat v) < 128" "printableToSixBit ! unat (codes ! nat v) = v" "codes ! nat v \<noteq> pad"
    using codes_chars nth_mem[OF n] unfolding list_all_iff by blast+
  then show "DECODE (codes ! nat v) = v" "codes ! nat v \<noteq> pad" using assms by (simp_all add: DECODE_def)
  have l: "length printableToSixBit = 256" by (simp add: printableToSixBit_def)
  show "decode_codes ! unat (codes ! nat v) = v" using t assms l by (simp add: decode_codes_eq)
  have "uint (codes ! nat v) < 128" using t(1) by (metis of_nat_less_iff of_nat_numeral uint_nat)
  then show "0 \<le> sint (codes ! nat v)" by (simp add: sint_uint bit_iff_odd)
qed

lemma pad_decode: "DECODE pad = 64" "decode_codes ! unat pad = 0"
  by code_simp+

section \<open>A group\<close>

definition six :: "int \<Rightarrow> int \<Rightarrow> int \<Rightarrow> int list" where
  "six x0 x1 x2 = [drop_bit 2 x0 AND 63, push_bit 4 (x0 AND 3) OR (drop_bit 4 x1 AND 15), push_bit 2 (x1 AND 15) OR (drop_bit 6 x2 AND 15), x2 AND 63]"

lemma and_masks: "(x :: int) AND 63 = take_bit 6 x" "x AND 15 = take_bit 4 x" "x AND 3 = take_bit 2 x"
  by (simp_all add: take_bit_eq_mask mask_eq_exp_minus_1)

lemma six_range: "v \<in> set (six x0 x1 x2) \<Longrightarrow> 0 \<le> v \<and> v < 64"
proof -
  have "push_bit 4 (take_bit 2 x) < 2 ^ 6" "push_bit 2 (take_bit 4 x) < 2 ^ 6" "take_bit 4 x < 2 ^ 6" "take_bit 6 x < 64" for x :: int
    using take_bit_int_less_exp[of 2 x] take_bit_int_less_exp[of 4 x] take_bit_int_less_exp[of 6 x] by (simp_all add: push_bit_eq_mult)
  then show "v \<in> set (six x0 x1 x2) \<Longrightarrow> 0 \<le> v \<and> v < 64"
    using OR_upper[of _ 6] by (auto simp: six_def and_masks)
qed

lemma encode_group_six: "encode_group x0 x1 x2 = map (\<lambda>v. codes ! nat v) (six x0 x1 x2)"
  by (simp add: encode_group_def six_def)

lemma u8_eqI: "(\<And>n. n \<in> {0, 1, 2, 3, 4, 5, 6, 7} \<Longrightarrow> bit a n = bit b n) \<Longrightarrow> a = b" for a b :: u8
proof (rule bit_word_eqI)
  fix n assume "\<And>n. n \<in> {0, 1, 2, 3, 4, 5, 6, 7} \<Longrightarrow> bit a n = bit b n" "n < LENGTH(8)"
  moreover from this(2) have "n \<in> {0, 1, 2, 3, 4, 5, 6, 7}" by auto
  ultimately show "bit a n = bit b n" by blast
qed

lemma bytes_of_six:
  assumes "0 \<le> x2" "x2 < 256" "six x0 x1 x2 = [v0, v1, v2, v3]"
  shows "(word_of_int (push_bit 2 v0 OR drop_bit 4 v1) :: u8) = word_of_int x0"
    "(word_of_int (push_bit 4 v1 OR drop_bit 2 v2) :: u8) = word_of_int x1"
    "(word_of_int (push_bit 6 v2 OR v3) :: u8) = word_of_int x2"
proof -
  have x2: "\<not> bit x2 8" "\<not> bit x2 9" using assms(1,2) by (simp_all add: bit_iff_odd)
  have v: "v0 = take_bit 6 (drop_bit 2 x0)" "v1 = push_bit 4 (take_bit 2 x0) OR take_bit 4 (drop_bit 4 x1)"
    "v2 = push_bit 2 (take_bit 4 x1) OR take_bit 4 (drop_bit 6 x2)" "v3 = take_bit 6 x2"
    using assms(3) by (simp_all add: six_def and_masks)
  show "(word_of_int (push_bit 2 v0 OR drop_bit 4 v1) :: u8) = word_of_int x0"
    by (rule u8_eqI) (auto simp: v bit_simps simp flip: numeral_2_eq_2 numeral_3_eq_3)
  show "(word_of_int (push_bit 4 v1 OR drop_bit 2 v2) :: u8) = word_of_int x1"
    using x2 by (intro u8_eqI) (auto simp: v bit_simps simp flip: numeral_2_eq_2 numeral_3_eq_3)
  show "(word_of_int (push_bit 6 v2 OR v3) :: u8) = word_of_int x2"
    using x2 by (intro u8_eqI) (auto simp: v bit_simps simp flip: numeral_2_eq_2 numeral_3_eq_3)
qed

section \<open>Decoding what was encoded\<close>

text \<open>The memory holds the characters from its beginning on.\<close>

definition spells :: "memory \<Rightarrow> u8 list \<Rightarrow> bool" where
  "spells m cs \<longleftrightarrow> (\<forall>k < length cs. m k = cs ! k)"

lemma spells_append: "spells m (us @ vs) \<longleftrightarrow> spells m us \<and> spells (\<lambda>i. m (i + length us)) vs"
proof
  assume s: "spells m (us @ vs)"
  have "m (k + length us) = vs ! k" if "k < length vs" for k using s that nth_append_length_plus[of us vs k] by (simp add: spells_def add.commute)
  then show "spells m us \<and> spells (\<lambda>i. m (i + length us)) vs" using s by (auto simp: spells_def nth_append)
next
  assume s: "spells m us \<and> spells (\<lambda>i. m (i + length us)) vs"
  show "spells m (us @ vs)"
    unfolding spells_def
  proof (intro allI impI)
    fix k assume k: "k < length (us @ vs)"
    show "m k = (us @ vs) ! k"
    proof (cases "k < length us")
      case False
      then have "k - length us < length vs" using k by simp
      then have "m (k - length us + length us) = vs ! (k - length us)" using s unfolding spells_def by blast
      then show ?thesis using False by (simp add: nth_append)
    qed (use s in \<open>simp add: spells_def nth_append\<close>)
  qed
qed

lemma four: "length [c0, c1, c2, c3] = 4"
  by simp

lemma spells_four: "spells m [c0, c1, c2, c3] \<longleftrightarrow> m 0 = c0 \<and> m 1 = c1 \<and> m 2 = c2 \<and> m 3 = c3"
  by (auto simp: spells_def less_Suc_eq numeral_2_eq_2 numeral_3_eq_3)

text \<open>The decoding of groups with any table.\<close>

fun decode_groups :: "(u8 \<Rightarrow> int) \<Rightarrow> memory \<Rightarrow> nat \<Rightarrow> u8 list" where
  "decode_groups decode input len =
     (if len > 0 then decode_group decode (input 0) (input 1) (input 2) (input 3) @ decode_groups decode (\<lambda>i. input (i + 4)) (len - 4) else [])"

declare decode_groups.simps [simp del]

lemma decode_groups_pos: "0 < len \<Longrightarrow>
    decode_groups decode input len = decode_group decode (input 0) (input 1) (input 2) (input 3) @ decode_groups decode (\<lambda>i. input (i + 4)) (len - 4)"
  by (subst decode_groups.simps) simp

lemma decode_groups_0 [simp]: "decode_groups decode input 0 = []"
  by (subst decode_groups.simps) simp

lemma decode_group_length [simp]: "length (decode_group decode c0 c1 c2 c3) = 3"
  by (simp add: decode_group_def)

lemma decode_groups_length: "length (decode_groups decode input len) = 3 * ((len + 3) div 4)"
proof (induction decode input len rule: decode_groups.induct)
  case (1 decode input len)
  show ?case
  proof (cases "len > 0")
    case True
    have "(len + 3) div 4 = (len - 4 + 3) div 4 + 1"
    proof (cases "4 \<le> len")
      case True
      then obtain m where "len = m + 4" by (metis le_add_diff_inverse2)
      then show ?thesis by simp
    next
      case False
      then have "len \<in> {1, 2, 3}" using \<open>0 < len\<close> by auto
      then show ?thesis by auto
    qed
    then show ?thesis using 1[OF True] True by (simp add: decode_groups_pos)
  qed simp
qed

lemma decode_alloc_groups: "decode_alloc_loop input len = decode_groups (\<lambda>c. decode_codes ! unat c) input len"
proof (induction input len rule: decode_alloc_loop.induct)
  case (1 input len)
  show ?case
  proof (cases "len > 0")
    case True
    then show ?thesis using 1[OF True] by (subst decode_alloc_loop.simps) (simp add: decode_groups_pos)
  next
    case False
    then show ?thesis by (subst decode_alloc_loop.simps) simp
  qed
qed

definition plain_length :: "u8 list \<Rightarrow> nat" where
  "plain_length cs = length (takeWhile (\<lambda>c. c \<noteq> pad) cs)"

lemma encode_group_parts:
  obtains v0 v1 v2 v3 where "six x0 x1 x2 = [v0, v1, v2, v3]" "encode_group x0 x1 x2 = [codes ! nat v0, codes ! nat v1, codes ! nat v2, codes ! nat v3]"
    "0 \<le> v0" "v0 < 64" "0 \<le> v1" "v1 < 64" "0 \<le> v2" "v2 < 64" "0 \<le> v3" "v3 < 64"
proof -
  obtain v0 v1 v2 v3 where s: "six x0 x1 x2 = [v0, v1, v2, v3]" by (simp add: six_def)
  then show ?thesis using that six_range[of v0 x0 x1 x2] six_range[of v1 x0 x1 x2] six_range[of v2 x0 x1 x2] six_range[of v3 x0 x1 x2]
    by (simp add: encode_group_six)
qed

lemma pad_upd: "[a, b, c, d][2 := x, 3 := y] = [a, b, x, y]" "[a, b, c, d][3 := y] = [a, b, c, y]"
  by (simp_all add: numeral_2_eq_2 numeral_3_eq_3)

lemma length_group: "length (a # b # c # xs) div 3 = length xs div 3 + 1" "length (a # b # c # xs) mod 3 = length xs mod 3"
  by simp_all

lemma encode_plain_length: "plain_length (ink_base64_encode_unsigned xs) = 4 * (length xs div 3) + (if length xs mod 3 = 0 then 0 else length xs mod 3 + 1)"
proof (induction xs rule: ink_base64_encode_unsigned.induct)
  case (1 a b c xs)
  obtain v0 v1 v2 v3 where "encode_group (uint a) (uint b) (uint c) = [codes ! nat v0, codes ! nat v1, codes ! nat v2, codes ! nat v3]"
    "0 \<le> v0" "v0 < 64" "0 \<le> v1" "v1 < 64" "0 \<le> v2" "v2 < 64" "0 \<le> v3" "v3 < 64" by (rule encode_group_parts)
  then have "plain_length (ink_base64_encode_unsigned (a # b # c # xs)) = 4 + plain_length (ink_base64_encode_unsigned xs)"
    by (simp add: plain_length_def codes_at(3))
  then show ?case using 1 by (simp only: length_group) simp
next
  case (3 a)
  obtain v0 v1 v2 v3 where "encode_group (sint a) 0 0 = [codes ! nat v0, codes ! nat v1, codes ! nat v2, codes ! nat v3]"
    "0 \<le> v0" "v0 < 64" "0 \<le> v1" "v1 < 64" "0 \<le> v2" "v2 < 64" "0 \<le> v3" "v3 < 64" by (rule encode_group_parts)
  then show ?case by (simp add: plain_length_def codes_at(3) pad_upd)
next
  case (4 a b)
  obtain v0 v1 v2 v3 where "encode_group (sint a) (sint b) 0 = [codes ! nat v0, codes ! nat v1, codes ! nat v2, codes ! nat v3]"
    "0 \<le> v0" "v0 < 64" "0 \<le> v1" "v1 < 64" "0 \<le> v2" "v2 < 64" "0 \<le> v3" "v3 < 64" by (rule encode_group_parts)
  then show ?case by (simp add: plain_length_def codes_at(3) pad_upd)
qed (simp add: plain_length_def)

locale alphabet =
  fixes decode :: "u8 \<Rightarrow> int"
  assumes decode_code: "0 \<le> v \<Longrightarrow> v < 64 \<Longrightarrow> decode (codes ! nat v) = v"
begin

lemma group_inverse:
  assumes "0 \<le> x2" "x2 < 256" "encode_group x0 x1 x2 = [c0, c1, c2, c3]"
  shows "decode_group decode c0 c1 d2 d3 ! 0 = word_of_int x0" "decode_group decode c0 c1 c2 d3 ! 1 = word_of_int x1"
    "decode_group decode c0 c1 c2 c3 = [word_of_int x0, word_of_int x1, word_of_int x2]"
proof -
  obtain v0 v1 v2 v3 where v: "six x0 x1 x2 = [v0, v1, v2, v3]" "encode_group x0 x1 x2 = [codes ! nat v0, codes ! nat v1, codes ! nat v2, codes ! nat v3]"
    "0 \<le> v0" "v0 < 64" "0 \<le> v1" "v1 < 64" "0 \<le> v2" "v2 < 64" "0 \<le> v3" "v3 < 64" by (rule encode_group_parts)
  have "c0 = codes ! nat v0" "c1 = codes ! nat v1" "c2 = codes ! nat v2" "c3 = codes ! nat v3" using assms(3) v(2) by simp_all
  then have d: "decode c0 = v0" "decode c1 = v1" "decode c2 = v2" "decode c3 = v3"
    using decode_code[OF v(3,4)] decode_code[OF v(5,6)] decode_code[OF v(7,8)] decode_code[OF v(9,10)] by (simp_all only:)
  note b = bytes_of_six[OF assms(1,2) v(1)]
  show "decode_group decode c0 c1 d2 d3 ! 0 = word_of_int x0" "decode_group decode c0 c1 c2 d3 ! 1 = word_of_int x1"
    "decode_group decode c0 c1 c2 c3 = [word_of_int x0, word_of_int x1, word_of_int x2]"
    unfolding decode_group_def d b by (simp_all only: nth_Cons_0 One_nat_def nth_Cons_Suc)
qed

lemma group_zero:
  assumes "encode_group x0 x1 0 = [c0, c1, c2, c3]"
  shows "decode c3 = 0" "x1 = 0 \<Longrightarrow> decode c2 = 0"
proof -
  have z: "decode (codes ! 0) = 0" using decode_code[of 0] by simp
  have "codes ! nat (0 AND 63) = c3" using assms by (simp only: encode_group_def list.inject)
  then show "decode c3 = 0" using z by simp
  have "codes ! nat (push_bit 2 (x1 AND 15) OR (drop_bit 6 0 AND 15)) = c2" using assms by (simp only: encode_group_def list.inject)
  then show "decode c2 = 0" if "x1 = 0" using z that by simp
qed

lemma groups_inverse:
  "spells input (ink_base64_encode_unsigned xs) \<Longrightarrow>
   \<exists>rest. decode_groups decode input (plain_length (ink_base64_encode_unsigned xs)) = xs @ rest
     \<and> (decode pad = 0 \<longrightarrow> rest = replicate ((3 - length xs mod 3) mod 3) 0)"
proof (induction xs arbitrary: input rule: ink_base64_encode_unsigned.induct)
  case (1 a b c xs)
  obtain c0 c1 c2 c3 where e: "encode_group (uint a) (uint b) (uint c) = [c0, c1, c2, c3]" by (simp add: encode_group_def)
  have s: "input 0 = c0" "input 1 = c1" "input 2 = c2" "input 3 = c3" "spells (\<lambda>i. input (i + 4)) (ink_base64_encode_unsigned xs)"
    using 1(2) unfolding ink_base64_encode_unsigned.simps e spells_append spells_four four by simp_all
  have g: "decode_group decode c0 c1 c2 c3 = [a, b, c]" using group_inverse(3)[OF _ _ e] uint_lt2p[of c] by simp
  have l: "plain_length (ink_base64_encode_unsigned (a # b # c # xs)) = 4 + plain_length (ink_base64_encode_unsigned xs)"
    by (simp only: encode_plain_length length_group) simp
  obtain rest where "decode_groups decode (\<lambda>i. input (i + 4)) (plain_length (ink_base64_encode_unsigned xs)) = xs @ rest"
    "decode pad = 0 \<longrightarrow> rest = replicate ((3 - length xs mod 3) mod 3) 0" using 1(1)[OF s(5)] by blast
  then show ?case unfolding l length_group using s g by (intro exI[of _ rest]) (simp add: decode_groups_pos)
next
  case 2
  then show ?case by (simp add: plain_length_def)
next
  case (3 a)
  obtain c0 c1 c2 c3 where e: "encode_group (sint a) 0 0 = [c0, c1, c2, c3]" by (simp add: encode_group_def)
  have s: "input 0 = c0" "input 1 = c1" "input 2 = pad" "input 3 = pad" using 3 by (simp_all add: e pad_upd spells_four)
  have l: "plain_length (ink_base64_encode_unsigned [a]) = 2" by (subst encode_plain_length) simp
  have g: "decode_groups decode input 2 = decode_group decode c0 c1 pad pad" using s by (simp add: decode_groups_pos)
  obtain y z where d: "decode_group decode c0 c1 pad pad = [a, y, z]"
    using group_inverse(1)[OF _ _ e, of pad pad] by (simp add: decode_group_def)
  have "decode pad = 0 \<longrightarrow> decode_group decode c0 c1 pad pad = [a, 0, 0]"
    using group_inverse(3)[OF _ _ e] group_zero[OF e] by (simp add: decode_group_def)
  then show ?case unfolding l g d by (intro exI[of _ "[y, z]"]) (simp add: numeral_2_eq_2)
next
  case (4 a b)
  obtain c0 c1 c2 c3 where e: "encode_group (sint a) (sint b) 0 = [c0, c1, c2, c3]" by (simp add: encode_group_def)
  have s: "input 0 = c0" "input 1 = c1" "input 2 = c2" "input 3 = pad" using 4 by (simp_all add: e pad_upd spells_four)
  have l: "plain_length (ink_base64_encode_unsigned [a, b]) = 3" by (subst encode_plain_length) simp
  have g: "decode_groups decode input 3 = decode_group decode c0 c1 c2 pad" using s by (simp add: decode_groups_pos)
  obtain z where d: "decode_group decode c0 c1 c2 pad = [a, b, z]"
    using group_inverse(1)[OF _ _ e, of c2 pad] group_inverse(2)[OF _ _ e, of pad] by (simp add: decode_group_def)
  have "decode pad = 0 \<longrightarrow> decode_group decode c0 c1 c2 pad = [a, b, 0]"
    using group_inverse(3)[OF _ _ e] group_zero[OF e] by (simp add: decode_group_def)
  then show ?case unfolding l g d by (intro exI[of _ "[z]"]) simp
qed

end

interpretation six_bit: alphabet DECODE
  by unfold_locales (rule codes_at)

interpretation alloc_codes: alphabet "\<lambda>c. decode_codes ! unat c"
  by unfold_locales (rule codes_at)

section \<open>The decoder into allocated memory\<close>

lemma cipher_length_spells: "spells input cs \<Longrightarrow> cipher_length input (length cs) = plain_length cs"
proof -
  assume "spells input cs"
  then have "map input [0..<length cs] = cs" by (intro nth_equalityI) (simp_all add: spells_def)
  then have "takeWhile (\<lambda>c. c \<noteq> pad) cs = map input (takeWhile (\<lambda>i. input i \<noteq> pad) [0..<length cs])"
    using takeWhile_map[of "\<lambda>c. c \<noteq> pad" input "[0..<length cs]"] by (simp add: comp_def)
  then show ?thesis by (simp add: cipher_length_def plain_length_def)
qed

section \<open>The decoder into a buffer\<close>

definition stored :: "nat \<Rightarrow> u8 list \<Rightarrow> memory \<Rightarrow> memory" where
  "stored d bs out = (\<lambda>k. if d \<le> k \<and> k < d + length bs then bs ! (k - d) else out k)"

lemma stored_Nil [simp]: "stored d [] out = out"
  by (auto simp: stored_def fun_eq_iff)

lemma stored_three: "stored (d + 3) bs (out(d := x, d + 1 := y, d + 2 := z)) = stored d ([x, y, z] @ bs) out"
proof
  fix k
  consider "k < d" | "k = d" | "k = d + 1" | "k = d + 2" | "d + 3 \<le> k" by linarith
  then show "stored (d + 3) bs (out(d := x, d + 1 := y, d + 2 := z)) k = stored d ([x, y, z] @ bs) out k"
  proof cases
    case 5
    then have "k - d = Suc (Suc (Suc (k - (d + 3))))" by simp
    then show ?thesis using 5 by (simp add: stored_def)
  qed (simp_all add: stored_def)
qed

lemma decode_loop_groups:
  "decode_loop inb m i d out =
     (let gs = decode_groups DECODE (\<lambda>k. inb (i + k)) (nat (m - int i))
      in (stored d gs out, d + length gs, i + 4 * ((nat (m - int i) + 3) div 4)))"
proof (induction inb m i d out rule: decode_loop.induct)
  case (1 inb m i d out)
  show ?case
  proof (cases "int i < m")
    case False
    then show ?thesis by (subst decode_loop.simps) simp
  next
    case True
    define n where "n = nat (m - int i)"
    have n: "0 < n" "nat (m - int (i + 4)) = n - 4" using True by (simp_all add: n_def)
    let ?g = "decode_group DECODE (inb i) (inb (i + 1)) (inb (i + 2)) (inb (i + 3))"
    let ?r = "decode_groups DECODE (\<lambda>k. inb (i + 4 + k)) (n - 4)"
    obtain x y z where g: "?g = [x, y, z]" by (simp add: decode_group_def)
    then have b: "?g ! 0 = x" "?g ! 1 = y" "?g ! 2 = z" by (simp_all add: numeral_2_eq_2)
    have gs: "decode_groups DECODE (\<lambda>k. inb (i + k)) n = ?g @ ?r" using n(1) by (subst decode_groups_pos) (simp_all add: ac_simps)
    have "decode_loop inb m i d out = decode_loop inb m (i + 4) (d + 3) (out(d := x, d + 1 := y, d + 2 := z))"
      using True by (subst decode_loop.simps) (simp only: Let_def b if_True)
    also have "\<dots> = (stored (d + 3) ?r (out(d := x, d + 1 := y, d + 2 := z)), d + 3 + length ?r, i + 4 + 4 * ((n - 4 + 3) div 4))"
      using 1[OF True refl] unfolding Let_def n(2) b .
    also have "i + 4 + 4 * ((n - 4 + 3) div 4) = i + 4 * ((n + 3) div 4)"
      using decode_groups_length[of DECODE inb n] decode_groups_length[of DECODE "\<lambda>k. inb (k + 4)" "n - 4"] n(1) by (simp add: decode_groups_pos)
    finally show ?thesis unfolding Let_def n_def[symmetric] gs stored_three g by (simp add: add.assoc)
  qed
qed

lemma nat_sint: "0 \<le> sint c \<Longrightarrow> nat (sint c) = unat c" for c :: u8
proof -
  assume "0 \<le> sint c"
  moreover have "sint c < 128" using sint_lt[of c] by simp
  ultimately have "uint c = sint c" by (simp add: uint_sint take_bit_int_eq_self)
  then show ?thesis by (simp add: unat_eq_nat_uint)
qed

lemma count_input_to: "(\<And>k. j \<le> k \<Longrightarrow> k < n \<Longrightarrow> 0 \<le> sint (inb k) \<and> DECODE (inb k) \<le> 63) \<Longrightarrow> j \<le> n \<Longrightarrow>
    0 \<le> sint (inb n) \<Longrightarrow> DECODE (inb n) > 63 \<Longrightarrow> count_input inb j = Some n"
proof (induction "n - j" arbitrary: j)
  case 0
  then have "j = n" by simp
  then show ?case using 0 by (subst count_input.simps) (simp add: DECODE_def MAX_PRINT_VAL_def nat_sint)
next
  case (Suc m)
  then have "count_input inb (j + 1) = Some n" by simp
  moreover have "0 \<le> sint (inb j)" "DECODE (inb j) \<le> 63" using Suc by simp_all
  ultimately show ?case by (subst count_input.simps) (simp add: DECODE_def MAX_PRINT_VAL_def nat_sint)
qed

lemma codes_in: "0 \<le> v \<Longrightarrow> v < 64 \<Longrightarrow> codes ! nat v \<in> set codes"
  by (intro nth_mem) (simp add: codes_length nat_less_iff)

lemma codes_char: "c \<in> set codes \<Longrightarrow> 0 \<le> sint c \<and> DECODE c \<le> 63"
proof -
  assume "c \<in> set codes"
  then obtain k where "k < 64" "c = codes ! k" by (auto simp: in_set_conv_nth codes_length)
  then show ?thesis using codes_at(1,4)[of "int k"] by simp
qed

lemma encode_chars: "set (ink_base64_encode_unsigned xs) \<subseteq> insert pad (set codes)"
proof (induction xs rule: ink_base64_encode_unsigned.induct)
  have g: "set (encode_group x0 x1 x2) \<subseteq> set codes" for x0 x1 x2
    using six_range[of _ x0 x1 x2] codes_in by (auto simp: encode_group_six)
  {
    case (1 a b c xs)
    then show ?case using g[of "uint a" "uint b" "uint c"] by auto
  next
    case (3 a)
    then show ?case using g[of "sint a" 0 0] set_update_subset_insert[of "(encode_group (sint a) 0 0)[2 := pad]" 3 pad]
        set_update_subset_insert[of "encode_group (sint a) 0 0" 2 pad] by auto
  next
    case (4 a b)
    then show ?case using g[of "sint a" "sint b" 0] set_update_subset_insert[of "encode_group (sint a) (sint b) 0" 3 pad] by auto
  }
qed simp

text \<open>The characters of an encoded text up to the padding, and what follows.\<close>

lemma plain_chars:
  assumes "spells input (ink_base64_encode_unsigned xs @ [0])"
  shows "k < plain_length (ink_base64_encode_unsigned xs) \<Longrightarrow> 0 \<le> sint (input k) \<and> DECODE (input k) \<le> 63"
    "input (plain_length (ink_base64_encode_unsigned xs)) \<in> {pad, 0}"
proof -
  let ?cs = "ink_base64_encode_unsigned xs" and ?t = "takeWhile (\<lambda>c. c \<noteq> pad) (ink_base64_encode_unsigned xs)"
  have le: "plain_length ?cs \<le> length ?cs" by (simp add: plain_length_def length_takeWhile_le)
  have at: "input k = (?cs @ [0]) ! k" if "k \<le> length ?cs" for k using assms that by (simp add: spells_def)
  show "0 \<le> sint (input k) \<and> DECODE (input k) \<le> 63" if k: "k < plain_length ?cs"
  proof -
    have "input k = ?t ! k" using at[of k] k le by (simp add: nth_append takeWhile_nth plain_length_def)
    then have "input k \<in> set ?t" using k by (simp add: plain_length_def)
    then have "input k \<in> set codes" using encode_chars[of xs] set_takeWhileD[of "input k" "\<lambda>c. c \<noteq> pad" ?cs] by auto
    then show ?thesis by (rule codes_char)
  qed
  show "input (plain_length ?cs) \<in> {pad, 0}"
  proof (cases "plain_length ?cs < length ?cs")
    case True
    then show ?thesis using at[of "plain_length ?cs"] nth_length_takeWhile[of "\<lambda>c. c \<noteq> pad" ?cs] by (simp add: nth_append plain_length_def)
  next
    case False
    then show ?thesis using at[of "plain_length ?cs"] le by (simp add: nth_append)
  qed
qed

lemma not_printable: "0 \<le> sint pad \<and> DECODE pad > 63" "0 \<le> sint (0 :: u8) \<and> DECODE 0 > 63"
  by code_simp+

lemma stored_spells: "stored 0 (xs @ rest) out k = xs ! k" if "k < length xs"
  using that by (simp add: stored_def nth_append)

section \<open>Properties\<close>

text \<open>C22: Decoding an encoded text into a buffer with room for it gives back the text, followed by a 0, and returns its length.\<close>

theorem base64_roundtrip:
  assumes sp: "spells inBuffer (ink_base64_encode xs @ [0])" and room: "3 * ((int (length xs) + 2) div 3) < outBufSize"
  shows "\<exists>out'. ink_base64_decode inBuffer outBufSize out = Some (int (length xs), out') \<and> spells out' (xs @ [0])"
proof -
  note sp = sp[unfolded ink_base64_encode_def]
  let ?cs = "ink_base64_encode_unsigned xs"
  define n where "n = plain_length ?cs"
  define q r where "q = length xs div 3" and "r = length xs mod 3"
  have len: "length xs = 3 * q + r" "r < 3" by (simp_all add: q_def r_def)
  have n: "n = 4 * q + (if r = 0 then 0 else r + 1)" unfolding n_def q_def r_def by (rule encode_plain_length)
  have r: "r = 0 \<or> r = 1 \<or> r = 2" using len(2) by linarith
  have g: "(n + 3) div 4 = q + (if r = 0 then 0 else 1)" "(length xs + 2) div 3 = q + (if r = 0 then 0 else 1)"
    using r unfolding n len(1) by (elim disjE; simp)+
  have "(int n + 3) sdiv 4 = int ((n + 3) div 4)" "(int (length xs) + 2) div 3 = int ((length xs + 2) div 3)"
    by (simp_all add: sdiv_nonneg zdiv_int)
  then have fit: "\<not> ((int n + 3) sdiv 4) * 3 > outBufSize - 1" using room g by simp
  have cnt: "count_input inBuffer 0 = Some n"
    using plain_chars[OF sp, folded n_def] not_printable by (intro count_input_to) auto
  obtain rest where gs: "decode_groups DECODE inBuffer n = xs @ rest"
    using six_bit.groups_inverse[of inBuffer xs, folded n_def] sp by (auto simp: spells_append)
  have loop: "decode_loop inBuffer (int n) 0 0 out = (stored 0 (xs @ rest) out, 3 * ((n + 3) div 4), 4 * ((n + 3) div 4))"
    using decode_loop_groups[of inBuffer "int n" 0 0 out] gs decode_groups_length[of DECODE inBuffer n] by (simp add: Let_def)
  have fin: "spells ((stored 0 (xs @ rest) out)(length xs := 0)) (xs @ [0])" by (auto simp: spells_def nth_append stored_spells less_Suc_eq)
  consider "r = 0" | "r = 1" | "r = 2" using r by blast
  then have "ink_base64_decode inBuffer outBufSize out = Some (int (length xs), (stored 0 (xs @ rest) out)(length xs := 0))"
  proof cases
    case 1
    then show ?thesis using fit loop n g len by (simp add: ink_base64_decode_def cnt)
  next
    case 2
    have "inBuffer (4 * q + 2) \<in> {pad, 0}" using plain_chars(2)[OF sp, folded n_def] n 2 by simp
    then have "DECODE (inBuffer (4 * q + 2)) > 63" using not_printable by auto
    then show ?thesis using 2 fit loop n g len by (simp add: ink_base64_decode_def cnt MAX_PRINT_VAL_def)
  next
    case 3
    have "\<not> DECODE (inBuffer (4 * q + 2)) > 63" using plain_chars(1)[OF sp, of "4 * q + 2", folded n_def] n 3 by simp
    then show ?thesis using 3 fit loop n g len by (simp add: ink_base64_decode_def cnt MAX_PRINT_VAL_def)
  qed
  then show ?thesis using fin by blast
qed

lemma group_bytes_fit: "3 * ((int n + 3) div 4) + 1 \<le> int n * 6 div 8 + 4"
proof -
  obtain a b where n: "n = 4 * a + b" "b < 4" by (metis mod_less_divisor mult_div_mod_eq zero_less_numeral)
  then have "b = 0 \<or> b = 1 \<or> b = 2 \<or> b = 3" by linarith
  then show ?thesis unfolding n(1) by (elim disjE) simp_all
qed

text \<open>C39: The allocating decoder gives back an encoded text too, but counts the bytes of the padding: the length it returns is a
  multiple of 3, with zeros behind the text. What it writes, with the final 0, fits into what it allocates.\<close>

theorem base64_alloc_roundtrip:
  assumes "spells input (ink_base64_encode xs)"
  shows "\<exists>allocated. ink_base64_decode_alloc input (length (ink_base64_encode xs)) = (xs @ replicate ((3 - length xs mod 3) mod 3) 0, allocated)
    \<and> int (length xs + (3 - length xs mod 3) mod 3) + 1 \<le> allocated"
proof -
  note sp = assms[unfolded ink_base64_encode_def]
  define n where "n = plain_length (ink_base64_encode_unsigned xs)"
  let ?ys = "xs @ replicate ((3 - length xs mod 3) mod 3) 0"
  have d: "decode_alloc_loop input n = ?ys"
    using alloc_codes.groups_inverse[OF sp, folded n_def] pad_decode(2) by (auto simp: decode_alloc_groups)
  have "int (length ?ys) = 3 * ((int n + 3) div 4)"
    using decode_groups_length[of "\<lambda>c. decode_codes ! unat c" input n] d by (simp add: decode_alloc_groups zdiv_int)
  then show ?thesis using d group_bytes_fit[of n] cipher_length_spells[OF sp]
    by (simp add: ink_base64_decode_alloc_def ink_base64_encode_def n_def)
qed

lemma count_input_chars: "count_input inb j = Some n \<Longrightarrow> j \<le> n \<and> (\<forall>k. j \<le> k \<and> k < n \<longrightarrow> DECODE (inb k) \<le> 63)"
proof (induction rule: count_input.raw_induct[rotated, consumes 1])
  case (1 cnt inb j n)
  show ?case
  proof (cases "printableToSixBit ! nat (sint (inb j)) \<le> MAX_PRINT_VAL")
    case True
    then have c: "cnt inb (j + 1) = Some n" and s: "0 \<le> sint (inb j)" using 1(2) by (simp_all split: if_splits)
    have "DECODE (inb k) \<le> 63" if "j \<le> k" "k < n" for k
    proof (cases "k = j")
      case True
      then show ?thesis using \<open>printableToSixBit ! nat (sint (inb j)) \<le> MAX_PRINT_VAL\<close> s by (simp add: DECODE_def MAX_PRINT_VAL_def nat_sint)
    qed (use 1(1)[OF c] that in simp)
    then show ?thesis using 1(1)[OF c] by simp
  next
    case False
    then show ?thesis using 1(2) by (simp split: if_splits)
  qed
qed

lemma and_3: "(x :: int) AND 3 = x mod 4"
  by (simp add: and_masks take_bit_eq_mod)

text \<open>What the decoder has stored, for the number of characters \<open>m\<close> that it decodes.\<close>

lemma decode_result:
  assumes "ink_base64_decode inb osz out = Some (d, out')" "1 \<le> osz"
  shows "\<exists>n m gs e. count_input inb 0 = Some n \<and>
    int m = (if ((int n + 3) div 4) * 3 > osz - 1 then (osz - 1) * 4 div 3 else int n) \<and>
    out' = (stored 0 gs out)(e := 0) \<and> length gs = 3 * ((m + 3) div 4) \<and>
    (if m mod 4 = 0 then e = 3 * ((m + 3) div 4)
     else e = 3 * ((m + 3) div 4) - (if DECODE (inb (4 * ((m + 3) div 4) - 2)) > 63 then 2 else 1))"
proof -
  obtain n where n: "count_input inb 0 = Some n" using assms(1) by (auto simp: ink_base64_decode_def bind_eq_Some_conv)
  define M where "M = (if ((int n + 3) div 4) * 3 > osz - 1 then (osz - 1) * 4 div 3 else int n)"
  have "0 \<le> M" using assms(2) by (simp add: M_def pos_imp_zdiv_nonneg_iff)
  then obtain m where m: "M = int m" by (metis nonneg_int_cases)
  define g where "g = (m + 3) div 4"
  define gs where "gs = decode_groups DECODE inb m"
  have lg: "length gs = 3 * g" by (simp add: gs_def g_def decode_groups_length)
  have loop: "decode_loop inb M 0 0 out = (stored 0 gs out, 3 * g, 4 * g)"
    using decode_loop_groups[of inb M 0 0 out] lg by (simp add: Let_def m gs_def g_def)
  have s: "((int n + 3) sdiv 4) = (int n + 3) div 4" "((osz - 1) * 4) sdiv 3 = (osz - 1) * 4 div 3" using assms(2) by (simp_all add: sdiv_nonneg)
  have "(M - int (4 * g)) AND 3 = int (m mod 4)" unfolding and_3 m by (simp add: zmod_int mod_diff_right_eq[symmetric])
  then have D: "ink_base64_decode inb osz out =
      (if m mod 4 \<noteq> 0 then
         if 4 * g < 2 then None
         else let d = (if DECODE (inb (4 * g - 2)) > MAX_PRINT_VAL then 3 * g - 2 else 3 * g - 1) in Some (int d, (stored 0 gs out)(d := 0))
       else Some (int (3 * g), (stored 0 gs out)(3 * g := 0)))"
    unfolding ink_base64_decode_def n bind.bind_lunit s M_def[symmetric] Let_def loop prod.case by simp
  have "\<exists>e. out' = (stored 0 gs out)(e := 0) \<and> (if m mod 4 = 0 then e = 3 * g else e = 3 * g - (if DECODE (inb (4 * g - 2)) > 63 then 2 else 1))"
  proof (cases "m mod 4 = 0")
    case True
    then show ?thesis using assms(1) unfolding D by auto
  next
    case False
    then show ?thesis using assms(1) unfolding D by (auto simp: Let_def MAX_PRINT_VAL_def split: if_splits)
  qed
  then obtain e where e: "out' = (stored 0 gs out)(e := 0)"
    "if m mod 4 = 0 then e = 3 * g else e = 3 * g - (if DECODE (inb (4 * g - 2)) > 63 then 2 else 1)" by blast
  show ?thesis
    by (rule exI[of _ n], rule exI[of _ m], rule exI[of _ gs], rule exI[of _ e], intro conjI)
      (fact n, fact m[symmetric, unfolded M_def], fact e(1), fact lg[unfolded g_def], fact e(2)[unfolded g_def])
qed

text \<open>C21: The decoder writes nothing behind a buffer whose size is not 2 modulo 3, and at most one byte behind one whose size is;
  and that byte is overwritten with 0 by every text that is long enough.\<close>

theorem base64_decode_bounds:
  assumes "1 \<le> outBufSize" "ink_base64_decode inBuffer outBufSize out = Some (d, out')"
  shows "(\<forall>k. int k \<ge> outBufSize + (if outBufSize mod 3 = 2 then 1 else 0) \<longrightarrow> out' k = out k)
    \<and> (outBufSize mod 3 = 2 \<and> (\<exists>n. count_input inBuffer 0 = Some n \<and> int n \<ge> 4 * (outBufSize div 3) + 3) \<longrightarrow> out' (nat outBufSize) = 0)"
proof -
  obtain n m gs e where R: "count_input inBuffer 0 = Some n"
    "int m = (if ((int n + 3) div 4) * 3 > outBufSize - 1 then (outBufSize - 1) * 4 div 3 else int n)"
    "out' = (stored 0 gs out)(e := 0)" "length gs = 3 * ((m + 3) div 4)"
    "if m mod 4 = 0 then e = 3 * ((m + 3) div 4) else e = 3 * ((m + 3) div 4) - (if DECODE (inBuffer (4 * ((m + 3) div 4) - 2)) > 63 then 2 else 1)"
    using decode_result[OF assms(2,1)] by (elim exE conjE) (rule that)
  have st: "out' k = out k" if "length gs \<le> k" "k \<noteq> e" for k using that R(3) by (simp add: stored_def)
  obtain a b where ab: "outBufSize = 3 * int a + int b + 1" "b < 3"
    using that[of "nat ((outBufSize - 1) div 3)" "nat ((outBufSize - 1) mod 3)"] assms(1) mult_div_mod_eq[of 3 "outBufSize - 1"]
    by (simp add: pos_imp_zdiv_nonneg_iff nat_less_iff)
  then have b: "b = 0 \<or> b = 1 \<or> b = 2" by linarith
  have le: "e \<le> 3 * ((m + 3) div 4)" "m mod 4 \<noteq> 0 \<Longrightarrow> e < 3 * ((m + 3) div 4)" using R(5) by (auto split: if_splits)
  show ?thesis
  proof (cases "((int n + 3) div 4) * 3 > outBufSize - 1")
    case False
    then have "int (3 * ((m + 3) div 4)) \<le> outBufSize - 1" using R(2) by (simp add: zdiv_int)
    moreover have "\<not> int n \<ge> 4 * int a + 3" if "b = 1"
    proof
      assume "int n \<ge> 4 * int a + 3"
      then have "(4 * int a + 3 + 3) div 4 \<le> (int n + 3) div 4" by (intro zdiv_mono1) simp_all
      then show False using False ab that by simp
    qed
    ultimately show ?thesis using st le(1) R(1,4) ab b by (elim disjE) auto
  next
    case True
    have m: "m = 4 * a + b" using R(2) True b unfolding ab(1) by (elim disjE) simp_all
    show ?thesis using b
    proof (elim disjE)
      assume "b = 0"
      then show ?thesis using st le R(4) ab m by auto
    next
      assume b1: "b = 1"
      then have g: "(m + 3) div 4 = a + 1" "m mod 4 \<noteq> 0" using m by simp_all
      have "e = nat outBufSize" if "count_input inBuffer 0 = Some n'" "int n' \<ge> 4 * int a + 3" for n'
      proof -
        have "4 * a + 2 < n" using that R(1) by simp
        then have "DECODE (inBuffer (4 * a + 2)) \<le> 63" using count_input_chars[OF R(1)] by simp
        then show ?thesis using R(5) g b1 ab by simp
      qed
      then show ?thesis using st le(2) R(3,4) ab b1 g by auto
    next
      assume b2: "b = 2"
      have "(m + 3) div 4 = a + 1" using m b2 by simp
      moreover have "m mod 4 \<noteq> 0" using m b2 by presburger
      ultimately have "(m + 3) div 4 = a + 1" "m mod 4 \<noteq> 0" by simp_all
      then show ?thesis using st le(2) R(4) ab b2 by auto
    qed
  qed
qed

section \<open>The encoder of strings\<close>

lemma uint_bits: "uint c = take_bit 8 (sint c)" for c :: u8
  by (simp add: uint_sint)

lemma encode_group_uint: "encode_group (sint a) (sint b) x2 = encode_group (uint a) (uint b) x2" for a b :: u8
  by (simp add: encode_group_def and_masks uint_bits drop_bit_take_bit)

lemma six2pr_at_codes: "0 \<le> v \<Longrightarrow> v < 64 \<Longrightarrow> six2pr_at v = Some (codes ! nat v)"
  by (simp add: six2pr_at_def six2pr_def codes_def)

lemma uu_values:
  fixes a b c :: u8
  assumes "0 \<le> sint a"
  shows "[drop_bit 2 (sint a), (push_bit 4 (sint a) AND 48) OR (drop_bit 4 (sint b) AND 15),
    (push_bit 2 (sint b) AND 60) OR (drop_bit 6 (sint c) AND 3), sint c AND 63] = six (uint a) (uint b) (uint c)"
proof -
  have "sint a < 128" using sint_lt[of a] by simp
  then have "take_bit 6 (drop_bit 2 (sint a)) = drop_bit 2 (sint a)" using assms by (intro take_bit_int_eq_self) (simp_all add: drop_bit_eq_div)
  moreover have "push_bit 4 x AND 48 = push_bit 4 (x AND 3)" "push_bit 2 x AND 60 = push_bit 2 (x AND 15)" for x :: int
    by (simp_all add: push_bit_and)
  ultimately show ?thesis by (simp add: six_def and_masks uint_bits drop_bit_take_bit)
qed

lemma uuencode_step:
  assumes "int i < n" "0 \<le> sint (bufin i)"
  shows "uuencode_loop bufin n i = do {
    (cs, j) \<leftarrow> uuencode_loop bufin n (i + 3);
    Some (encode_group (uint (bufin i)) (uint (bufin (i + 1))) (uint (bufin (i + 2))) @ cs, j) }"
proof -
  obtain v0 v1 v2 v3 where v: "six (uint (bufin i)) (uint (bufin (i + 1))) (uint (bufin (i + 2))) = [v0, v1, v2, v3]"
    "encode_group (uint (bufin i)) (uint (bufin (i + 1))) (uint (bufin (i + 2))) = [codes ! nat v0, codes ! nat v1, codes ! nat v2, codes ! nat v3]"
    "0 \<le> v0" "v0 < 64" "0 \<le> v1" "v1 < 64" "0 \<le> v2" "v2 < 64" "0 \<le> v3" "v3 < 64" by (rule encode_group_parts)
  from uu_values[OF assms(2), of "bufin (i + 1)" "bufin (i + 2)"] have
    u: "drop_bit 2 (sint (bufin i)) = v0" "(push_bit 4 (sint (bufin i)) AND 48) OR (drop_bit 4 (sint (bufin (i + 1))) AND 15) = v1"
      "(push_bit 2 (sint (bufin (i + 1))) AND 60) OR (drop_bit 6 (sint (bufin (i + 2))) AND 3) = v2" "sint (bufin (i + 2)) AND 63 = v3"
    unfolding v(1) by (simp_all only: list.inject)
  show ?thesis using assms(1) unfolding v(2) by (subst uuencode_loop.simps) (simp only: u six2pr_at_codes[OF v(3,4)] six2pr_at_codes[OF v(5,6)]
      six2pr_at_codes[OF v(7,8)] six2pr_at_codes[OF v(9,10)] bind.bind_lunit if_True)
qed

lemma uuencode_end: "\<not> int i < n \<Longrightarrow> uuencode_loop bufin n i = Some ([], i)"
  by (subst uuencode_loop.simps) simp

definition padded :: "int \<Rightarrow> u8 list \<Rightarrow> nat \<Rightarrow> u8 list" where
  "padded nbytes cs i = (if int i = nbytes + 1 then cs[length cs - 1 := pad]
     else if int i = nbytes + 2 then cs[length cs - 1 := pad, length cs - 2 := pad] else cs)"

lemma encode_group_length [simp]: "length (encode_group x0 x1 x2) = 4"
  by (simp add: encode_group_def)

lemma update_append: "k < length vs \<Longrightarrow> (us @ vs)[length (us @ vs) - Suc k := x] = us @ vs[length vs - Suc k := x]"
proof -
  assume "k < length vs"
  then have "length (us @ vs) - Suc k = length us + (length vs - Suc k)" by simp
  then show ?thesis by (simp only: list_update_append) simp
qed

lemma padded_append:
  assumes "int i = nbytes \<or> 2 \<le> length vs"
  shows "padded nbytes (us @ vs) i = us @ padded nbytes vs i"
proof (cases "int i = nbytes")
  case False
  then have "2 \<le> length vs" "vs \<noteq> []" using assms by auto
  then show ?thesis using update_append[of 0 vs us pad] update_append[of 1 "vs[length vs - Suc 0 := pad]" us pad]
    by (simp add: padded_def numeral_2_eq_2)
qed (simp add: padded_def)

lemma uuencode_encode:
  "spells (\<lambda>k. bufin (i + k)) (ys @ [0]) \<Longrightarrow> n = int (i + length ys) \<Longrightarrow> \<forall>k < length ys. k mod 3 = 0 \<longrightarrow> 0 \<le> sint (bufin (i + k)) \<Longrightarrow>
   \<exists>cs j. uuencode_loop bufin n i = Some (cs, j) \<and> padded n cs j = ink_base64_encode_unsigned ys \<and> (int j = n \<or> 2 \<le> length cs)"
proof (induction ys arbitrary: i rule: ink_base64_encode_unsigned.induct)
  case (1 a b c ys)
  have s: "bufin i = a" "bufin (i + 1) = b" "bufin (i + 2) = c"
    using 1(2)[unfolded spells_def, rule_format, of 0] 1(2)[unfolded spells_def, rule_format, of 1] 1(2)[unfolded spells_def, rule_format, of 2]
    by (simp_all add: numeral_2_eq_2)
  have "spells (\<lambda>k. bufin (i + 3 + k)) (ys @ [0])"
    using 1(2) spells_append[of "\<lambda>k. bufin (i + k)" "[a, b, c]" "ys @ [0]"] by (simp add: ac_simps numeral_3_eq_3)
  moreover have "n = int (i + 3 + length ys)" using 1(3) by simp
  moreover have "\<forall>k < length ys. k mod 3 = 0 \<longrightarrow> 0 \<le> sint (bufin (i + 3 + k))"
  proof (intro allI impI)
    fix k assume "k < length ys" "k mod 3 = 0"
    then show "0 \<le> sint (bufin (i + 3 + k))" using 1(4)[rule_format, of "k + 3"] by (simp add: ac_simps)
  qed
  ultimately obtain cs j where r: "uuencode_loop bufin n (i + 3) = Some (cs, j)" "padded n cs j = ink_base64_encode_unsigned ys" "int j = n \<or> 2 \<le> length cs"
    using 1(1)[of "i + 3"] by blast
  have "int i < n" "0 \<le> sint (bufin i)" using 1(3) 1(4)[rule_format, of 0] by simp_all
  then have "uuencode_loop bufin n i = Some (encode_group (uint a) (uint b) (uint c) @ cs, j)"
    using r(1) by (simp only: uuencode_step s bind.bind_lunit prod.case)
  then show ?case using r(2) padded_append[OF r(3), of "encode_group (uint a) (uint b) (uint c)"] by auto
next
  case 2
  then show ?case by (simp add: uuencode_end padded_def)
next
  case (3 a)
  have s: "bufin i = a" "bufin (i + 1) = 0"
    using 3(1)[unfolded spells_def, rule_format, of 0] 3(1)[unfolded spells_def, rule_format, of 1] by simp_all
  have e: "uuencode_loop bufin n (i + 3) = Some ([], i + 3)" using 3(2) by (intro uuencode_end) simp
  have "int i < n" "0 \<le> sint (bufin i)" using 3(2) 3(3)[rule_format, of 0] by simp_all
  then have u: "uuencode_loop bufin n i = Some (encode_group (uint a) 0 (uint (bufin (i + 2))), i + 3)" 
    by (simp only: uuencode_step s e bind.bind_lunit prod.case append_Nil2 unsigned_0)
  have "padded n (encode_group (uint a) 0 (uint (bufin (i + 2)))) (i + 3) = (encode_group (uint a) 0 0)[2 := pad, 3 := pad]"
    using 3(2) by (simp add: padded_def encode_group_def numeral_2_eq_2 numeral_3_eq_3)
  then show ?case using u encode_group_uint[of a 0 0] by (intro exI) auto
next
  case (4 a b)
  have s: "bufin i = a" "bufin (i + 1) = b" "bufin (i + 2) = 0"
    using 4(1)[unfolded spells_def, rule_format, of 0] 4(1)[unfolded spells_def, rule_format, of 1] 4(1)[unfolded spells_def, rule_format, of 2]
    by (simp_all add: numeral_2_eq_2)
  have e: "uuencode_loop bufin n (i + 3) = Some ([], i + 3)" using 4(2) by (intro uuencode_end) simp
  have "int i < n" "0 \<le> sint (bufin i)" using 4(2) 4(3)[rule_format, of 0] by simp_all
  then have u: "uuencode_loop bufin n i = Some (encode_group (uint a) (uint b) 0, i + 3)" 
    by (simp only: uuencode_step s e bind.bind_lunit prod.case append_Nil2 unsigned_0)
  have "padded n (encode_group (uint a) (uint b) 0) (i + 3) = (encode_group (uint a) (uint b) 0)[3 := pad]"
    using 4(2) by (simp add: padded_def)
  then show ?case using u encode_group_uint[of a b 0] by (intro exI) auto
qed

lemma uuencode_negative: "\<lbrakk>i \<le> k; int k < n; (k - i) mod 3 = 0; sint (bufin k) < 0\<rbrakk> \<Longrightarrow> uuencode_loop bufin n i = None"
proof (induction "k - i" arbitrary: i rule: less_induct)
  case less
  have i: "int i < n" using less(2,3) by simp
  show ?case
  proof (cases "0 \<le> sint (bufin i)")
    case True
    then have "k \<noteq> i" using less(5) by auto
    then have "3 \<le> k - i" using less(2,4) mod_less[of "k - i" 3] by linarith
    then have "uuencode_loop bufin n (i + 3) = None" using less le_mod_geq[of 3 "k - i"] by (intro less(1)) simp_all
    then show ?thesis using uuencode_step[of i n bufin, OF i True] by simp
  next
    case False
    then have "six2pr_at (drop_bit 2 (sint (bufin i))) = None" by (simp add: six2pr_at_def)
    then show ?thesis using i by (subst uuencode_loop.simps) simp
  qed
qed

text \<open>C40: For a string that ends in 0 and whose every third character, from the first on, is below 128, \<^verbatim>\<open>ink_base64_uuencode\<close> and
  \<^verbatim>\<open>ink_base64_encode\<close> give the same text. With a character above 127 in such a place it reads in front of its table.\<close>

theorem base64_uuencode_agrees:
  assumes "spells bufin (xs @ [0])"
  shows "ink_base64_uuencode bufin (int (length xs)) =
    (if list_all (\<lambda>k. k mod 3 = 0 \<longrightarrow> 0 \<le> sint (xs ! k)) [0..<length xs] then Some (ink_base64_encode xs) else None)"
proof (cases "list_all (\<lambda>k. k mod 3 = 0 \<longrightarrow> 0 \<le> sint (xs ! k)) [0..<length xs]")
  case True
  then have "\<forall>k < length xs. k mod 3 = 0 \<longrightarrow> 0 \<le> sint (bufin k)" using assms by (simp add: list_all_iff spells_def nth_append)
  then obtain cs j where "uuencode_loop bufin (int (length xs)) 0 = Some (cs, j)" "padded (int (length xs)) cs j = ink_base64_encode_unsigned xs"
    using uuencode_encode[of bufin 0 xs "int (length xs)"] assms by auto
  then show ?thesis using True by (simp add: ink_base64_uuencode_def padded_def ink_base64_encode_def Let_def)
next
  case False
  then obtain k where "k < length xs" "k mod 3 = 0" "sint (xs ! k) < 0" by (auto simp: list_all_iff)
  then have "uuencode_loop bufin (int (length xs)) 0 = None" using assms by (intro uuencode_negative[of 0 k]) (simp_all add: spells_def nth_append)
  then show ?thesis using False by (simp add: ink_base64_uuencode_def)
qed

section \<open>Witnesses\<close>

text \<open>A memory with the given characters and zeros behind them.\<close>

definition text_memory :: "u8 list \<Rightarrow> memory" where
  "text_memory cs k = (if k < length cs then cs ! k else 0)"

lemma text_memory_spells: "spells (text_memory cs) (cs @ [0])" "spells (text_memory cs) cs"
  by (auto simp: spells_def text_memory_def nth_append)

theorem base64_roundtrip_witness:
  "\<exists>out'. ink_base64_decode (text_memory (ink_base64_encode [77, 97])) 4 (\<lambda>_. 255) = Some (2, out') \<and> spells out' [77, 97, 0]"
  using base64_roundtrip[OF text_memory_spells(1), of "[77, 97]" 4 "\<lambda>_. 255"] by simp

theorem base64_alloc_roundtrip_witness:
  "\<exists>allocated. ink_base64_decode_alloc (text_memory (ink_base64_encode [77])) (length (ink_base64_encode [77])) = ([77, 0, 0], allocated) \<and> 4 \<le> allocated"
  using base64_alloc_roundtrip[OF text_memory_spells(2), of "[77]"] by (simp add: numeral_2_eq_2)

theorem base64_decode_bounds_witness:
  "\<exists>d out'. ink_base64_decode (text_memory [81, 85, 74, 68]) 2 (\<lambda>_. 255) = Some (d, out') \<and> out' 2 = 0 \<and> out' 3 = 255"
proof -
  have c: "count_input (text_memory [81, 85, 74, 68]) 0 = Some 4" by code_simp
  have "ink_base64_decode (text_memory [81, 85, 74, 68]) 2 (\<lambda>_. 255) \<noteq> None" by code_simp
  then obtain d out' where r: "ink_base64_decode (text_memory [81, 85, 74, 68]) 2 (\<lambda>_. 255) = Some (d, out')" by auto
  show ?thesis using base64_decode_bounds[OF _ r] c r by auto
qed

theorem base64_uuencode_agrees_witness:
  "ink_base64_uuencode (text_memory [77, 97]) 2 = Some (ink_base64_encode [77, 97])"
  using base64_uuencode_agrees[OF text_memory_spells(1), of "[77, 97]"] by simp

end
