(* ===== verification/Spec2Isabelle.thy ===== *)
theory Spec2Isabelle
  imports Prelude Intrusive_List Cache_Dir_Main Io_Buffer_Api Parse_Rules Chunked_Api Mime_Date_Main Ram_Cache_Main Base64_Main
begin

text \<open>
  A verification of some central data structures and codecs of the caching HTTP proxy under \<^verbatim>\<open>src/\<close>.

  \<^bold>\<open>The program.\<close> A server of events (\<^verbatim>\<open>iocore/eventsystem\<close>) moves bytes between connections and the cache in chains of shared
  blocks, the I/O buffers. The HTTP machine (\<^verbatim>\<open>proxy/http2\<close>) parses headers (\<^verbatim>\<open>proxy/hdrs\<close>) with the character rules of
  \<^verbatim>\<open>libinktomi++\<close> and lets a tunnel copy bodies from one buffer to others, where it adds or removes the chunked transfer coding.
  The cache (\<^verbatim>\<open>iocore/cache\<close>) finds documents on disk through a directory of packed entries, hashed by a key, and keeps recent
  ones in memory. Objects are kept on intrusive lists.

  \<^bold>\<open>Theories and sources.\<close> A component has a theory of its definitions, in the order of the source and with its names, and one or
  more theories of lemmas; the properties stand in the last one.

  \<^item> \<open>Prelude\<close>: the C integer types, \<open>c_int\<close>, division that truncates, chains of links.
  \<^item> \<open>Intrusive_List\<close>: \<^verbatim>\<open>DLL\<close> and \<^verbatim>\<open>Queue\<close> of \<^verbatim>\<open>libinktomi++/List.h\<close> on stores of link cells. \<open>dll_rep\<close> and \<open>queue_rep\<close> relate a
    descriptor to a list; every method implements the operation on lists. The locales \<open>fifo\<close> and \<open>lru_queue\<close> are the contracts
    of a queue, interpreted on both spellings of the methods.
  \<^item> \<open>Cache_Key\<close>: \<^verbatim>\<open>INK_MD5::word\<close>, \<^verbatim>\<open>next_CacheKey\<close>, \<^verbatim>\<open>prev_CacheKey\<close> on a store of bytes; the two functions are inverse, in
    place as well.
  \<^item> \<open>Dir_Entry\<close>: the macros of \<^verbatim>\<open>iocore/cache/P_CacheDir.h\<close> on the five 16-bit words of an entry.
  \<^item> \<open>Cache_Dir\<close> and its companions \<open>_Inv\<close>, \<open>_Ops\<close>, \<open>_Alloc\<close>, \<open>_Check\<close>, \<open>_Use\<close>, \<open>_Purge\<close>, \<open>_Api\<close>, \<open>_Main\<close>: \<^verbatim>\<open>iocore/cache/CacheDir.cc\<close>. The
    invariant \<open>seg_inv\<close> says that the free list and the chains of the buckets partition the rows of a segment; \<^verbatim>\<open>dir_insert\<close>,
    \<^verbatim>\<open>dir_probe\<close>, \<^verbatim>\<open>dir_overwrite\<close>, \<^verbatim>\<open>dir_delete\<close> and the cleaning keep it, return, and act on the list of entries of a bucket
    as the contract \<open>entry_index\<close> says. Two theorems give states in which the code goes wrong.
  \<^item> \<open>Io_Buffer\<close> and \<open>_Reader\<close>, \<open>_Writer\<close>, \<open>_Main\<close>, \<open>_Api\<close>: \<^verbatim>\<open>I_IOBuffer.h\<close>, \<^verbatim>\<open>P_IOBuffer.h\<close> and \<^verbatim>\<open>IOBuffer.cc\<close> of
    \<^verbatim>\<open>iocore/eventsystem\<close> on a heap of data and blocks. A buffer with its readers is a queue of bytes with several consumers (the
    contract \<open>byte_queue\<close>): what is written arrives at every reader, once and in order.
  \<^item> \<open>Parse_Rules\<close>: \<^verbatim>\<open>libinktomi++/ParseRules.h\<close>, \<^verbatim>\<open>ParseRules.cc\<close> and \<^verbatim>\<open>CompileParseRules.cc\<close>. The compiled tables agree with the rules;
    the number readers invert decimal representation; the word-wise scan agrees with the loop over bytes where it is aligned.
  \<^item> \<open>Chunked\<close>, \<open>Chunked_Main\<close>, \<open>Chunked_Api\<close>: \<^verbatim>\<open>ChunkedHandler\<close> and the producer handlers of \<^verbatim>\<open>proxy/http2/HttpTunnel.cc\<close>, on the
    I/O buffers and character rules. However the input is cut into blocks and calls, the reader of chunks does what an automaton
    on single bytes does; what the writer of chunks writes, the reader reads back. The locale \<open>byte_pipe\<close> is what both need of the
    buffers.
  \<^item> \<open>Mime_Date\<close>, \<open>Mime_Date_Main\<close>: the integers and dates of \<^verbatim>\<open>proxy/hdrs/MIME.cc\<close>. Dates are those of the Gregorian calendar for as
    long as the computation is right, and formatting followed by parsing is the identity up to 2037.
  \<^item> \<open>Ram_Cache\<close>, \<open>Ram_Cache_Main\<close>: \<^verbatim>\<open>iocore/cache/RamCache.cc\<close>, on the intrusive lists, the cache keys and the heap of buffers. The
    cache is a list of documents in the order of their last use; the locale \<open>document_cache\<close> is its contract, and \<open>ram_reach\<close> its
    reachable states.
  \<^item> \<open>Base64\<close>, \<open>Base64_Main\<close>: \<^verbatim>\<open>libinktomi++/ink_base64.cc\<close>. Both decoders invert the encoder; how far one
    of them writes behind its buffer is bounded. The locale \<open>alphabet\<close> is what a decoder needs of its table.

  \<^bold>\<open>State, errors, loops.\<close> Structures are records; pointers are indices into heaps or addresses of link stores, with \<^term>\<open>None\<close> for
  \<^verbatim>\<open>NULL\<close>; a method takes the state and returns it changed. An operation is \<^term>\<open>None\<close> where the code follows a null pointer, fails an
  \<^verbatim>\<open>ink_release_assert\<close>, leaves a table whose surroundings are not modelled, or does not return; \<^verbatim>\<open>ink_assert\<close> and
  \<^verbatim>\<open>ink_debug_assert\<close> are empty, as in a release build. A loop whose end depends on the data (a chain of links, a retry, a search
  for a terminator) is a partial function with values in an option type, and the properties say that it returns. Nothing has fuel,
  but for \<open>drain\<close> in \<open>Intrusive_List\<close>, the loop of a client, which runs for as many rounds as the queue has objects.

  \<^bold>\<open>Bounds.\<close> Integers whose wrap-around the code can reach are words or pass through \<open>c_int\<close>: the words of an entry, the sum and the
  digits of a chunk size, \<^verbatim>\<open>cur_bytes\<close>, parsed numbers. The others are unbounded; the properties state the limits that they need,
  such as that the bytes in the memory cache stay below 2 to the 31.

  \<^bold>\<open>Not modelled.\<close> First, code whose behaviour lies in its environment: the network (\<^verbatim>\<open>iocore/net\<close>), asynchronous disk access
  (\<^verbatim>\<open>iocore/aio\<close>), name resolution, clustering, the kernel module \<^verbatim>\<open>iocore/fastio\<close>, threads, locks, timers and the event loop (\<^verbatim>\<open>libev\<close>, the
  rest of \<^verbatim>\<open>iocore/eventsystem\<close>), the machines that callbacks drive (\<^verbatim>\<open>CacheVC\<close>, \<^verbatim>\<open>HttpSM\<close>, the rest of \<^verbatim>\<open>HttpTunnel\<close>), management,
  configuration, statistics, plugins, examples and tests.

  Second, code that computes, that could be modelled in the same way, and that is left out for its extent: the heaps of marshalled
  headers and the parsers of headers and addresses in \<^verbatim>\<open>proxy/hdrs\<close>; the decisions of \<^verbatim>\<open>HttpTransact\<close>, which rest on them; the
  compiler and matcher of regular expressions in \<^verbatim>\<open>Regex.cc\<close>, whose automata are arguments of the date parser, so that the
  properties of dates hold for all automata; the other strings, tables and allocators of \<^verbatim>\<open>libinktomi++\<close>; log buffers and formats. In
  \<^verbatim>\<open>List.h\<close> the singly linked and the sortable list and the lists with atomic instructions, and in the tunnel the two functions
  that enable a chunked reader again, are left out as well. By lines the development covers a small part of the sources.
\<close>

end
